(* ===== verification/Mesi_Prelude.thy ===== *)
theory Mesi_Prelude
  imports Main "HOL-Library.Word" "HOL-Library.Multiset"
begin

text \<open>
  Shared ground of the development: the machine-integer types of the C++ sources, the collections of
  rewrite rules the component theories fill, the decimal and hexadecimal printing of
  \<^verbatim>\<open>std::ostream\<close> and \<^verbatim>\<open>std::to_string\<close>, and generic lemmas on lists, maps and folds that the
  components share.
\<close>

unbundle bit_operations_syntax

section \<open>Machine integers\<close>

type_synonym u8 = "8 word"
type_synonym u32 = "32 word"
type_synonym u64 = "64 word"

section \<open>Exceptions\<close>

text \<open>
  The standard exceptions the sources throw, with their message. A function that may throw returns
  \<open>Inl\<close> the exception or \<open>Inr\<close> its result. \<open>Signed_Overflow\<close> is no exception: it marks undefined behaviour,
  an \<^verbatim>\<open>int\<close> expression whose value is no \<^verbatim>\<open>int\<close>, after which nothing is claimed.
\<close>

datatype exn = Invalid_Argument string | Out_Of_Range string | Runtime_Error string | Signed_Overflow

section \<open>Rule collections\<close>

named_theorems frame_simps \<open>what an operation leaves unchanged\<close>
named_theorems effect_simps \<open>what an operation changes, field by field\<close>
named_theorems exec_simps \<open>definitions that evaluate the model on concrete inputs\<close>

text \<open>
  Evaluation by rewriting is strict: with these congruence rules the body of a \<open>let\<close> or of a tuple
  pattern is rewritten only once its value is known.
\<close>

lemmas strict_cong = let_weak_cong prod.case_cong_weak

section \<open>Printing numbers\<close>

text \<open>
  \<^verbatim>\<open>operator<<\<close> on an unsigned integer and \<^verbatim>\<open>std::to_string\<close> print decimal digits without leading
  zeros; after \<^verbatim>\<open>std::hex\<close> the digits are hexadecimal, lower case. A negative \<^verbatim>\<open>int\<close> is printed
  with a leading minus sign.
\<close>

definition digit_char :: "nat \<Rightarrow> char" where
  "digit_char d = ''0123456789abcdef'' ! d"

fun dec_of_nat :: "nat \<Rightarrow> string" where
  "dec_of_nat n = (if n < 10 then [digit_char n] else dec_of_nat (n div 10) @ [digit_char (n mod 10)])"

fun hex_of_nat :: "nat \<Rightarrow> string" where
  "hex_of_nat n = (if n < 16 then [digit_char n] else hex_of_nat (n div 16) @ [digit_char (n mod 16)])"

definition dec_of_int :: "int \<Rightarrow> string" where
  "dec_of_int i = (if i < 0 then ''-'' @ dec_of_nat (nat (- i)) else dec_of_nat (nat i))"

abbreviation newline :: string where
  "newline \<equiv> [CHR 0x0A]"

declare dec_of_nat.simps [simp del] hex_of_nat.simps [simp del]

section \<open>Counters kept in a vector\<close>

text \<open>\<^verbatim>\<open>v[i]++\<close> on a \<^verbatim>\<open>std::vector<uint64_t>\<close>; the index is always in range in the sources.\<close>

definition inc_at :: "nat \<Rightarrow> u64 list \<Rightarrow> u64 list" where
  "inc_at i xs = xs[i := xs ! i + 1]"

lemmas [exec_simps] = inc_at_def digit_char_def dec_of_int_def upt_rec Let_def

lemma length_inc_at [simp]: "length (inc_at i xs) = length xs"
  by (simp add: inc_at_def)

lemma nth_inc_at:
  "j < length xs \<Longrightarrow> inc_at i xs ! j = (if i = j then xs ! j + 1 else xs ! j)"
  by (simp add: inc_at_def nth_list_update)

lemma inc_at_commute: "inc_at i (inc_at j xs) = inc_at j (inc_at i xs)"
proof (cases "i = j")
  case False
  then show ?thesis by (simp add: inc_at_def list_update_swap)
qed simp

section \<open>Updates of one element of a list\<close>

lemma nth_list_update_if:
  "j < length xs \<Longrightarrow> xs[i := x] ! j = (if i = j then x else xs ! j)"
  by (simp add: nth_list_update)

lemma list_update_nth_update [simp]: "xs[i := g (xs[i := y] ! i)] = xs[i := g y]"
proof (cases "i < length xs")
  case False
  then show ?thesis by (simp add: list_update_beyond)
qed simp

lemma in_set_update_other:
  assumes "i < length xs" and "xs ! i \<noteq> y" and "x \<noteq> y"
  shows "y \<in> set (xs[i := x]) \<longleftrightarrow> y \<in> set xs"
proof -
  have "xs[i := x] ! j = y \<longleftrightarrow> xs ! j = y" if "j < length xs" for j
    using assms that by (auto simp: nth_list_update_if)
  then show ?thesis unfolding in_set_conv_nth by auto
qed

lemma length_filter_update:
  assumes "i < length xs"
  shows "length (filter P (xs[i := x])) + of_bool (P (xs ! i)) = length (filter P xs) + of_bool (P x)"
  using assms
proof (induction xs arbitrary: i)
  case (Cons y ys)
  then show ?case by (cases i) auto
qed simp

lemma sum_list_map_update:
  fixes f :: "'a \<Rightarrow> nat"
  assumes "i < length xs"
  shows "(\<Sum>x\<leftarrow>xs[i := y]. f x) + f (xs ! i) = (\<Sum>x\<leftarrow>xs. f x) + f y"
  using assms
proof (induction xs arbitrary: i)
  case (Cons x xs)
  then show ?case by (cases i) auto
qed simp

lemma sum_list_bounded: "(\<And>x. x \<in> set xs \<Longrightarrow> x \<le> b) \<Longrightarrow> sum_list xs \<le> length xs * (b :: nat)"
  by (induction xs) (auto simp: add_mono)

lemma unat_of_nat_small: "n < 2 ^ 32 \<Longrightarrow> unat (of_nat n :: 32 word) = n"
  by (simp add: unat_of_nat take_bit_nat_eq_self)

lemma even_of_nat_word: "even (of_nat n :: 32 word) \<longleftrightarrow> even n"
  by transfer simp

lemma of_nat_small_eq: "a < 2 ^ 32 \<Longrightarrow> b < 2 ^ 32 \<Longrightarrow> (of_nat a :: 32 word) = of_nat b \<longleftrightarrow> a = b"
  by (metis unat_of_nat_small)

lemma two_elements: "length xs = 2 \<Longrightarrow> xs = [xs ! 0, xs ! 1]"
  by (rule nth_equalityI) (auto simp: less_2_cases_iff)

lemma length_at_most_one:
  assumes "distinct xs" and "\<And>x y. x \<in> set xs \<Longrightarrow> y \<in> set xs \<Longrightarrow> x = y"
  shows "length xs = of_bool (set xs \<noteq> {})"
proof (cases xs)
  case (Cons x ys)
  have "ys = []"
  proof (cases ys)
    case (Cons y zs)
    with \<open>xs = x # ys\<close> assms(1) assms(2) [of x y] show ?thesis by simp
  qed simp
  with Cons show ?thesis by simp
qed simp

lemma balance:
  fixes x :: "'a :: ab_group_add"
  assumes "x' + b = x + a" and "p' + a = p + b"
  shows "x' + p' = x + p"
proof -
  have "x' = x + a - b" "p' = p + b - a" using assms by (simp_all add: eq_diff_eq)
  then show ?thesis by simp
qed

section \<open>Folds of map updates\<close>

text \<open>The loops over the words of a line set, copy or erase one key per iteration.\<close>

lemma fold_map_upd:
  "fold (\<lambda>a m. m(a \<mapsto> f a)) ks m = (\<lambda>x. if x \<in> set ks then Some (f x) else m x)"
  by (induction ks arbitrary: m) (auto simp: fun_eq_iff)

lemma fold_map_erase:
  "fold (\<lambda>a m. m(a := None)) ks m = (\<lambda>x. if x \<in> set ks then None else m x)"
  by (induction ks arbitrary: m) (auto simp: fun_eq_iff)

lemma fold_map_upd_if:
  "fold (\<lambda>a m. if p a then m(a \<mapsto> f a) else m) ks m
   = (\<lambda>x. if x \<in> set ks \<and> p x then Some (f x) else m x)"
  by (induction ks arbitrary: m) (auto simp: fun_eq_iff)

section \<open>Guarded folds\<close>

lemma fold_guard_none: "(\<And>x. x \<in> set xs \<Longrightarrow> \<not> p x) \<Longrightarrow> fold (\<lambda>x s. if p x then f x s else s) xs s = s"
  by (induction xs arbitrary: s) auto

lemma fold_guard_one:
  assumes "distinct xs" and "k \<in> set xs" and "p k"
    and "\<And>x. x \<in> set xs \<Longrightarrow> x \<noteq> k \<Longrightarrow> \<not> p x"
  shows "fold (\<lambda>x s. if p x then f x s else s) xs s = f k s"
  using assms
proof (induction xs arbitrary: s)
  case (Cons x xs)
  show ?case
  proof (cases "x = k")
    case True
    with Cons.prems have "\<not> p y" if "y \<in> set xs" for y using that by auto
    with True Cons.prems(3) show ?thesis by (simp add: fold_guard_none)
  next
    case False
    with Cons show ?thesis by auto
  qed
qed simp

text \<open>A property every step keeps holds after the fold.\<close>

lemma fold_keeps: "P s \<Longrightarrow> (\<And>x s. P s \<Longrightarrow> P (f x s)) \<Longrightarrow> P (fold f xs s)"
  by (induction xs arbitrary: s) auto

section \<open>Loops that may throw\<close>

definition sbind :: "'e + 'a \<Rightarrow> ('a \<Rightarrow> 'e + 'b) \<Rightarrow> 'e + 'b" where
  "sbind r f = (case r of Inl e \<Rightarrow> Inl e | Inr x \<Rightarrow> f x)"

lemma sbind_simps [simp]: "sbind (Inl e) f = Inl e" "sbind (Inr x) f = f x"
  by (simp_all add: sbind_def)

fun for_each :: "('x \<Rightarrow> 's \<Rightarrow> 'e + 's) \<Rightarrow> 'x list \<Rightarrow> 's \<Rightarrow> 'e + 's" where
  "for_each f [] s = Inr s"
| "for_each f (x # xs) s = sbind (f x s) (for_each f xs)"

lemma for_each_append: "for_each f (xs @ ys) s = sbind (for_each f xs s) (for_each f ys)"
  by (induction xs arbitrary: s) (auto simp: sbind_def split: sum.splits)

lemma for_each_cong: "(\<And>x. x \<in> set xs \<Longrightarrow> f x = g x) \<Longrightarrow> for_each f xs s = for_each g xs s"
proof (induction xs arbitrary: s)
  case (Cons x xs)
  then have "for_each f xs = for_each g xs" by (intro ext) simp
  with Cons.prems show ?case by simp
qed simp

lemma for_each_breaks:
  assumes "i < n" and "for_each f [0..<i] s = Inr s'" and "f i s' = Inl x"
  shows "for_each f [0..<n] s = Inl x"
proof -
  have "[0..<n] = [0..<i] @ i # [Suc i..<n]" using assms(1) upt_add_eq_append [of 0 i "n - i"] upt_conv_Cons [of i n] by simp
  with assms(2,3) show ?thesis by (simp add: for_each_append sbind_def)
qed

text \<open>The rule of a counting loop: it returns, and its invariant holds after the last round.\<close>

lemma for_each_upt:
  assumes "P 0 s" and "\<And>i s. i < n \<Longrightarrow> P i s \<Longrightarrow> \<exists>s'. f i s = Inr s' \<and> P (Suc i) s'"
  shows "\<exists>s'. for_each f [0..<n] s = Inr s' \<and> P n s'"
  using assms
proof (induction n)
  case (Suc n)
  from Suc.IH [OF Suc.prems(1)] Suc.prems(2)
  obtain s1 where "for_each f [0..<n] s = Inr s1" "P n s1" by (meson less_SucI)
  moreover from this Suc.prems(2) [of n] obtain s2 where "f n s1 = Inr s2" "P (Suc n) s2" by blast
  ultimately show ?case by (simp add: for_each_append)
qed simp

section \<open>Arithmetic on int\<close>

definition as_int :: "int \<Rightarrow> exn + int" where
  "as_int x = (if - (2 ^ 31) \<le> x \<and> x < 2 ^ 31 then Inr x else Inl Signed_Overflow)"

definition int_mul :: "int \<Rightarrow> int \<Rightarrow> exn + int" where
  "int_mul x y = as_int (x * y)"

definition int_add :: "int \<Rightarrow> int \<Rightarrow> exn + int" where
  "int_add x y = as_int (x + y)"

lemmas int_arith_defs = as_int_def int_mul_def int_add_def

lemmas [exec_simps] = int_arith_defs

lemma int_mul_index: "0 \<le> k \<Longrightarrow> k * int i < 2 ^ 31 \<Longrightarrow> int_mul k (int i) = Inr (k * int i)"
proof -
  assume "0 \<le> k" "k * int i < 2 ^ 31"
  moreover have "- (2 ^ 31) \<le> k * int i" using \<open>0 \<le> k\<close> by (intro order_trans [OF _ mult_nonneg_nonneg]) simp_all
  ultimately show ?thesis by (simp add: int_arith_defs)
qed

section \<open>Runs in sequence\<close>

text \<open>Runs one after the other that share the flag or the system.\<close>

fun chain :: "('x \<Rightarrow> 'g \<Rightarrow> 'g \<Rightarrow> bool) \<Rightarrow> 'x list \<Rightarrow> 'g \<Rightarrow> 'g \<Rightarrow> bool" where
  "chain R [] g g' \<longleftrightarrow> g' = g"
| "chain R (x # xs) g g' \<longleftrightarrow> (\<exists>g1. R x g g1 \<and> chain R xs g1 g')"

lemma chain_keeps:
  assumes "chain R xs g g'" and "P g" and "\<And>x g g'. x \<in> set xs \<Longrightarrow> R x g g' \<Longrightarrow> P g \<Longrightarrow> P g'"
  shows "P g'"
  using assms by (induction xs arbitrary: g) auto

lemma chain_exists:
  assumes "P g" and "\<And>x g. x \<in> set xs \<Longrightarrow> P g \<Longrightarrow> \<exists>g'. R x g g' \<and> P g'"
  shows "\<exists>g'. chain R xs g g'"
  using assms
proof (induction xs arbitrary: g)
  case (Nil g)
  then show ?case by (auto intro!: exI [of _ g])
next
  case (Cons x xs)
  from Cons.prems(2) [of x g] Cons.prems(1) obtain g1 where "R x g g1" "P g1" by auto
  moreover from this Cons.IH [of g1] Cons.prems(2) have "\<exists>g'. chain R xs g1 g'" by simp
  ultimately show ?case by auto
qed

lemmas [exec_simps] = sbind_def

end
