(* ===== verification/Mesi_Types.thy ===== *)
theory Mesi_Types
  imports Mesi_Prelude
begin

text \<open>
  The enumerations and small structs of \<^verbatim>\<open>model/mesi_types.hpp\<close>: the MESI state of a line, the bus
  transactions, the result of a snoop, and the address arithmetic of 64-byte lines, with the
  lemmas on lines the protocol proofs use.
\<close>

section \<open>Line states, transactions, requests\<close>

datatype State = State_I | State_S | State_E | State_M

fun state_str :: "State \<Rightarrow> string" where
  "state_str State_M = ''M''"
| "state_str State_E = ''E''"
| "state_str State_S = ''S''"
| "state_str State_I = ''I''"

text \<open>The numeric values of the enumerators, which mirror the RTL encoding.\<close>

fun State_val :: "State \<Rightarrow> u8" where
  "State_val State_I = 0"
| "State_val State_S = 1"
| "State_val State_E = 2"
| "State_val State_M = 3"

text \<open>Ordered by these values, a state grants whatever a smaller one grants.\<close>

lemma State_val_inject: "State_val s = State_val t \<longleftrightarrow> s = t"
  by (cases s; cases t; simp)

instantiation State :: linorder
begin

definition less_eq_State :: "State \<Rightarrow> State \<Rightarrow> bool" where
  "less_eq_State s t \<longleftrightarrow> State_val s \<le> State_val t"

definition less_State :: "State \<Rightarrow> State \<Rightarrow> bool" where
  "less_State s t \<longleftrightarrow> State_val s < State_val t"

instance
proof
  fix x y z :: State
  show "x < y \<longleftrightarrow> x \<le> y \<and> \<not> y \<le> x" "x \<le> x" "x \<le> y \<or> y \<le> x"
    by (auto simp: less_eq_State_def less_State_def)
  show "x \<le> y \<Longrightarrow> y \<le> z \<Longrightarrow> x \<le> z" by (simp add: less_eq_State_def)
  show "x \<le> y \<Longrightarrow> y \<le> x \<Longrightarrow> x = y" by (simp add: less_eq_State_def flip: State_val_inject)
qed

end

lemma State_I_least [simp]: "State_I \<le> s"
  by (simp add: less_eq_State_def)

lemma State_S_le_iff: "State_S \<le> s \<longleftrightarrow> s \<noteq> State_I"
  by (cases s) (simp_all add: less_eq_State_def)

datatype BusTxn = BusTxn_None | BusRd | BusRdX | BusUpgr | BusWB

fun BusTxn_val :: "BusTxn \<Rightarrow> u8" where
  "BusTxn_val BusTxn_None = 0"
| "BusTxn_val BusRd = 1"
| "BusTxn_val BusRdX = 2"
| "BusTxn_val BusUpgr = 3"
| "BusTxn_val BusWB = 4"

fun txn_str :: "BusTxn \<Rightarrow> string" where
  "txn_str BusTxn_None = ''None''"
| "txn_str BusRd = ''BusRd''"
| "txn_str BusRdX = ''BusRdX''"
| "txn_str BusUpgr = ''BusUpgr''"
| "txn_str BusWB = ''BusWB''"

datatype PrReq = PrReq_None | PrRd | PrWr

section \<open>Snoop results\<close>

record SnoopResult =
  had_copy :: bool
  intervened :: bool

definition SnoopResult_new :: SnoopResult where
  "SnoopResult_new = \<lparr>had_copy = False, intervened = False\<rparr>"

text \<open>\<^verbatim>\<open>operator|=\<close>: the left operand is updated and returned.\<close>

definition SnoopResult_or :: "SnoopResult \<Rightarrow> SnoopResult \<Rightarrow> SnoopResult" where
  "SnoopResult_or r o' =
     r\<lparr>had_copy := had_copy r \<or> had_copy o', intervened := intervened r \<or> intervened o'\<rparr>"

lemma SnoopResult_or_sel [simp]:
  "had_copy (SnoopResult_or r q) \<longleftrightarrow> had_copy r \<or> had_copy q"
  "intervened (SnoopResult_or r q) \<longleftrightarrow> intervened r \<or> intervened q"
  by (simp_all add: SnoopResult_or_def)

lemma SnoopResult_new_sel [simp]:
  "\<not> had_copy SnoopResult_new" "\<not> intervened SnoopResult_new"
  by (simp_all add: SnoopResult_new_def)

section \<open>Lines\<close>

definition LINE_BYTES :: u32 where
  "LINE_BYTES = 64"

definition line_of :: "u32 \<Rightarrow> u32" where
  "line_of addr = addr AND NOT (LINE_BYTES - 1)"

lemmas [exec_simps] = line_of_def LINE_BYTES_def SnoopResult_new_def SnoopResult_or_def

lemma line_of_idem [simp]: "line_of (line_of a) = line_of a"
  by (simp add: line_of_def)

lemma line_of_le: "line_of a \<le> a"
  by (simp add: line_of_def word_and_le2)

lemma line_of_mask: "line_of a = a AND NOT (mask 6)"
  by (simp add: line_of_def LINE_BYTES_def mask_eq_decr_exp)

lemma line_of_bit: "bit (line_of a) n \<longleftrightarrow> bit a n \<and> 6 \<le> n"
  by (auto simp: line_of_mask bit_simps dest: bit_imp_le_length)

lemma line_of_push_drop: "line_of a = push_bit 6 (drop_bit 6 a)"
  by (rule bit_word_eqI) (auto simp: line_of_bit bit_simps)

lemma unat_line_of: "unat (line_of a) = 64 * (unat a div 64)"
proof -
  have "line_of a + take_bit 6 a = a"
    by (simp add: line_of_push_drop bits_ident)
  then have "line_of a = a - take_bit 6 a"
    by (simp add: eq_diff_eq)
  moreover have "take_bit 6 a \<le> a"
    by (simp add: word_le_nat_alt unsigned_take_bit_eq)
  ultimately have "unat (line_of a) = unat a - unat a mod 64"
    by (simp add: unat_sub take_bit_eq_mod unat_mod)
  then show ?thesis by (simp add: minus_mod_eq_mult_div)
qed

lemma line_of_eq_iff: "line_of a = line_of b \<longleftrightarrow> unat a div 64 = unat b div 64"
  by (simp add: word_unat_eq_iff unat_line_of)

lemma line_of_offset:
  assumes "line_of a = a" and "unat k < 64"
  shows "line_of (a + k) = a"
proof -
  obtain q where a: "unat a = 64 * q"
    using assms(1) unat_line_of [of a] by metis
  have "unat a < 2 ^ LENGTH(32)"
    by (rule unsigned_less)
  then have "64 * q < 2 ^ 32"
    by (simp add: a)
  with assms(2) have "64 * q + unat k < 2 ^ 32" by simp
  then have "unat (a + k) = 64 * q + unat k"
    by (simp add: unat_word_ariths a)
  with assms(2) have "unat (line_of (a + k)) = unat a"
    by (simp add: unat_line_of a)
  then show ?thesis by (simp add: word_unat_eq_iff)
qed

end
