(* ===== verification/Mesi_Memory.thy ===== *)
theory Mesi_Memory
  imports Mesi_Types
begin

text \<open>
  The backing store of \<^verbatim>\<open>model/memory.hpp\<close>: a hash map from word addresses to words in which an
  absent word reads as 0, and the interface \<open>word_store\<close> its clients rely on, with the effect of a
  sequence of writes proved once.
\<close>

section \<open>The class Memory\<close>

record Memory =
  m_data :: "u32 \<rightharpoonup> u32"
  accesses :: u64

definition Memory_new :: Memory where
  "Memory_new = \<lparr>m_data = Map.empty, accesses = 0\<rparr>"

definition Memory_read :: "Memory \<Rightarrow> u32 \<Rightarrow> u32" where
  "Memory_read m addr = (case m_data m addr of None \<Rightarrow> 0 | Some v \<Rightarrow> v)"

definition Memory_write :: "u32 \<Rightarrow> u32 \<Rightarrow> Memory \<Rightarrow> Memory" where
  "Memory_write addr val m = m\<lparr>m_data := (m_data m)(addr \<mapsto> val)\<rparr>"

lemmas [exec_simps] = Memory_new_def Memory_read_def Memory_write_def

lemma Memory_read_new [simp]: "Memory_read Memory_new a = 0"
  by (simp add: Memory_read_def Memory_new_def)

lemma Memory_read_accesses [simp]: "Memory_read (m\<lparr>accesses := n\<rparr>) a = Memory_read m a"
  by (simp add: Memory_read_def)

section \<open>The interface of a word store\<close>

text \<open>
  What the caches, the store buffers and the checkers rely on: a read returns the word last
  written at that address and a write disturbs no other address.
\<close>

locale word_store =
  fixes rd :: "'s \<Rightarrow> u32 \<Rightarrow> u32"
    and wr :: "u32 \<Rightarrow> u32 \<Rightarrow> 's \<Rightarrow> 's"
  assumes rd_wr: "rd (wr a v s) = (rd s)(a := v)"
begin

lemma rd_wr_same: "rd (wr a v s) a = v"
  by (simp add: rd_wr)

lemma rd_wr_other: "a \<noteq> b \<Longrightarrow> rd (wr a v s) b = rd s b"
  by (simp add: rd_wr)

lemma rd_wr_overwrite: "rd (wr a v (wr a w s)) = rd (wr a v s)"
  by (simp add: rd_wr)

lemma rd_wr_swap: "a \<noteq> b \<Longrightarrow> rd (wr a v (wr b w s)) = rd (wr b w (wr a v s))"
  by (simp add: rd_wr fun_upd_twist)

text \<open>A loop that writes, for the addresses of a list that satisfy a guard, a value computed from
  the address: the order and the repetitions do not matter.\<close>

lemma rd_fold_wr_if:
  "rd (fold (\<lambda>a s. if p a then wr a (f a) s else s) ks s) x
   = (if x \<in> set ks \<and> p x then f x else rd s x)"
  by (induction ks arbitrary: s) (auto simp: rd_wr)

text \<open>A sequence of stores in program order: the last one to an address wins.\<close>

lemma rd_fold_stores:
  "rd (fold (\<lambda>(a, v). wr a v) es s) x
   = (case map_of (rev es) x of None \<Rightarrow> rd s x | Some v \<Rightarrow> v)"
proof (induction es arbitrary: s)
  case (Cons e es)
  then show ?case
    by (cases e) (auto simp: rd_wr map_add_def split: option.splits)
qed simp

end

lemma Memory_read_write: "Memory_read (Memory_write a v m) = (Memory_read m)(a := v)"
  by (auto simp: Memory_read_def Memory_write_def)

interpretation memory: word_store Memory_read Memory_write
  by unfold_locales (rule Memory_read_write)

text \<open>The flat reference memory of the specifications is a word store, too.\<close>

definition flat_write :: "u32 \<Rightarrow> u32 \<Rightarrow> (u32 \<Rightarrow> u32) \<Rightarrow> (u32 \<Rightarrow> u32)" where
  "flat_write a v m = m(a := v)"

interpretation flat: word_store "\<lambda>m :: u32 \<Rightarrow> u32. m" flat_write
  by unfold_locales (simp add: flat_write_def)

lemma accesses_Memory_write [simp]: "accesses (Memory_write a v m) = accesses m"
  by (simp add: Memory_write_def)

end
