(* ===== verification/Mesi_Perf.thy ===== *)
theory Mesi_Perf
  imports Mesi_Types
begin

text \<open>
  The performance counters of \<^verbatim>\<open>model/perf.hpp\<close>: 64-bit counters that wrap around, one vector
  entry per core for the per-core counters, and the two text renderings of the counters.
\<close>

section \<open>The struct PerfCounters\<close>

record PerfCounters =
  bus_cycles_busy :: u64
  bus_rd_count :: u64
  bus_rdx_count :: u64
  bus_upgr_count :: u64
  bus_wb_count :: u64
  inv_count :: "u64 list"
  l1_hit :: "u64 list"
  l1_miss :: "u64 list"
  stall_cycles :: "u64 list"
  sb_drain_cycles :: "u64 list"

definition PerfCounters_new :: PerfCounters where
  "PerfCounters_new =
     \<lparr>bus_cycles_busy = 0, bus_rd_count = 0, bus_rdx_count = 0, bus_upgr_count = 0,
      bus_wb_count = 0, inv_count = [], l1_hit = [], l1_miss = [], stall_cycles = [],
      sb_drain_cycles = []\<rparr>"

definition PerfCounters_resize :: "nat \<Rightarrow> PerfCounters \<Rightarrow> PerfCounters" where
  "PerfCounters_resize n p =
     p\<lparr>inv_count := replicate n 0, l1_hit := replicate n 0, l1_miss := replicate n 0,
       stall_cycles := replicate n 0, sb_drain_cycles := replicate n 0\<rparr>"

definition total_bus_txns :: "PerfCounters \<Rightarrow> u64" where
  "total_bus_txns p = bus_rd_count p + bus_rdx_count p + bus_upgr_count p + bus_wb_count p"

section \<open>Text renderings\<close>

definition core_line :: "PerfCounters \<Rightarrow> nat \<Rightarrow> string" where
  "core_line p i =
     newline @ ''  core'' @ dec_of_nat i
     @ '': hit='' @ dec_of_nat (unat (l1_hit p ! i))
     @ '' miss='' @ dec_of_nat (unat (l1_miss p ! i))
     @ '' inv='' @ dec_of_nat (unat (inv_count p ! i))
     @ '' stall='' @ dec_of_nat (unat (stall_cycles p ! i))"

definition PerfCounters_to_string :: "PerfCounters \<Rightarrow> string" where
  "PerfCounters_to_string p =
     ''bus_rd='' @ dec_of_nat (unat (bus_rd_count p))
     @ '' bus_rdx='' @ dec_of_nat (unat (bus_rdx_count p))
     @ '' bus_upgr='' @ dec_of_nat (unat (bus_upgr_count p))
     @ '' bus_wb='' @ dec_of_nat (unat (bus_wb_count p))
     @ '' total_txn='' @ dec_of_nat (unat (total_bus_txns p))
     @ concat (map (core_line p) [0..<length (l1_hit p)])"

definition csv_row :: "string \<Rightarrow> PerfCounters \<Rightarrow> string" where
  "csv_row tag p =
     tag @ '','' @ dec_of_nat (unat (bus_rd_count p)) @ '',''
     @ dec_of_nat (unat (bus_rdx_count p)) @ '',''
     @ dec_of_nat (unat (bus_upgr_count p)) @ '',''
     @ dec_of_nat (unat (bus_wb_count p)) @ '','' @ dec_of_nat (unat (total_bus_txns p))"

lemmas [exec_simps] = PerfCounters_new_def PerfCounters_resize_def total_bus_txns_def

section \<open>Shape of the counters\<close>

text \<open>Every per-core vector has one entry per core.\<close>

definition perf_sized :: "nat \<Rightarrow> PerfCounters \<Rightarrow> bool" where
  "perf_sized n p \<longleftrightarrow>
     length (inv_count p) = n \<and> length (l1_hit p) = n \<and> length (l1_miss p) = n
     \<and> length (stall_cycles p) = n \<and> length (sb_drain_cycles p) = n"

lemma perf_sized_resize: "perf_sized n (PerfCounters_resize n p)"
  by (simp add: perf_sized_def PerfCounters_resize_def)

end
