(* ===== verification/Bus_State.thy ===== *)
theory Bus_State
  imports Mesi_Memory Mesi_Perf
begin

text \<open>
  The state of the behavioural model: the private members of \<^verbatim>\<open>CacheController\<close>
  (\<^verbatim>\<open>model/cache_controller.hpp\<close>) and \<^verbatim>\<open>SnoopingBus\<close> (\<^verbatim>\<open>model/snooping_bus.hpp\<close>) as records, with
  the methods that touch one object only. A member \<^verbatim>\<open>x_\<close> is the field \<open>c_x\<close> of a controller and
  \<open>b_x\<close> of the bus. The controllers live in the bus that owns them, so the back pointer \<^verbatim>\<open>bus_\<close> of a
  controller is the bus state every method takes and returns, and \<^verbatim>\<open>this\<close> is an index into the
  vector of controllers.

  A hash map is a partial map. The hash set of the registered words of a line is the list of its
  elements without repetitions: the iteration order of \<^verbatim>\<open>std::unordered_set\<close> is unspecified, and
  the closed forms below show that no loop over it depends on the order.

  \<^verbatim>\<open>std::mt19937_64 rng_\<close> is consulted by \<^verbatim>\<open>std::shuffle\<close> only, whose result the standard leaves to
  the implementation up to being a permutation; the engine is the sequence of the permutations its
  successive shuffles apply.
\<close>

section \<open>Cache controllers\<close>

record CacheController =
  c_id :: nat
  c_state :: "u32 \<rightharpoonup> State"
  c_data :: "u32 \<rightharpoonup> u32"

definition CacheController_new :: "nat \<Rightarrow> CacheController" where
  "CacheController_new i = \<lparr>c_id = i, c_state = Map.empty, c_data = Map.empty\<rparr>"

definition line_state :: "CacheController \<Rightarrow> u32 \<Rightarrow> State" where
  "line_state c line = (case c_state c line of None \<Rightarrow> State_I | Some s \<Rightarrow> s)"

definition has_word :: "CacheController \<Rightarrow> u32 \<Rightarrow> bool" where
  "has_word c addr \<longleftrightarrow> c_data c addr \<noteq> None"

definition peek :: "CacheController \<Rightarrow> u32 \<Rightarrow> u32" where
  "peek c addr = (case c_data c addr of None \<Rightarrow> 0 | Some v \<Rightarrow> v)"

definition set_state :: "u32 \<Rightarrow> State \<Rightarrow> CacheController \<Rightarrow> CacheController" where
  "set_state line s c =
     (if s = State_I then c\<lparr>c_state := (c_state c)(line := None)\<rparr>
      else c\<lparr>c_state := (c_state c)(line \<mapsto> s)\<rparr>)"

definition put_word :: "u32 \<Rightarrow> u32 \<Rightarrow> CacheController \<Rightarrow> CacheController" where
  "put_word addr v c = c\<lparr>c_data := (c_data c)(addr \<mapsto> v)\<rparr>"

definition erase_word :: "u32 \<Rightarrow> CacheController \<Rightarrow> CacheController" where
  "erase_word addr c = c\<lparr>c_data := (c_data c)(addr := None)\<rparr>"

section \<open>The snooping bus\<close>

type_synonym shuffles = "nat \<Rightarrow> nat list \<Rightarrow> nat list"

record SnoopingBus =
  b_controllers :: "CacheController list"
  b_mem :: Memory
  b_perf :: PerfCounters
  b_line_words :: "u32 \<rightharpoonup> u32 list"
  b_arb_ptr :: nat
  b_race :: bool
  b_rng :: shuffles

text \<open>The default-seeded engine is never consulted: \<open>b_race\<close> is false until
  \<open>SnoopingBus_enable_race_injection\<close> has replaced it.\<close>

definition SnoopingBus_new :: "nat \<Rightarrow> SnoopingBus" where
  "SnoopingBus_new n =
     \<lparr>b_controllers = map CacheController_new [0..<n], b_mem = Memory_new,
      b_perf = PerfCounters_resize n PerfCounters_new, b_line_words = Map.empty,
      b_arb_ptr = 0, b_race = False, b_rng = \<lambda>_ xs. xs\<rparr>"

definition bus_n_cores :: "SnoopingBus \<Rightarrow> nat" where
  "bus_n_cores b = length (b_controllers b)"

definition controller :: "SnoopingBus \<Rightarrow> nat \<Rightarrow> CacheController" where
  "controller b i = b_controllers b ! i"

text \<open>Running a mutating method of controller \<open>i\<close>, and a mutation of the counters.\<close>

definition on_controller ::
    "nat \<Rightarrow> (CacheController \<Rightarrow> CacheController) \<Rightarrow> SnoopingBus \<Rightarrow> SnoopingBus" where
  "on_controller i f b = b\<lparr>b_controllers := (b_controllers b)[i := f (b_controllers b ! i)]\<rparr>"

definition on_perf :: "(PerfCounters \<Rightarrow> PerfCounters) \<Rightarrow> SnoopingBus \<Rightarrow> SnoopingBus" where
  "on_perf f b = b\<lparr>b_perf := f (b_perf b)\<rparr>"

definition register_addr :: "u32 \<Rightarrow> SnoopingBus \<Rightarrow> SnoopingBus" where
  "register_addr addr b =
     b\<lparr>b_line_words := (b_line_words b)(line_of addr \<mapsto>
        List.insert addr (case b_line_words b (line_of addr) of None \<Rightarrow> [] | Some ws \<Rightarrow> ws))\<rparr>"

definition words_in_line :: "SnoopingBus \<Rightarrow> u32 \<Rightarrow> u32 list" where
  "words_in_line b line = (case b_line_words b line of None \<Rightarrow> [] | Some ws \<Rightarrow> ws)"

definition advance_arb :: "SnoopingBus \<Rightarrow> SnoopingBus" where
  "advance_arb b = b\<lparr>b_arb_ptr := (b_arb_ptr b + 1) mod bus_n_cores b\<rparr>"

definition account :: "BusTxn \<Rightarrow> SnoopingBus \<Rightarrow> SnoopingBus" where
  "account txn b =
     (let b = on_perf (\<lambda>p. p\<lparr>bus_cycles_busy := bus_cycles_busy p + 1\<rparr>) b;
          b = (case txn of
                 BusRd \<Rightarrow> on_perf (\<lambda>p. p\<lparr>bus_rd_count := bus_rd_count p + 1\<rparr>) b
               | BusRdX \<Rightarrow> on_perf (\<lambda>p. p\<lparr>bus_rdx_count := bus_rdx_count p + 1\<rparr>) b
               | BusUpgr \<Rightarrow> on_perf (\<lambda>p. p\<lparr>bus_upgr_count := bus_upgr_count p + 1\<rparr>) b
               | BusWB \<Rightarrow> on_perf (\<lambda>p. p\<lparr>bus_wb_count := bus_wb_count p + 1\<rparr>) b
               | _ \<Rightarrow> b)
      in advance_arb b)"

text \<open>\<open>engine\<close> stands for \<^verbatim>\<open>rng_.seed(seed)\<close>: the shuffles an engine with that seed will apply.\<close>

definition SnoopingBus_enable_race_injection ::
    "(u64 \<Rightarrow> shuffles) \<Rightarrow> u64 \<Rightarrow> SnoopingBus \<Rightarrow> SnoopingBus" where
  "SnoopingBus_enable_race_injection engine seed b = b\<lparr>b_race := True, b_rng := engine seed\<rparr>"

text \<open>What the code relies on of \<^verbatim>\<open>std::shuffle\<close>: every shuffle permutes its range.\<close>

definition shuffles_ok :: "shuffles \<Rightarrow> bool" where
  "shuffles_ok g \<longleftrightarrow> (\<forall>k xs. mset (g k xs) = mset xs)"

lemmas [exec_simps] = CacheController_new_def line_state_def has_word_def peek_def set_state_def
  put_word_def erase_word_def SnoopingBus_new_def bus_n_cores_def controller_def on_controller_def
  on_perf_def register_addr_def words_in_line_def advance_arb_def account_def
  SnoopingBus_enable_race_injection_def

section \<open>One controller: what its methods change\<close>

lemma line_state_set_state [simp]:
  "line_state (set_state l s c) l' = (if l' = l then s else line_state c l')"
  by (auto simp: line_state_def set_state_def)

lemma line_state_put_word [simp]: "line_state (put_word a v c) l = line_state c l"
  by (simp add: line_state_def put_word_def)

lemma line_state_c_data [simp]: "line_state (c\<lparr>c_data := d\<rparr>) l = line_state c l"
  by (simp add: line_state_def)

lemma c_data_set_state [simp]: "c_data (set_state l s c) = c_data c"
  by (simp add: set_state_def)

lemma c_data_put_word [simp]: "c_data (put_word a v c) = (c_data c)(a \<mapsto> v)"
  by (simp add: put_word_def)

lemma c_id_methods [simp]:
  "c_id (set_state l s c) = c_id c" "c_id (put_word a v c) = c_id c"
  by (simp_all add: set_state_def put_word_def)

lemma has_word_set_state [simp]: "has_word (set_state l s c) a = has_word c a"
  by (simp add: has_word_def)

lemma peek_set_state [simp]: "peek (set_state l s c) a = peek c a"
  by (simp add: peek_def)

lemma has_word_put_word [simp]: "has_word (put_word a v c) x \<longleftrightarrow> x = a \<or> has_word c x"
  by (simp add: has_word_def)

lemma peek_put_word [simp]: "peek (put_word a v c) = (peek c)(a := v)"
  by (auto simp: peek_def)

lemma peek_missing: "\<not> has_word c a \<Longrightarrow> peek c a = 0"
  by (simp add: has_word_def peek_def)

lemma line_state_new [simp]: "line_state (CacheController_new i) l = State_I"
  by (simp add: line_state_def CacheController_new_def)

lemma has_word_new [simp]: "\<not> has_word (CacheController_new i) a"
  by (simp add: has_word_def CacheController_new_def)

section \<open>The bus: what its methods change\<close>

lemma on_controller_frame [frame_simps]:
  "b_mem (on_controller i f b) = b_mem b"
  "b_perf (on_controller i f b) = b_perf b"
  "b_line_words (on_controller i f b) = b_line_words b"
  "b_arb_ptr (on_controller i f b) = b_arb_ptr b"
  "b_race (on_controller i f b) = b_race b"
  "b_rng (on_controller i f b) = b_rng b"
  "bus_n_cores (on_controller i f b) = bus_n_cores b"
  by (simp_all add: on_controller_def bus_n_cores_def)

lemma on_perf_frame [frame_simps]:
  "b_controllers (on_perf g b) = b_controllers b"
  "b_mem (on_perf g b) = b_mem b"
  "b_line_words (on_perf g b) = b_line_words b"
  "b_arb_ptr (on_perf g b) = b_arb_ptr b"
  "b_race (on_perf g b) = b_race b"
  "b_rng (on_perf g b) = b_rng b"
  "bus_n_cores (on_perf g b) = bus_n_cores b"
  by (simp_all add: on_perf_def bus_n_cores_def)

lemma register_addr_frame [frame_simps]:
  "b_controllers (register_addr a b) = b_controllers b"
  "b_mem (register_addr a b) = b_mem b"
  "b_perf (register_addr a b) = b_perf b"
  "b_arb_ptr (register_addr a b) = b_arb_ptr b"
  "b_race (register_addr a b) = b_race b"
  "b_rng (register_addr a b) = b_rng b"
  "bus_n_cores (register_addr a b) = bus_n_cores b"
  by (simp_all add: register_addr_def bus_n_cores_def)

lemma account_frame [frame_simps]:
  "b_controllers (account t b) = b_controllers b"
  "b_mem (account t b) = b_mem b"
  "b_line_words (account t b) = b_line_words b"
  "b_race (account t b) = b_race b"
  "b_rng (account t b) = b_rng b"
  "bus_n_cores (account t b) = bus_n_cores b"
  by (cases t; simp add: account_def advance_arb_def on_perf_def bus_n_cores_def)+

lemma controller_frame [frame_simps]:
  "controller (on_perf g b) j = controller b j"
  "controller (register_addr a b) j = controller b j"
  "controller (account t b) j = controller b j"
  by (simp_all add: controller_def frame_simps)

lemma words_in_line_frame [frame_simps]:
  "words_in_line (on_controller i f b) l = words_in_line b l"
  "words_in_line (on_perf g b) l = words_in_line b l"
  "words_in_line (account t b) l = words_in_line b l"
  by (simp_all add: words_in_line_def frame_simps)

lemma controller_on_controller:
  "j < bus_n_cores b \<Longrightarrow>
   controller (on_controller i f b) j = (if i = j then f (controller b j) else controller b j)"
  by (simp add: controller_def on_controller_def bus_n_cores_def nth_list_update)

lemma set_words_in_line_register [effect_simps]:
  "set (words_in_line (register_addr a b) l)
   = (if l = line_of a then insert a (set (words_in_line b l)) else set (words_in_line b l))"
  by (auto simp: words_in_line_def register_addr_def split: option.splits)

lemma on_controller_on_controller:
  "on_controller i g (on_controller i f b) = on_controller i (\<lambda>c. g (f c)) b"
  by (simp add: on_controller_def)

lemma bus_perf_account:
  "b_perf (account t b) =
     (let p = (b_perf b)\<lparr>bus_cycles_busy := bus_cycles_busy (b_perf b) + 1\<rparr>
      in case t of
           BusRd \<Rightarrow> p\<lparr>bus_rd_count := bus_rd_count p + 1\<rparr>
         | BusRdX \<Rightarrow> p\<lparr>bus_rdx_count := bus_rdx_count p + 1\<rparr>
         | BusUpgr \<Rightarrow> p\<lparr>bus_upgr_count := bus_upgr_count p + 1\<rparr>
         | BusWB \<Rightarrow> p\<lparr>bus_wb_count := bus_wb_count p + 1\<rparr>
         | BusTxn_None \<Rightarrow> p)"
  by (cases t) (simp_all add: account_def on_perf_def advance_arb_def Let_def)

end
