(* ===== verification/Snooping_Bus.thy ===== *)
theory Snooping_Bus
  imports Bus_State
begin

text \<open>
  The bus side of the protocol: the line-wide loops of \<^verbatim>\<open>model/cache_controller.cpp\<close>, the reaction
  of one controller to a snooped transaction (\<^verbatim>\<open>CacheController::snoop\<close>) and the broadcast of a
  transaction to all peers (\<^verbatim>\<open>SnoopingBus::broadcast\<close>). The lemmas give each of them in closed form,
  field by field.
\<close>

section \<open>Line-wide loops\<close>

definition drop_line_words :: "nat \<Rightarrow> u32 \<Rightarrow> SnoopingBus \<Rightarrow> SnoopingBus" where
  "drop_line_words i line b =
     fold (\<lambda>a. on_controller i (erase_word a)) (words_in_line b line) b"

definition fill_line :: "nat \<Rightarrow> u32 \<Rightarrow> SnoopingBus \<Rightarrow> SnoopingBus" where
  "fill_line i line b =
     fold (\<lambda>a b. on_controller i (put_word a (Memory_read (b_mem b) a)) b) (words_in_line b line) b"

definition writeback_line :: "nat \<Rightarrow> u32 \<Rightarrow> SnoopingBus \<Rightarrow> SnoopingBus" where
  "writeback_line i line b =
     (let b = fold (\<lambda>a b. if has_word (controller b i) a
                          then b\<lparr>b_mem := Memory_write a (peek (controller b i) a) (b_mem b)\<rparr>
                          else b) (words_in_line b line) b
      in b\<lparr>b_mem := (b_mem b)\<lparr>accesses := accesses (b_mem b) + 1\<rparr>\<rparr>)"

section \<open>Snooping\<close>

definition snoop ::
    "BusTxn \<Rightarrow> u32 \<Rightarrow> nat \<Rightarrow> nat \<Rightarrow> SnoopingBus \<Rightarrow> SnoopResult \<times> SnoopingBus" where
  "snoop txn addr issuer_id i b =
     (let line = line_of addr;
          st = line_state (controller b i) line;
          res = SnoopResult_new
      in if st = State_I then (res, b)
         else
           let res = res\<lparr>had_copy := True\<rparr>
           in case txn of
                BusRd \<Rightarrow>
                  (if st = State_M then
                     (let b = writeback_line i line b;
                          b = account BusWB b;
                          b = on_controller i (set_state line State_S) b
                      in (res\<lparr>intervened := True\<rparr>, b))
                   else if st = State_E then (res, on_controller i (set_state line State_S) b)
                   else (res, b))
              | BusRdX \<Rightarrow>
                  (let (res, b) =
                         (if st = State_M
                          then (res\<lparr>intervened := True\<rparr>, account BusWB (writeback_line i line b))
                          else (res, b));
                       b = on_controller i (set_state line State_I) b;
                       b = drop_line_words i line b;
                       b = on_perf (\<lambda>p. p\<lparr>inv_count := inc_at i (inv_count p)\<rparr>) b
                   in (res, b))
              | BusUpgr \<Rightarrow>
                  (let b = on_controller i (set_state line State_I) b;
                       b = drop_line_words i line b;
                       b = on_perf (\<lambda>p. p\<lparr>inv_count := inc_at i (inv_count p)\<rparr>) b
                   in (res, b))
              | _ \<Rightarrow> (res, b))"

section \<open>Broadcast\<close>

text \<open>\<^verbatim>\<open>std::shuffle(order.begin(), order.end(), rng_)\<close>, under race injection only.\<close>

definition visit_order :: "nat \<Rightarrow> SnoopingBus \<Rightarrow> nat list \<times> SnoopingBus" where
  "visit_order issuer_id b =
     (let order = filter (\<lambda>i. i \<noteq> issuer_id) [0..<bus_n_cores b]
      in if b_race b then (b_rng b 0 order, b\<lparr>b_rng := \<lambda>k. b_rng b (Suc k)\<rparr>) else (order, b))"

fun snoop_all ::
    "BusTxn \<Rightarrow> u32 \<Rightarrow> nat \<Rightarrow> nat list \<Rightarrow> SnoopResult \<Rightarrow> SnoopingBus \<Rightarrow> SnoopResult \<times> SnoopingBus" where
  "snoop_all txn addr issuer_id [] agg b = (agg, b)"
| "snoop_all txn addr issuer_id (i # order) agg b =
     (let (r, b) = snoop txn addr issuer_id i b
      in snoop_all txn addr issuer_id order (SnoopResult_or agg r) b)"

definition broadcast ::
    "BusTxn \<Rightarrow> u32 \<Rightarrow> nat \<Rightarrow> SnoopingBus \<Rightarrow> SnoopResult \<times> SnoopingBus" where
  "broadcast txn addr issuer_id b =
     (let (order, b) = visit_order issuer_id b
      in snoop_all txn addr issuer_id order SnoopResult_new b)"

lemmas [exec_simps] = drop_line_words_def fill_line_def writeback_line_def snoop_def visit_order_def
  broadcast_def

section \<open>Closed forms of the loops\<close>

lemma fold_on_controller:
  "fold (\<lambda>a. on_controller i (f a)) ks b = on_controller i (fold f ks) b"
proof (induction ks arbitrary: b)
  case Nil
  show ?case by (simp add: on_controller_def)
next
  case (Cons a ks)
  then show ?case by (simp add: on_controller_on_controller comp_def)
qed

text \<open>Erasing and filling the words \<open>ws\<close> of one controller.\<close>

definition erase_words :: "u32 list \<Rightarrow> CacheController \<Rightarrow> CacheController" where
  "erase_words ws c = c\<lparr>c_data := \<lambda>x. if x \<in> set ws then None else c_data c x\<rparr>"

definition fill_words :: "u32 list \<Rightarrow> (u32 \<Rightarrow> u32) \<Rightarrow> CacheController \<Rightarrow> CacheController" where
  "fill_words ws f c = c\<lparr>c_data := \<lambda>x. if x \<in> set ws then Some (f x) else c_data c x\<rparr>"

lemma fold_erase_word: "fold erase_word ks = erase_words ks"
proof
  fix c
  have "fold erase_word ks c = c\<lparr>c_data := fold (\<lambda>a m. m(a := None)) ks (c_data c)\<rparr>"
    by (induction ks arbitrary: c) (simp_all add: erase_word_def)
  then show "fold erase_word ks c = erase_words ks c"
    by (simp add: fold_map_erase erase_words_def)
qed

lemma fold_put_word: "fold (\<lambda>a. put_word a (f a)) ks = fill_words ks f"
proof
  fix c
  have "fold (\<lambda>a. put_word a (f a)) ks c = c\<lparr>c_data := fold (\<lambda>a m. m(a \<mapsto> f a)) ks (c_data c)\<rparr>"
    by (induction ks arbitrary: c) (simp_all add: put_word_def)
  then show "fold (\<lambda>a. put_word a (f a)) ks c = fill_words ks f c"
    by (simp add: fold_map_upd fill_words_def)
qed

lemma drop_line_words_eq:
  "drop_line_words i l b = on_controller i (erase_words (words_in_line b l)) b"
  by (simp add: drop_line_words_def fold_on_controller fold_erase_word)

lemma fill_line_eq:
  "fill_line i l b = on_controller i (fill_words (words_in_line b l) (Memory_read (b_mem b))) b"
proof -
  have "fold (\<lambda>a b. on_controller i (put_word a (Memory_read (b_mem b) a)) b) ks b
        = fold (\<lambda>a. on_controller i (put_word a (Memory_read m a))) ks b"
    if "b_mem b = m" for ks m b
    using that by (induction ks arbitrary: b) (simp_all add: frame_simps)
  then show ?thesis
    by (simp add: fill_line_def fold_on_controller fold_put_word)
qed

lemma line_state_words [simp]:
  "line_state (erase_words ws c) l = line_state c l"
  "line_state (fill_words ws f c) l = line_state c l"
  by (simp_all add: erase_words_def fill_words_def)

lemma has_word_words [simp]:
  "has_word (erase_words ws c) x \<longleftrightarrow> x \<notin> set ws \<and> has_word c x"
  "has_word (fill_words ws f c) x \<longleftrightarrow> x \<in> set ws \<or> has_word c x"
  by (auto simp: erase_words_def fill_words_def has_word_def)

lemma peek_words [simp]:
  "peek (erase_words ws c) x = (if x \<in> set ws then 0 else peek c x)"
  "peek (fill_words ws f c) x = (if x \<in> set ws then f x else peek c x)"
  by (auto simp: erase_words_def fill_words_def peek_def)

text \<open>A write back copies the words the controller holds; everything but the memory is kept.\<close>

definition written_back :: "u32 list \<Rightarrow> CacheController \<Rightarrow> Memory \<Rightarrow> Memory" where
  "written_back ws c m =
     (let m = fold (\<lambda>a m. if has_word c a then Memory_write a (peek c a) m else m) ws m
      in m\<lparr>accesses := accesses m + 1\<rparr>)"

lemma writeback_line_eq:
  "writeback_line i l b = b\<lparr>b_mem := written_back (words_in_line b l) (controller b i) (b_mem b)\<rparr>"
proof -
  have "fold (\<lambda>a b. if has_word (controller b i) a
                   then b\<lparr>b_mem := Memory_write a (peek (controller b i) a) (b_mem b)\<rparr>
                   else b) ks b
        = b\<lparr>b_mem := fold (\<lambda>a m. if has_word c a then Memory_write a (peek c a) m else m) ks (b_mem b)\<rparr>"
    if "controller b i = c" for ks c b
    using that by (induction ks arbitrary: b) (simp_all add: controller_def)
  then show ?thesis
    by (simp add: writeback_line_def written_back_def Let_def)
qed

lemma Memory_read_written_back:
  "Memory_read (written_back ws c m) x
   = (if x \<in> set ws \<and> has_word c x then peek c x else Memory_read m x)"
  by (simp add: written_back_def Let_def memory.rd_fold_wr_if)

section \<open>Closed form of a snoop\<close>

text \<open>What a snooped transaction leaves of one controller, given the registered words of the line.\<close>

definition snooped :: "BusTxn \<Rightarrow> u32 \<Rightarrow> u32 list \<Rightarrow> CacheController \<Rightarrow> CacheController" where
  "snooped txn l ws c =
     (if line_state c l = State_I then c
      else case txn of
             BusRd \<Rightarrow> if line_state c l = State_S then c else set_state l State_S c
           | BusRdX \<Rightarrow> erase_words ws (set_state l State_I c)
           | BusUpgr \<Rightarrow> erase_words ws (set_state l State_I c)
           | _ \<Rightarrow> c)"

text \<open>The controllers that flush a dirty line when they snoop a transaction.\<close>

definition flushes :: "BusTxn \<Rightarrow> State \<Rightarrow> bool" where
  "flushes txn st \<longleftrightarrow> st = State_M \<and> (txn = BusRd \<or> txn = BusRdX)"

lemma on_controller_const:
  "on_controller i f b = b\<lparr>b_controllers := (b_controllers b)[i := f (controller b i)]\<rparr>"
  by (simp add: on_controller_def controller_def)

lemmas snoop_unfold = snoop_def Let_def drop_line_words_eq on_controller_on_controller
  writeback_line_eq frame_simps

lemma snoop_controllers:
  "b_controllers (snd (snoop txn addr iss i b))
   = (b_controllers b)[i := snooped txn (line_of addr) (words_in_line b (line_of addr)) (controller b i)]"
  by (cases txn; cases "line_state (controller b i) (line_of addr)")
    (simp_all add: snoop_unfold snooped_def on_controller_const controller_def words_in_line_def)

lemma snoop_mem:
  "b_mem (snd (snoop txn addr iss i b))
   = (if flushes txn (line_state (controller b i) (line_of addr))
      then written_back (words_in_line b (line_of addr)) (controller b i) (b_mem b) else b_mem b)"
  by (cases txn; cases "line_state (controller b i) (line_of addr)")
    (simp_all add: snoop_unfold flushes_def)

lemma snoop_result:
  "fst (snoop txn addr iss i b)
   = \<lparr>had_copy = line_state (controller b i) (line_of addr) \<noteq> State_I,
      intervened = flushes txn (line_state (controller b i) (line_of addr))\<rparr>"
  by (cases txn; cases "line_state (controller b i) (line_of addr)")
    (simp_all add: snoop_unfold flushes_def SnoopResult_new_def)

lemma snoop_frame [frame_simps]:
  "b_line_words (snd (snoop txn addr iss i b)) = b_line_words b"
  "b_race (snd (snoop txn addr iss i b)) = b_race b"
  "b_rng (snd (snoop txn addr iss i b)) = b_rng b"
  "bus_n_cores (snd (snoop txn addr iss i b)) = bus_n_cores b"
  "words_in_line (snd (snoop txn addr iss i b)) l = words_in_line b l"
  by (cases txn; cases "line_state (controller b i) (line_of addr)";
      simp add: snoop_unfold bus_n_cores_def on_controller_def words_in_line_def)+

text \<open>The counters: a flush is accounted as a write back, a lost copy as an invalidation.\<close>

definition invalidates :: "BusTxn \<Rightarrow> State \<Rightarrow> bool" where
  "invalidates txn st \<longleftrightarrow> st \<noteq> State_I \<and> (txn = BusRdX \<or> txn = BusUpgr)"

definition snoop_perf :: "BusTxn \<Rightarrow> State \<Rightarrow> nat \<Rightarrow> PerfCounters \<Rightarrow> PerfCounters" where
  "snoop_perf txn st i p =
     p\<lparr>bus_cycles_busy := bus_cycles_busy p + of_bool (flushes txn st),
       bus_wb_count := bus_wb_count p + of_bool (flushes txn st),
       inv_count := (if invalidates txn st then inc_at i (inv_count p) else inv_count p)\<rparr>"

lemma snoop_counters:
  "b_perf (snd (snoop txn addr iss i b))
   = snoop_perf txn (line_state (controller b i) (line_of addr)) i (b_perf b)"
  "b_arb_ptr (snd (snoop txn addr iss i b))
   = (if flushes txn (line_state (controller b i) (line_of addr))
      then (b_arb_ptr b + 1) mod bus_n_cores b else b_arb_ptr b)"
  by (cases txn; cases "line_state (controller b i) (line_of addr)";
      simp add: snoop_unfold snoop_perf_def invalidates_def flushes_def account_def on_perf_def
        advance_arb_def bus_n_cores_def on_controller_def)+

lemma snoop_controller:
  "j < bus_n_cores b \<Longrightarrow>
   controller (snd (snoop txn addr iss i b)) j
   = (if i = j then snooped txn (line_of addr) (words_in_line b (line_of addr)) (controller b j)
      else controller b j)"
  by (simp add: controller_def snoop_controllers bus_n_cores_def nth_list_update)

section \<open>Closed form of a broadcast\<close>

text \<open>
  Visiting distinct peers in any order: every peer reacts to the state it had before the
  broadcast, since a snoop changes no other controller.
\<close>

lemma snoop_all_frame [frame_simps]:
  "b_line_words (snd (snoop_all txn addr iss order agg b)) = b_line_words b"
  "b_race (snd (snoop_all txn addr iss order agg b)) = b_race b"
  "b_rng (snd (snoop_all txn addr iss order agg b)) = b_rng b"
  "bus_n_cores (snd (snoop_all txn addr iss order agg b)) = bus_n_cores b"
  "words_in_line (snd (snoop_all txn addr iss order agg b)) l = words_in_line b l"
  by (induction order arbitrary: agg b)
    (simp_all add: case_prod_beta frame_simps)

definition peers_ok :: "nat list \<Rightarrow> SnoopingBus \<Rightarrow> bool" where
  "peers_ok order b \<longleftrightarrow> distinct order \<and> (\<forall>i \<in> set order. i < bus_n_cores b)"

lemma peers_ok_Cons:
  "peers_ok (i # order) b \<longleftrightarrow> i \<notin> set order \<and> i < bus_n_cores b \<and> peers_ok order b"
  by (auto simp: peers_ok_def)

lemma peers_ok_snoop [simp]: "peers_ok order (snd (snoop txn addr iss i b)) = peers_ok order b"
  by (simp add: peers_ok_def frame_simps)

lemma snoop_all_controller:
  assumes "peers_ok order b" and "j < bus_n_cores b"
  shows "controller (snd (snoop_all txn addr iss order agg b)) j
   = (if j \<in> set order
      then snooped txn (line_of addr) (words_in_line b (line_of addr)) (controller b j)
      else controller b j)"
  using assms
  by (induction order arbitrary: agg b)
    (auto simp: case_prod_beta frame_simps peers_ok_Cons snoop_controller)

lemma snoop_others:
  assumes "peers_ok (i # order) b" and "j \<in> set order"
  shows "controller (snd (snoop txn addr iss i b)) j = controller b j"
  using assms by (auto simp: peers_ok_def snoop_controller)

lemma snoop_all_mem:
  assumes "peers_ok order b"
  shows "b_mem (snd (snoop_all txn addr iss order agg b))
   = fold (\<lambda>i m. if flushes txn (line_state (controller b i) (line_of addr))
                 then written_back (words_in_line b (line_of addr)) (controller b i) m else m)
       order (b_mem b)"
  using assms
proof (induction order arbitrary: agg b)
  case (Cons i order)
  note snoop_others [OF Cons.prems]
  with Cons show ?case
    by (simp add: case_prod_beta frame_simps peers_ok_Cons snoop_mem cong: fold_cong if_cong)
qed simp

lemma snoop_all_perf:
  assumes "peers_ok order b"
  shows "b_perf (snd (snoop_all txn addr iss order agg b))
   = fold (\<lambda>i. snoop_perf txn (line_state (controller b i) (line_of addr)) i) order (b_perf b)"
  using assms
proof (induction order arbitrary: agg b)
  case (Cons i order)
  note snoop_others [OF Cons.prems]
  with Cons show ?case
    by (simp add: case_prod_beta peers_ok_Cons snoop_counters cong: fold_cong)
qed simp

lemma snoop_all_arb_ptr:
  assumes "peers_ok order b"
  shows "b_arb_ptr (snd (snoop_all txn addr iss order agg b))
   = fold (\<lambda>i a. if flushes txn (line_state (controller b i) (line_of addr))
                 then (a + 1) mod bus_n_cores b else a) order (b_arb_ptr b)"
  using assms
proof (induction order arbitrary: agg b)
  case (Cons i order)
  note snoop_others [OF Cons.prems]
  with Cons show ?case
    by (simp add: case_prod_beta frame_simps peers_ok_Cons snoop_counters cong: fold_cong if_cong)
qed simp

lemma snoop_all_had_copy:
  assumes "peers_ok order b"
  shows "had_copy (fst (snoop_all txn addr iss order agg b))
     \<longleftrightarrow> had_copy agg \<or> (\<exists>i \<in> set order. line_state (controller b i) (line_of addr) \<noteq> State_I)"
  using assms
proof (induction order arbitrary: agg b)
  case (Cons i order)
  note snoop_others [OF Cons.prems]
  with Cons show ?case
    by (auto simp: case_prod_beta peers_ok_Cons snoop_result)
qed simp

lemma snoop_all_intervened:
  assumes "peers_ok order b"
  shows "intervened (fst (snoop_all txn addr iss order agg b))
     \<longleftrightarrow> intervened agg \<or> (\<exists>i \<in> set order. flushes txn (line_state (controller b i) (line_of addr)))"
  using assms
proof (induction order arbitrary: agg b)
  case (Cons i order)
  note snoop_others [OF Cons.prems]
  with Cons show ?case
    by (auto simp: case_prod_beta peers_ok_Cons snoop_result)
qed simp

text \<open>The visiting order is a permutation of the peers.\<close>

lemma visit_order_peers:
  assumes "b_race b \<Longrightarrow> shuffles_ok (b_rng b)"
  shows "mset (fst (visit_order iss b)) = mset (filter (\<lambda>i. i \<noteq> iss) [0..<bus_n_cores b])"
  using assms by (auto simp: visit_order_def shuffles_ok_def Let_def)

lemma peers_ok_visit_order:
  assumes "b_race b \<Longrightarrow> shuffles_ok (b_rng b)"
  shows "peers_ok (fst (visit_order iss b)) b"
    and "set (fst (visit_order iss b)) = {0..<bus_n_cores b} - {iss}"
proof -
  note m = visit_order_peers [OF assms]
  show "peers_ok (fst (visit_order iss b)) b"
    using mset_eq_setD [OF m] mset_eq_imp_distinct_iff [OF m] by (auto simp: peers_ok_def)
  show "set (fst (visit_order iss b)) = {0..<bus_n_cores b} - {iss}"
    using mset_eq_setD [OF m] by auto
qed

lemma visit_order_frame [frame_simps]:
  "b_controllers (snd (visit_order iss b)) = b_controllers b"
  "b_mem (snd (visit_order iss b)) = b_mem b"
  "b_perf (snd (visit_order iss b)) = b_perf b"
  "b_line_words (snd (visit_order iss b)) = b_line_words b"
  "b_arb_ptr (snd (visit_order iss b)) = b_arb_ptr b"
  "b_race (snd (visit_order iss b)) = b_race b"
  "bus_n_cores (snd (visit_order iss b)) = bus_n_cores b"
  "controller (snd (visit_order iss b)) i = controller b i"
  "words_in_line (snd (visit_order iss b)) l = words_in_line b l"
  "peers_ok order (snd (visit_order iss b)) = peers_ok order b"
  by (simp_all add: visit_order_def Let_def bus_n_cores_def controller_def words_in_line_def peers_ok_def)

lemma shuffles_ok_visit_order:
  "shuffles_ok (b_rng b) \<Longrightarrow> shuffles_ok (b_rng (snd (visit_order iss b)))"
  by (auto simp: visit_order_def shuffles_ok_def Let_def)

end
