(* ===== verification/Cache_Controller.thy ===== *)
theory Cache_Controller
  imports Snooping_Bus
begin

text \<open>
  The processor side of a MESI controller (\<^verbatim>\<open>model/cache_controller.cpp\<close>): reads, the acquisition
  of exclusive ownership shared by writes and atomic operations, and writes.
\<close>

section \<open>Processor operations\<close>

definition processor_read :: "nat \<Rightarrow> u32 \<Rightarrow> SnoopingBus \<Rightarrow> u32 \<times> SnoopingBus" where
  "processor_read i addr b =
     (let b = register_addr addr b;
          line = line_of addr;
          st = line_state (controller b i) line
      in if st \<noteq> State_I then
           (let b = on_perf (\<lambda>p. p\<lparr>l1_hit := inc_at i (l1_hit p)\<rparr>) b
            in (peek (controller b i) addr, b))
         else
           (let b = on_perf (\<lambda>p. p\<lparr>l1_miss := inc_at i (l1_miss p)\<rparr>) b;
                b = on_perf (\<lambda>p. p\<lparr>stall_cycles := inc_at i (stall_cycles p)\<rparr>) b;
                (sr, b) = broadcast BusRd addr i b;
                b = account BusRd b;
                b = fill_line i line b;
                b = on_controller i (set_state line (if had_copy sr then State_S else State_E)) b
            in (peek (controller b i) addr, b)))"

definition acquire_exclusive :: "nat \<Rightarrow> u32 \<Rightarrow> SnoopingBus \<Rightarrow> u32 \<times> SnoopingBus" where
  "acquire_exclusive i addr b =
     (let b = register_addr addr b;
          line = line_of addr;
          b = (case line_state (controller b i) line of
                 State_M \<Rightarrow> on_perf (\<lambda>p. p\<lparr>l1_hit := inc_at i (l1_hit p)\<rparr>) b
               | State_E \<Rightarrow>
                   (let b = on_perf (\<lambda>p. p\<lparr>l1_hit := inc_at i (l1_hit p)\<rparr>) b
                    in on_controller i (set_state line State_M) b)
               | State_S \<Rightarrow>
                   (let b = on_perf (\<lambda>p. p\<lparr>l1_hit := inc_at i (l1_hit p)\<rparr>) b;
                        b = on_perf (\<lambda>p. p\<lparr>stall_cycles := inc_at i (stall_cycles p)\<rparr>) b;
                        (_, b) = broadcast BusUpgr addr i b;
                        b = account BusUpgr b
                    in on_controller i (set_state line State_M) b)
               | State_I \<Rightarrow>
                   (let b = on_perf (\<lambda>p. p\<lparr>l1_miss := inc_at i (l1_miss p)\<rparr>) b;
                        b = on_perf (\<lambda>p. p\<lparr>stall_cycles := inc_at i (stall_cycles p)\<rparr>) b;
                        (_, b) = broadcast BusRdX addr i b;
                        b = account BusRdX b;
                        b = fill_line i line b
                    in on_controller i (set_state line State_M) b))
      in (peek (controller b i) addr, b))"

definition processor_write :: "nat \<Rightarrow> u32 \<Rightarrow> u32 \<Rightarrow> SnoopingBus \<Rightarrow> SnoopingBus" where
  "processor_write i addr val b =
     (let (_, b) = acquire_exclusive i addr b in on_controller i (put_word addr val) b)"

lemmas [exec_simps] = processor_read_def acquire_exclusive_def processor_write_def

end
