(* ===== verification/Coherence.thy ===== *)
theory Coherence
  imports Cache_Controller
begin

text \<open>
  The coherence invariant of the bus and its caches, the value an address has in a coherent state,
  and the proof that every processor operation keeps the invariant and acts on the values as the
  corresponding operation of a flat memory does.
\<close>

section \<open>The invariant\<close>

text \<open>A word address is registered once some operation has touched it.\<close>

definition registered :: "SnoopingBus \<Rightarrow> u32 \<Rightarrow> bool" where
  "registered b a \<longleftrightarrow> a \<in> set (words_in_line b (line_of a))"

abbreviation lstate :: "SnoopingBus \<Rightarrow> nat \<Rightarrow> u32 \<Rightarrow> State" where
  "lstate b i l \<equiv> line_state (controller b i) l"

abbreviation mem_val :: "SnoopingBus \<Rightarrow> u32 \<Rightarrow> u32" where
  "mem_val b a \<equiv> Memory_read (b_mem b) a"

text \<open>The shape of the bus: one counter per core, the arbitration pointer in range, the registry
  files every word under its line, and an armed shuffle permutes.\<close>

definition bus_wf :: "SnoopingBus \<Rightarrow> bool" where
  "bus_wf b \<longleftrightarrow>
     0 < bus_n_cores b \<and> perf_sized (bus_n_cores b) (b_perf b) \<and> b_arb_ptr b < bus_n_cores b
     \<and> (\<forall>i < bus_n_cores b. c_id (controller b i) = i)
     \<and> (\<forall>l. distinct (words_in_line b l) \<and> (\<forall>a \<in> set (words_in_line b l). line_of a = l))
     \<and> (b_race b \<longrightarrow> shuffles_ok (b_rng b))"

text \<open>
  One line: a modified or exclusive copy is the only copy; a shared or exclusive copy equals
  memory; memory holds 0 in the words of a modified line its owner does not hold; a controller
  holds registered words of valid lines only; memory holds 0 in every unregistered word.
\<close>

definition single_writer :: "SnoopingBus \<Rightarrow> u32 \<Rightarrow> bool" where
  "single_writer b l \<longleftrightarrow>
     (\<forall>i < bus_n_cores b. \<forall>j < bus_n_cores b.
        i \<noteq> j \<and> (lstate b i l = State_M \<or> lstate b i l = State_E) \<longrightarrow> lstate b j l = State_I)"

definition clean_copies :: "SnoopingBus \<Rightarrow> u32 \<Rightarrow> bool" where
  "clean_copies b l \<longleftrightarrow>
     (\<forall>i < bus_n_cores b. lstate b i l = State_S \<or> lstate b i l = State_E \<longrightarrow>
        (\<forall>a. line_of a = l \<longrightarrow> peek (controller b i) a = mem_val b a))"

definition dirty_gaps :: "SnoopingBus \<Rightarrow> u32 \<Rightarrow> bool" where
  "dirty_gaps b l \<longleftrightarrow>
     (\<forall>i < bus_n_cores b. lstate b i l = State_M \<longrightarrow>
        (\<forall>a. line_of a = l \<and> \<not> has_word (controller b i) a \<longrightarrow> mem_val b a = 0))"

definition held_words :: "SnoopingBus \<Rightarrow> u32 \<Rightarrow> bool" where
  "held_words b l \<longleftrightarrow>
     (\<forall>i < bus_n_cores b. \<forall>a. line_of a = l \<and> has_word (controller b i) a \<longrightarrow>
        registered b a \<and> lstate b i l \<noteq> State_I)"

definition fresh_words :: "SnoopingBus \<Rightarrow> u32 \<Rightarrow> bool" where
  "fresh_words b l \<longleftrightarrow> (\<forall>a. line_of a = l \<and> \<not> registered b a \<longrightarrow> mem_val b a = 0)"

definition coherent_line :: "SnoopingBus \<Rightarrow> u32 \<Rightarrow> bool" where
  "coherent_line b l \<longleftrightarrow>
     single_writer b l \<and> clean_copies b l \<and> dirty_gaps b l \<and> held_words b l \<and> fresh_words b l"

definition coherent :: "SnoopingBus \<Rightarrow> bool" where
  "coherent b \<longleftrightarrow> bus_wf b \<and> (\<forall>l. coherent_line b l)"

text \<open>The value of an address: the dirty owner's word, else memory's.\<close>

definition coherent_value :: "SnoopingBus \<Rightarrow> u32 \<Rightarrow> u32" where
  "coherent_value b a =
     (case find (\<lambda>c. line_state c (line_of a) = State_M) (b_controllers b) of
        Some c \<Rightarrow> peek c a | None \<Rightarrow> mem_val b a)"

lemmas coherent_line_defs = coherent_line_def single_writer_def clean_copies_def dirty_gaps_def
  held_words_def fresh_words_def

section \<open>Values\<close>

lemma single_writerD:
  assumes "single_writer b l" and "i < bus_n_cores b" and "j < bus_n_cores b" and "i \<noteq> j"
  shows "lstate b i l = State_M \<Longrightarrow> lstate b j l = State_I"
    and "lstate b i l = State_E \<Longrightarrow> lstate b j l = State_I"
  using assms unfolding single_writer_def by blast+

lemma clean_copiesD:
  assumes "clean_copies b (line_of a)" and "i < bus_n_cores b"
  shows "lstate b i (line_of a) = State_S \<Longrightarrow> peek (controller b i) a = mem_val b a"
    and "lstate b i (line_of a) = State_E \<Longrightarrow> peek (controller b i) a = mem_val b a"
  using assms unfolding clean_copies_def by blast+

lemma dirty_gapsD:
  "dirty_gaps b (line_of a) \<Longrightarrow> i < bus_n_cores b \<Longrightarrow> lstate b i (line_of a) = State_M
   \<Longrightarrow> \<not> has_word (controller b i) a \<Longrightarrow> mem_val b a = 0"
  unfolding dirty_gaps_def by blast

lemma held_wordsD:
  assumes "held_words b (line_of a)" and "i < bus_n_cores b" and "has_word (controller b i) a"
  shows "registered b a" and "lstate b i (line_of a) \<noteq> State_I"
  using assms unfolding held_words_def by blast+

lemma fresh_wordsD: "fresh_words b (line_of a) \<Longrightarrow> \<not> registered b a \<Longrightarrow> mem_val b a = 0"
  unfolding fresh_words_def by blast

lemma coherent_lineD:
  assumes "coherent_line b l"
  shows "single_writer b l" "clean_copies b l" "dirty_gaps b l" "held_words b l" "fresh_words b l"
  using assms unfolding coherent_line_def by blast+

lemma coherentD:
  assumes "coherent b"
  shows "bus_wf b" "coherent_line b l"
  using assms unfolding coherent_def by blast+

lemma find_controller_None:
  "find P (b_controllers b) = None \<longleftrightarrow> (\<forall>i < bus_n_cores b. \<not> P (controller b i))"
  by (auto simp: find_None_iff bus_n_cores_def controller_def in_set_conv_nth)

lemma find_controller_Some:
  "find P (b_controllers b) = Some c \<Longrightarrow> \<exists>i < bus_n_cores b. P (controller b i) \<and> c = controller b i"
  by (auto simp: find_Some_iff bus_n_cores_def controller_def)

lemma coherent_value_clean:
  "(\<And>i. i < bus_n_cores b \<Longrightarrow> lstate b i (line_of a) \<noteq> State_M) \<Longrightarrow> coherent_value b a = mem_val b a"
  by (simp add: coherent_value_def find_controller_None [THEN iffD2])

lemma coherent_value_owner:
  assumes "single_writer b (line_of a)" and "i < bus_n_cores b" and "lstate b i (line_of a) = State_M"
  shows "coherent_value b a = peek (controller b i) a"
proof (cases "find (\<lambda>c. line_state c (line_of a) = State_M) (b_controllers b)")
  case None
  with assms show ?thesis by (simp add: find_controller_None)
next
  case (Some c)
  then obtain j where "j < bus_n_cores b" "lstate b j (line_of a) = State_M" "c = controller b j"
    using find_controller_Some by blast
  moreover from this assms have "j = i"
    by (metis State.distinct(5) single_writerD(1))
  ultimately show ?thesis using Some by (simp add: coherent_value_def)
qed

text \<open>Every valid copy holds the value of the address.\<close>

lemma coherent_value_copy:
  assumes "coherent_line b (line_of a)" and "i < bus_n_cores b" and "lstate b i (line_of a) \<noteq> State_I"
  shows "peek (controller b i) a = coherent_value b a"
proof (cases "lstate b i (line_of a) = State_M")
  case True
  with assms show ?thesis by (simp add: coherent_line_def coherent_value_owner)
next
  case False
  have "lstate b j (line_of a) \<noteq> State_M" if "j < bus_n_cores b" for j
    using assms that False single_writerD(1) [OF coherent_lineD(1) [OF assms(1)]] by metis
  then have "coherent_value b a = mem_val b a" by (rule coherent_value_clean)
  with False assms(2,3) clean_copiesD [OF coherent_lineD(2) [OF assms(1)]] show ?thesis
    by (cases "lstate b i (line_of a)") auto
qed

section \<open>Lines an operation does not touch\<close>

definition same_line :: "SnoopingBus \<Rightarrow> SnoopingBus \<Rightarrow> u32 \<Rightarrow> bool" where
  "same_line b b' l \<longleftrightarrow>
     bus_n_cores b' = bus_n_cores b
     \<and> (\<forall>i < bus_n_cores b. lstate b' i l = lstate b i l
          \<and> (\<forall>a. line_of a = l \<longrightarrow> c_data (controller b' i) a = c_data (controller b i) a))
     \<and> (\<forall>a. line_of a = l \<longrightarrow> mem_val b' a = mem_val b a \<and> registered b' a = registered b a)"

lemma same_line_words:
  assumes "same_line b b' l" and "i < bus_n_cores b" and "line_of a = l"
  shows "has_word (controller b' i) a = has_word (controller b i) a"
    and "peek (controller b' i) a = peek (controller b i) a"
  using assms by (simp_all add: same_line_def has_word_def peek_def)

lemma same_line_coherent:
  assumes "same_line b b' l" and "coherent_line b l"
  shows "coherent_line b' l"
proof -
  note w = same_line_words [OF assms(1)]
  have n: "bus_n_cores b' = bus_n_cores b"
    and st: "\<And>i. i < bus_n_cores b \<Longrightarrow> lstate b' i l = lstate b i l"
    and m: "\<And>a. line_of a = l \<Longrightarrow> mem_val b' a = mem_val b a"
    and r: "\<And>a. line_of a = l \<Longrightarrow> registered b' a = registered b a"
    using assms(1) unfolding same_line_def by blast+
  note c = coherent_lineD [OF assms(2)]
  have "single_writer b' l" using c(1) n st unfolding single_writer_def by metis
  moreover have "clean_copies b' l" using c(2) n st m w(2) unfolding clean_copies_def by metis
  moreover have "dirty_gaps b' l" using c(3) n st m w(1) unfolding dirty_gaps_def by metis
  moreover have "held_words b' l" using c(4) n st r w(1) unfolding held_words_def by metis
  moreover have "fresh_words b' l" using c(5) m r unfolding fresh_words_def by metis
  ultimately show ?thesis unfolding coherent_line_def by blast
qed

lemma same_line_value:
  assumes "same_line b b' (line_of a)" and "coherent_line b (line_of a)"
  shows "coherent_value b' a = coherent_value b a"
proof (cases "\<exists>i < bus_n_cores b. lstate b i (line_of a) = State_M")
  case True
  then obtain i where i: "i < bus_n_cores b" "lstate b i (line_of a) = State_M" by blast
  moreover have "single_writer b' (line_of a)"
    using same_line_coherent [OF assms] by (simp add: coherent_line_def)
  ultimately show ?thesis
    using assms same_line_words(2) [OF assms(1) i(1) refl]
    by (simp add: coherent_value_owner coherent_line_def same_line_def)
next
  case False
  with assms(1) show ?thesis by (simp add: coherent_value_clean same_line_def)
qed

lemma same_line_refl: "same_line b b l"
  by (simp add: same_line_def)

lemma same_line_trans: "same_line b b' l \<Longrightarrow> same_line b' b'' l \<Longrightarrow> same_line b b'' l"
  by (simp add: same_line_def)

section \<open>Broadcast in a well-formed bus\<close>

lemma bus_wf_race: "bus_wf b \<Longrightarrow> b_race b \<Longrightarrow> shuffles_ok (b_rng b)"
  by (simp add: bus_wf_def)

lemma bus_wf_words:
  assumes "bus_wf b"
  shows "distinct (words_in_line b l)" and "a \<in> set (words_in_line b l) \<Longrightarrow> line_of a = l"
  using assms unfolding bus_wf_def by blast+

lemmas visit_peers = peers_ok_visit_order [OF bus_wf_race]

lemma broadcast_frame [frame_simps]:
  "b_line_words (snd (broadcast txn addr i b)) = b_line_words b"
  "b_race (snd (broadcast txn addr i b)) = b_race b"
  "bus_n_cores (snd (broadcast txn addr i b)) = bus_n_cores b"
  "words_in_line (snd (broadcast txn addr i b)) l = words_in_line b l"
  by (simp_all add: broadcast_def case_prod_beta frame_simps)

lemma broadcast_controller:
  assumes "bus_wf b" and "j < bus_n_cores b"
  shows "controller (snd (broadcast txn addr i b)) j
   = (if j = i then controller b j
      else snooped txn (line_of addr) (words_in_line b (line_of addr)) (controller b j))"
  using assms visit_peers [OF assms(1), of i]
  by (simp add: broadcast_def case_prod_beta snoop_all_controller frame_simps)

lemma broadcast_had_copy:
  assumes "bus_wf b"
  shows "had_copy (fst (broadcast txn addr i b))
     \<longleftrightarrow> (\<exists>j < bus_n_cores b. j \<noteq> i \<and> lstate b j (line_of addr) \<noteq> State_I)"
  using visit_peers [OF assms, of i]
  by (auto simp: broadcast_def case_prod_beta snoop_all_had_copy frame_simps)

lemma broadcast_mem:
  assumes "bus_wf b"
  shows "b_mem (snd (broadcast txn addr i b))
   = fold (\<lambda>k m. if flushes txn (lstate b k (line_of addr))
             then written_back (words_in_line b (line_of addr)) (controller b k) m else m)
       (fst (visit_order i b)) (b_mem b)"
  using visit_peers(1) [OF assms, of i]
  by (simp add: broadcast_def case_prod_beta snoop_all_mem frame_simps cong: if_cong)

lemma broadcast_mem_same:
  assumes "bus_wf b"
    and "\<And>j. j < bus_n_cores b \<Longrightarrow> j \<noteq> i \<Longrightarrow> \<not> flushes txn (lstate b j (line_of addr))"
  shows "b_mem (snd (broadcast txn addr i b)) = b_mem b"
  unfolding broadcast_mem [OF assms(1)]
  by (rule fold_guard_none) (use visit_peers [OF assms(1), of i] assms(2) in auto)

lemma broadcast_mem_flush:
  assumes "bus_wf b" and "k < bus_n_cores b" and "k \<noteq> i" and "flushes txn (lstate b k (line_of addr))"
    and "\<And>j. j < bus_n_cores b \<Longrightarrow> j \<noteq> k \<Longrightarrow> \<not> flushes txn (lstate b j (line_of addr))"
  shows "b_mem (snd (broadcast txn addr i b))
   = written_back (words_in_line b (line_of addr)) (controller b k) (b_mem b)"
  unfolding broadcast_mem [OF assms(1)]
  by (rule fold_guard_one) (use visit_peers [OF assms(1), of i] assms(2-5) in \<open>auto simp: peers_ok_def\<close>)

lemma c_id_snooped [simp]: "c_id (snooped txn l ws c) = c_id c"
  by (cases txn) (auto simp: snooped_def erase_words_def)

lemma perf_sized_snoop_perf: "perf_sized n p \<Longrightarrow> perf_sized n (snoop_perf txn st i p)"
  by (simp add: perf_sized_def snoop_perf_def)

lemma bus_wf_broadcast:
  assumes "bus_wf b"
  shows "bus_wf (snd (broadcast txn addr i b))"
proof -
  note v = visit_peers [OF assms, of i]
  have p: "perf_sized (bus_n_cores b) (b_perf (snd (broadcast txn addr i b)))"
    using v(1) assms
    by (auto simp: broadcast_def case_prod_beta snoop_all_perf frame_simps bus_wf_def
        intro!: fold_keeps perf_sized_snoop_perf)
  have a: "b_arb_ptr (snd (broadcast txn addr i b)) < bus_n_cores b"
    using v(1) assms
    by (auto simp: broadcast_def case_prod_beta snoop_all_arb_ptr frame_simps bus_wf_def
        intro!: fold_keeps [where P = "\<lambda>a. a < bus_n_cores b"])
  have r: "b_race b \<Longrightarrow> shuffles_ok (b_rng (snd (broadcast txn addr i b)))"
    using bus_wf_race [OF assms]
    by (simp add: broadcast_def case_prod_beta frame_simps shuffles_ok_visit_order)
  from assms p a r show ?thesis
    by (simp add: bus_wf_def frame_simps broadcast_controller [OF assms])
qed

section \<open>Pieces of an operation\<close>

lemma line_state_snooped:
  "line_state (snooped txn l ws c) l' =
     (if l' \<noteq> l \<or> line_state c l = State_I then line_state c l'
      else case txn of BusRd \<Rightarrow> State_S | BusRdX \<Rightarrow> State_I | BusUpgr \<Rightarrow> State_I | _ \<Rightarrow> line_state c l)"
  by (cases txn) (auto simp: snooped_def)

lemma c_data_snooped:
  "c_data (snooped txn l ws c) a =
     (if a \<in> set ws \<and> invalidates txn (line_state c l) then None else c_data c a)"
  by (cases txn) (auto simp: snooped_def invalidates_def erase_words_def)

lemma same_line_broadcast:
  assumes "bus_wf b" and "l \<noteq> line_of addr"
  shows "same_line b (snd (broadcast txn addr i b)) l"
proof -
  have m: "Memory_read (b_mem (snd (broadcast txn addr i b))) a = mem_val b a" if "line_of a = l" for a
  proof -
    from that assms have "a \<notin> set (words_in_line b (line_of addr))"
      using bus_wf_words(2) by blast
    then show ?thesis
      unfolding broadcast_mem [OF assms(1)]
      by (intro fold_keeps [where P = "\<lambda>m. Memory_read m a = mem_val b a"])
        (auto simp: Memory_read_written_back)
  qed
  have d: "c_data (snooped txn (line_of addr) (words_in_line b (line_of addr)) c) a = c_data c a"
    if "line_of a = l" for a c
    using that assms bus_wf_words(2) [OF assms(1)] by (auto simp: c_data_snooped)
  show ?thesis
    using assms(2) m d
    by (simp add: same_line_def frame_simps registered_def broadcast_controller [OF assms(1)]
        line_state_snooped)
qed

lemma same_line_on_controller:
  assumes "\<And>c. line_state (f c) l = line_state c l"
    and "\<And>c a. line_of a = l \<Longrightarrow> c_data (f c) a = c_data c a"
  shows "same_line b (on_controller i f b) l"
  using assms by (simp add: same_line_def frame_simps registered_def controller_on_controller)

lemma same_line_account: "same_line b (account txn b) l"
  by (simp add: same_line_def frame_simps registered_def)

lemma same_line_fill:
  assumes "bus_wf b" and "l \<noteq> l'"
  shows "same_line b (fill_line i l' b) l"
  unfolding fill_line_eq
  by (rule same_line_on_controller)
    (use assms bus_wf_words(2) [OF assms(1)] in \<open>auto simp: fill_words_def\<close>)

lemma bus_wf_on_controller:
  assumes "bus_wf b" and "\<And>c. c_id (f c) = c_id c"
  shows "bus_wf (on_controller i f b)"
  using assms by (simp add: bus_wf_def frame_simps controller_on_controller)

lemma perf_sized_updates [simp]:
  "perf_sized n (p\<lparr>l1_hit := inc_at i (l1_hit p)\<rparr>) = perf_sized n p"
  "perf_sized n (p\<lparr>l1_miss := inc_at i (l1_miss p)\<rparr>) = perf_sized n p"
  "perf_sized n (p\<lparr>stall_cycles := inc_at i (stall_cycles p)\<rparr>) = perf_sized n p"
  "perf_sized n (p\<lparr>sb_drain_cycles := inc_at i (sb_drain_cycles p)\<rparr>) = perf_sized n p"
  by (simp_all add: perf_sized_def)

lemma bus_wf_on_perf:
  assumes "bus_wf b" and "\<And>n p. perf_sized n (f p) = perf_sized n p"
  shows "bus_wf (on_perf f b)"
  using assms by (simp add: bus_wf_def frame_simps) (simp add: on_perf_def)

lemma bus_wf_account:
  assumes "bus_wf b"
  shows "bus_wf (account txn b)"
proof -
  have "perf_sized (bus_n_cores b) (b_perf (account txn b))"
    using assms by (cases txn) (simp_all add: bus_wf_def perf_sized_def bus_perf_account Let_def)
  moreover have "b_arb_ptr (account txn b) < bus_n_cores b"
    using assms
    by (cases txn) (simp_all add: bus_wf_def account_def advance_arb_def on_perf_def bus_n_cores_def Let_def)
  ultimately show ?thesis
    using assms by (simp add: bus_wf_def frame_simps)
qed

lemma distinct_words_register:
  "distinct (words_in_line b l) \<Longrightarrow> distinct (words_in_line (register_addr a b) l)"
  by (auto simp: words_in_line_def register_addr_def split: option.splits)

lemma bus_wf_register:
  assumes "bus_wf b"
  shows "bus_wf (register_addr a b)"
  using assms
  by (auto simp: bus_wf_def frame_simps set_words_in_line_register distinct_words_register)

lemma c_id_fill_words [simp]: "c_id (fill_words ws f c) = c_id c"
  by (simp add: fill_words_def)

lemma bus_wf_fill: "bus_wf b \<Longrightarrow> bus_wf (fill_line i l b)"
  unfolding fill_line_eq by (rule bus_wf_on_controller) simp_all

lemmas bus_wf_intros = bus_wf_broadcast bus_wf_on_controller bus_wf_on_perf bus_wf_account
  bus_wf_register bus_wf_fill

text \<open>Counting and registering change no value and break no line.\<close>

lemma registered_register: "registered (register_addr a b) x \<longleftrightarrow> x = a \<or> registered b x"
  by (auto simp: registered_def set_words_in_line_register)

lemma coherent_register:
  assumes "coherent b"
  shows "coherent (register_addr a b)"
proof -
  have "coherent_line (register_addr a b) l" for l
  proof -
    note c = coherent_lineD [OF coherentD(2) [OF assms], of l]
    have "held_words (register_addr a b) l"
      using c(4) unfolding held_words_def frame_simps registered_register by blast
    moreover have "fresh_words (register_addr a b) l"
      using c(5) unfolding fresh_words_def frame_simps registered_register by blast
    moreover have "single_writer (register_addr a b) l" "clean_copies (register_addr a b) l"
      "dirty_gaps (register_addr a b) l"
      using c(1-3) unfolding single_writer_def clean_copies_def dirty_gaps_def frame_simps by blast+
    ultimately show ?thesis by (simp only: coherent_line_def)
  qed
  with coherentD(1) [OF assms] show ?thesis
    by (simp add: coherent_def bus_wf_register)
qed

lemma coherent_on_perf:
  assumes "coherent b" and "\<And>n p. perf_sized n (f p) = perf_sized n p"
  shows "coherent (on_perf f b)"
proof -
  have "same_line b (on_perf f b) l" for l
    by (simp add: same_line_def frame_simps registered_def)
  from same_line_coherent [OF this coherentD(2) [OF assms(1)]] show ?thesis
    using bus_wf_on_perf [OF coherentD(1) [OF assms(1)] assms(2)] by (simp add: coherent_def)
qed

lemma coherent_value_frame [frame_simps]:
  "coherent_value (register_addr x b) = coherent_value b"
  "coherent_value (on_perf f b) = coherent_value b"
  "coherent_value (account txn b) = coherent_value b"
  by (simp_all add: coherent_value_def fun_eq_iff frame_simps cong: option.case_cong)

lemma coherent_value_fresh:
  assumes "coherent b" and "\<not> registered b a"
  shows "coherent_value b a = 0"
proof (cases "\<exists>i < bus_n_cores b. lstate b i (line_of a) = State_M")
  case True
  then obtain i where i: "i < bus_n_cores b" "lstate b i (line_of a) = State_M" by blast
  note c = coherent_lineD [OF coherentD(2) [OF assms(1)]]
  have "\<not> has_word (controller b i) a"
    using assms(2) held_wordsD(1) [OF c(4) i(1)] by blast
  with c(1) i show ?thesis by (simp add: coherent_value_owner peek_missing)
next
  case False
  with fresh_wordsD [OF coherent_lineD(5) [OF coherentD(2) [OF assms(1)]] assms(2)]
  show ?thesis by (simp add: coherent_value_clean)
qed

end
