(* ===== verification/Coherence_Ops.thy ===== *)
theory Coherence_Ops
  imports Coherence
begin

text \<open>
  The processor operations on a coherent bus: a fetch brings memory up to date, an acquisition
  leaves the only copy with its issuer, a read miss leaves clean copies. Every operation keeps the
  invariant and acts on the values as the operation of a flat memory does, which is the interface
  \<open>coherence_port\<close> the facade relies on.
\<close>

section \<open>Fetching a line\<close>

text \<open>After a \<^verbatim>\<open>BusRd\<close> or \<^verbatim>\<open>BusRdX\<close> has been snooped, memory holds the value of every word of the line.\<close>

lemma broadcast_fetch_mem:
  assumes "coherent b" and "i < bus_n_cores b" and "lstate b i (line_of addr) \<noteq> State_M"
    and "txn = BusRd \<or> txn = BusRdX" and "line_of a = line_of addr"
  shows "mem_val (snd (broadcast txn addr i b)) a = coherent_value b a"
proof (cases "\<exists>k < bus_n_cores b. lstate b k (line_of addr) = State_M")
  case True
  then obtain k where k: "k < bus_n_cores b" "lstate b k (line_of addr) = State_M" by blast
  note c = coherent_lineD [OF coherentD(2) [OF assms(1)]]
  have "\<not> flushes txn (lstate b j (line_of addr))" if "j < bus_n_cores b" "j \<noteq> k" for j
    using single_writerD(1) [OF c(1) k(1) that(1)] that(2) k(2) by (auto simp: flushes_def)
  moreover have "k \<noteq> i" using k(2) assms(3) by blast
  ultimately have m: "b_mem (snd (broadcast txn addr i b))
      = written_back (words_in_line b (line_of addr)) (controller b k) (b_mem b)"
    using k assms(4) by (intro broadcast_mem_flush) (auto simp: coherentD [OF assms(1)] flushes_def)
  have v: "coherent_value b a = peek (controller b k) a"
    using k assms(5) by (intro coherent_value_owner) (simp_all add: c)
  show ?thesis
  proof (cases "has_word (controller b k) a")
    case True
    with held_wordsD(1) [OF c(4) k(1), of a] assms(5) show ?thesis
      by (simp add: m v Memory_read_written_back registered_def)
  next
    case False
    with dirty_gapsD [OF c(3) k(1), of a] k(2) assms(5) show ?thesis
      by (simp add: m v Memory_read_written_back peek_missing)
  qed
next
  case False
  then have "b_mem (snd (broadcast txn addr i b)) = b_mem b"
    by (intro broadcast_mem_same) (auto simp: coherentD [OF assms(1)] flushes_def)
  with False assms(5) show ?thesis by (simp add: coherent_value_clean)
qed

section \<open>The owner of a line\<close>

text \<open>
  A line whose only copy is the modified one of controller \<open>i\<close>: the shape every acquisition of
  ownership establishes.
\<close>

definition owned :: "SnoopingBus \<Rightarrow> nat \<Rightarrow> u32 \<Rightarrow> bool" where
  "owned b i l \<longleftrightarrow>
     lstate b i l = State_M
     \<and> (\<forall>j < bus_n_cores b. j \<noteq> i \<longrightarrow>
          lstate b j l = State_I \<and> (\<forall>a. line_of a = l \<longrightarrow> \<not> has_word (controller b j) a))
     \<and> (\<forall>a. line_of a = l \<longrightarrow>
          (has_word (controller b i) a \<longrightarrow> registered b a)
          \<and> (\<not> has_word (controller b i) a \<longrightarrow> mem_val b a = 0))"

lemma owned_coherent_line:
  assumes "owned b i l" and "i < bus_n_cores b"
  shows "coherent_line b l"
proof -
  have i: "lstate b i l = State_M"
    and o: "\<And>j. j < bus_n_cores b \<Longrightarrow> j \<noteq> i \<Longrightarrow> lstate b j l = State_I"
    and w: "\<And>j a. j < bus_n_cores b \<Longrightarrow> j \<noteq> i \<Longrightarrow> line_of a = l \<Longrightarrow> \<not> has_word (controller b j) a"
    and r: "\<And>a. line_of a = l \<Longrightarrow> has_word (controller b i) a \<Longrightarrow> registered b a"
    and z: "\<And>a. line_of a = l \<Longrightarrow> \<not> has_word (controller b i) a \<Longrightarrow> mem_val b a = 0"
    using assms(1) unfolding owned_def by blast+
  have "single_writer b l"
    unfolding single_writer_def using o i by (metis State.distinct(3,5))
  moreover have "clean_copies b l"
    unfolding clean_copies_def using o i by (metis State.distinct)
  moreover have "dirty_gaps b l"
    unfolding dirty_gaps_def using o z by (metis State.distinct(5))
  moreover have "held_words b l"
    unfolding held_words_def using i w r by (metis State.distinct(5))
  moreover have "fresh_words b l"
    unfolding fresh_words_def using r z by blast
  ultimately show ?thesis by (simp only: coherent_line_def)
qed

lemma owned_value:
  assumes "owned b i (line_of a)" and "i < bus_n_cores b"
  shows "coherent_value b a = peek (controller b i) a"
  using owned_coherent_line [OF assms] assms
  by (intro coherent_value_owner) (simp_all add: coherent_line_def owned_def)

lemma coherent_owned:
  assumes "coherent b" and "i < bus_n_cores b" and "lstate b i l = State_M"
  shows "owned b i l"
proof -
  note c = coherent_lineD [OF coherentD(2) [OF assms(1)], of l]
  have o: "lstate b j l = State_I" if "j < bus_n_cores b" "j \<noteq> i" for j
    using single_writerD(1) [OF c(1) assms(2) that(1)] that(2) assms(3) by metis
  have "\<not> has_word (controller b j) a" if "j < bus_n_cores b" "j \<noteq> i" "line_of a = l" for j a
    using c(4) o [OF that(1,2)] that unfolding held_words_def by metis
  moreover have "has_word (controller b i) a \<Longrightarrow> registered b a" if "line_of a = l" for a
    using c(4) assms(2) that unfolding held_words_def by metis
  moreover have "\<not> has_word (controller b i) a \<Longrightarrow> mem_val b a = 0" if "line_of a = l" for a
    using c(3) assms(2,3) that unfolding dirty_gaps_def by metis
  ultimately show ?thesis using o assms(3) unfolding owned_def by blast
qed

text \<open>Storing a registered word in a line the controller owns.\<close>

lemma owned_put_word:
  assumes "coherent b" and "i < bus_n_cores b" and "lstate b i (line_of a) = State_M" and "registered b a"
  shows "coherent (on_controller i (put_word a v) b)"
    and "coherent_value (on_controller i (put_word a v) b) = (coherent_value b)(a := v)"
proof -
  let ?b = "on_controller i (put_word a v) b"
  have c: "controller ?b j = (if j = i then put_word a v (controller b j) else controller b j)"
    if "j < bus_n_cores b" for j
    using that by (auto simp: controller_on_controller)
  have o: "owned ?b i (line_of a)"
    using coherent_owned [OF assms(1-3)] assms(2,4)
    unfolding owned_def frame_simps by (auto simp: c registered_def frame_simps)
  have s: "same_line b ?b l" if "l \<noteq> line_of a" for l
    using that by (intro same_line_on_controller) auto
  have l: "coherent_line ?b l" for l
  proof (cases "l = line_of a")
    case True
    with o assms(2) show ?thesis by (simp add: owned_coherent_line frame_simps)
  qed (use s coherentD(2) [OF assms(1)] same_line_coherent in blast)
  then show "coherent ?b"
    using coherentD(1) [OF assms(1)] by (simp add: coherent_def bus_wf_on_controller)
  show "coherent_value ?b = (coherent_value b)(a := v)"
  proof
    fix x
    show "coherent_value ?b x = ((coherent_value b)(a := v)) x"
    proof (cases "line_of x = line_of a")
      case True
      with o owned_value [of ?b i x] owned_value [of b i x] coherent_owned [OF assms(1-3)] assms(2)
      show ?thesis by (simp add: c frame_simps)
    next
      case False
      with same_line_value [OF s coherentD(2) [OF assms(1)]] show ?thesis by auto
    qed
  qed
qed

section \<open>Acquiring ownership\<close>

lemma coherent_step:
  assumes "coherent b" and "bus_wf b'" and "\<And>l. l \<noteq> L \<Longrightarrow> same_line b b' l" and "coherent_line b' L"
    and "\<And>a. line_of a = L \<Longrightarrow> coherent_value b' a = coherent_value b a"
  shows "coherent b'" and "coherent_value b' = coherent_value b"
proof -
  have "coherent_line b' l" for l
    using assms(3,4) coherentD(2) [OF assms(1)] same_line_coherent by (cases "l = L") blast+
  with assms(2) show "coherent b'" by (simp add: coherent_def)
  have "coherent_value b' a = coherent_value b a" for a
    using assms(3,5) coherentD(2) [OF assms(1)] same_line_value by (cases "line_of a = L") blast+
  then show "coherent_value b' = coherent_value b" ..
qed

lemma invalid_no_words:
  assumes "coherent b" and "i < bus_n_cores b" and "lstate b i (line_of a) = State_I"
  shows "\<not> has_word (controller b i) a"
  using held_wordsD(2) [OF coherent_lineD(4) [OF coherentD(2) [OF assms(1)]] assms(2)] assms(3) by blast

text \<open>A peer that has snooped an invalidating transaction holds nothing of the line.\<close>

lemma snooped_invalid:
  assumes "coherent b" and "j < bus_n_cores b" and "txn = BusRdX \<or> txn = BusUpgr"
  shows "line_state (snooped txn l (words_in_line b l) (controller b j)) l = State_I"
    and "line_of a = l \<Longrightarrow> \<not> has_word (snooped txn l (words_in_line b l) (controller b j)) a"
proof -
  show "line_state (snooped txn l (words_in_line b l) (controller b j)) l = State_I"
    using assms(3) by (auto simp: line_state_snooped)
  note h = held_wordsD [OF coherent_lineD(4) [OF coherentD(2) [OF assms(1)]] assms(2)]
  show "\<not> has_word (snooped txn l (words_in_line b l) (controller b j)) a" if "line_of a = l"
    using h [of a] that assms(3)
    by (cases "c_data (controller b j) a")
      (auto simp: has_word_def c_data_snooped invalidates_def registered_def)
qed

text \<open>The states a write miss and an upgrade leave.\<close>

definition write_filled :: "SnoopingBus \<Rightarrow> nat \<Rightarrow> u32 \<Rightarrow> SnoopingBus" where
  "write_filled b i addr = on_controller i (set_state (line_of addr) State_M)
     (fill_line i (line_of addr) (account BusRdX (snd (broadcast BusRdX addr i b))))"

definition upgraded :: "SnoopingBus \<Rightarrow> nat \<Rightarrow> u32 \<Rightarrow> SnoopingBus" where
  "upgraded b i addr = on_controller i (set_state (line_of addr) State_M)
     (account BusUpgr (snd (broadcast BusUpgr addr i b)))"

lemma acquired_frame [frame_simps]:
  "bus_n_cores (write_filled b i addr) = bus_n_cores b"
  "words_in_line (write_filled b i addr) l = words_in_line b l"
  "b_mem (write_filled b i addr) = b_mem (snd (broadcast BusRdX addr i b))"
  "bus_n_cores (upgraded b i addr) = bus_n_cores b"
  "words_in_line (upgraded b i addr) l = words_in_line b l"
  "b_mem (upgraded b i addr) = b_mem (snd (broadcast BusUpgr addr i b))"
  by (simp_all add: write_filled_def upgraded_def fill_line_eq frame_simps)

lemma write_filled_controller:
  assumes "bus_wf b" and "j < bus_n_cores b"
  shows "controller (write_filled b i addr) j =
    (if j = i then set_state (line_of addr) State_M
        (fill_words (words_in_line b (line_of addr)) (mem_val (snd (broadcast BusRdX addr i b)))
          (controller b i))
     else snooped BusRdX (line_of addr) (words_in_line b (line_of addr)) (controller b j))"
  using assms(2)
  by (simp add: write_filled_def fill_line_eq controller_on_controller frame_simps
      broadcast_controller [OF assms(1)])

lemma upgraded_controller:
  assumes "bus_wf b" and "j < bus_n_cores b"
  shows "controller (upgraded b i addr) j =
    (if j = i then set_state (line_of addr) State_M (controller b i)
     else snooped BusUpgr (line_of addr) (words_in_line b (line_of addr)) (controller b j))"
  using assms(2)
  by (simp add: upgraded_def controller_on_controller frame_simps broadcast_controller [OF assms(1)])

lemma same_line_acquired:
  assumes "bus_wf b" and "l \<noteq> line_of addr"
  shows "same_line b (write_filled b i addr) l" "same_line b (upgraded b i addr) l"
  unfolding write_filled_def upgraded_def using assms
  by (intro same_line_trans [OF same_line_broadcast same_line_trans [OF same_line_account
        same_line_trans [OF same_line_fill same_line_on_controller]]]
      same_line_trans [OF same_line_broadcast same_line_trans [OF same_line_account
        same_line_on_controller]]; simp add: bus_wf_intros)+

lemma bus_wf_acquired:
  assumes "bus_wf b"
  shows "bus_wf (write_filled b i addr)" "bus_wf (upgraded b i addr)"
  unfolding write_filled_def upgraded_def using assms by (simp_all add: bus_wf_intros)

lemma write_filled_owner:
  assumes "coherent b" and "i < bus_n_cores b"
  shows "lstate (write_filled b i addr) i (line_of addr) = State_M"
  using assms(2) by (simp add: write_filled_controller [OF coherentD(1) [OF assms(1)]])

lemma upgraded_owner:
  assumes "coherent b" and "i < bus_n_cores b"
  shows "lstate (upgraded b i addr) i (line_of addr) = State_M"
  using assms(2) by (simp add: upgraded_controller [OF coherentD(1) [OF assms(1)]])

lemma write_filled_coherent:
  assumes "coherent b" and "i < bus_n_cores b" and "lstate b i (line_of addr) = State_I"
  shows "coherent (write_filled b i addr)" and "coherent_value (write_filled b i addr) = coherent_value b"
proof -
  let ?b = "write_filled b i addr" and ?l = "line_of addr" and ?ws = "words_in_line b (line_of addr)"
  note wf = coherentD(1) [OF assms(1)]
  note c = write_filled_controller [OF wf]
  have m: "mem_val (snd (broadcast BusRdX addr i b)) a = coherent_value b a" if "line_of a = ?l" for a
    using broadcast_fetch_mem [OF assms(1,2) _ _ that, of BusRdX] assms(3) by simp
  have nw: "\<not> has_word (controller b i) a" if "line_of a = ?l" for a
    using invalid_no_words [OF assms(1,2), of a] assms(3) that by simp
  have z: "coherent_value b a = 0" if "line_of a = ?l" "a \<notin> set ?ws" for a
    using coherent_value_fresh [OF assms(1), of a] that by (simp add: registered_def)
  have o: "owned ?b i ?l"
    unfolding owned_def frame_simps
    using snooped_invalid [OF assms(1), where txn = BusRdX and l = ?l] assms(2) m nw z
    by (auto simp: c registered_def frame_simps)
  have "coherent_value ?b a = coherent_value b a" if "line_of a = ?l" for a
    using owned_value [of ?b i a] o that assms(2) nw m z
    by (auto simp: c frame_simps peek_missing)
  note coherent_step [OF assms(1) bus_wf_acquired(1) [OF wf] same_line_acquired(1) [OF wf]
      owned_coherent_line [OF o] this]
  then show "coherent ?b" and "coherent_value ?b = coherent_value b"
    using assms(2) by (simp_all add: frame_simps)
qed

lemma upgraded_coherent:
  assumes "coherent b" and "i < bus_n_cores b" and "lstate b i (line_of addr) = State_S"
  shows "coherent (upgraded b i addr)" and "coherent_value (upgraded b i addr) = coherent_value b"
proof -
  let ?b = "upgraded b i addr" and ?l = "line_of addr"
  note wf = coherentD(1) [OF assms(1)] and c_l = coherent_lineD [OF coherentD(2) [OF assms(1)]]
  note c = upgraded_controller [OF wf]
  have m: "mem_val ?b a = mem_val b a" for a
    using broadcast_mem_same [OF wf, of i BusUpgr addr] by (simp add: frame_simps flushes_def)
  have p: "peek (controller b i) a = mem_val b a" if "line_of a = ?l" for a
    using clean_copiesD(1) [OF c_l(2) assms(2)] assms(3) that by simp
  have r: "registered ?b a = registered b a" for a
    by (simp add: registered_def frame_simps)
  have o: "owned ?b i ?l"
    unfolding owned_def acquired_frame(4)
    using snooped_invalid [OF assms(1), where txn = BusUpgr and l = ?l] assms(2) p
      held_wordsD(1) [OF c_l(4) assms(2)]
    by (auto simp: c r m simp flip: p dest: peek_missing)
  have "coherent_value ?b a = coherent_value b a" if "line_of a = ?l" for a
    using owned_value [of ?b i a] o that assms(2,3)
      coherent_value_copy [OF coherentD(2) [OF assms(1)] assms(2), of a]
    by (simp add: c frame_simps)
  note coherent_step [OF assms(1) bus_wf_acquired(2) [OF wf] same_line_acquired(2) [OF wf]
      owned_coherent_line [OF o] this]
  then show "coherent ?b" and "coherent_value ?b = coherent_value b"
    using assms(2) by (simp_all add: frame_simps)
qed

lemma acquire_from_E:
  assumes "coherent b" and "i < bus_n_cores b" and "lstate b i l = State_E"
  shows "coherent (on_controller i (set_state l State_M) b)"
    and "coherent_value (on_controller i (set_state l State_M) b) = coherent_value b"
proof -
  let ?b = "on_controller i (set_state l State_M) b"
  note c_l = coherent_lineD [OF coherentD(2) [OF assms(1)]]
  have c: "controller ?b j = (if j = i then set_state l State_M (controller b j) else controller b j)"
    if "j < bus_n_cores b" for j
    using that by (auto simp: controller_on_controller)
  have p: "peek (controller b i) a = mem_val b a" if "line_of a = l" for a
    using clean_copiesD(2) [OF c_l(2) assms(2)] assms(3) that by simp
  have i: "lstate b j l = State_I" if "j < bus_n_cores b" "j \<noteq> i" for j
    using single_writerD(2) [OF c_l(1) assms(2) that(1)] that(2) assms(3) by metis
  have r: "registered ?b a = registered b a" for a
    by (simp add: registered_def frame_simps)
  have o: "owned ?b i l"
    unfolding owned_def frame_simps
    using assms(2) i invalid_no_words [OF assms(1)] p held_wordsD(1) [OF c_l(4) assms(2)]
    by (auto simp: c r simp flip: p dest: peek_missing)
  have "same_line b ?b l'" if "l' \<noteq> l" for l'
    using that by (intro same_line_on_controller) simp_all
  moreover have "coherent_value ?b a = coherent_value b a" if "line_of a = l" for a
    using owned_value [of ?b i a] o that assms(2,3)
      coherent_value_copy [OF coherentD(2) [OF assms(1)] assms(2), of a]
    by (simp add: c frame_simps)
  moreover have "bus_wf ?b"
    using coherentD(1) [OF assms(1)] by (simp add: bus_wf_intros)
  ultimately show "coherent ?b" and "coherent_value ?b = coherent_value b"
    using owned_coherent_line [OF o] assms(2) coherent_step [OF assms(1), of ?b l]
    by (simp_all add: frame_simps)
qed

section \<open>Filling a line for a read\<close>

text \<open>The state a read miss leaves.\<close>

definition fill_state :: "SnoopingBus \<Rightarrow> nat \<Rightarrow> u32 \<Rightarrow> State" where
  "fill_state b i addr = (if had_copy (fst (broadcast BusRd addr i b)) then State_S else State_E)"

definition read_filled :: "SnoopingBus \<Rightarrow> nat \<Rightarrow> u32 \<Rightarrow> SnoopingBus" where
  "read_filled b i addr = on_controller i (set_state (line_of addr) (fill_state b i addr))
     (fill_line i (line_of addr) (account BusRd (snd (broadcast BusRd addr i b))))"

lemma fill_state_cases: "fill_state b i addr = State_S \<or> fill_state b i addr = State_E"
  by (simp add: fill_state_def)

lemma fill_state_alone:
  assumes "bus_wf b"
  shows "fill_state b i addr = State_E
    \<longleftrightarrow> (\<forall>j < bus_n_cores b. j \<noteq> i \<longrightarrow> lstate b j (line_of addr) = State_I)"
  using broadcast_had_copy [OF assms, of BusRd addr i] by (auto simp: fill_state_def)

lemma read_filled_frame [frame_simps]:
  "bus_n_cores (read_filled b i addr) = bus_n_cores b"
  "words_in_line (read_filled b i addr) l = words_in_line b l"
  "b_mem (read_filled b i addr) = b_mem (snd (broadcast BusRd addr i b))"
  by (simp_all add: read_filled_def fill_line_eq frame_simps)

lemma read_filled_controller:
  assumes "bus_wf b" and "j < bus_n_cores b"
  shows "controller (read_filled b i addr) j =
    (if j = i then set_state (line_of addr) (fill_state b i addr)
        (fill_words (words_in_line b (line_of addr)) (mem_val (snd (broadcast BusRd addr i b)))
          (controller b i))
     else snooped BusRd (line_of addr) (words_in_line b (line_of addr)) (controller b j))"
  using assms(2)
  by (simp add: read_filled_def fill_line_eq controller_on_controller frame_simps
      broadcast_controller [OF assms(1)])

lemma read_filled_lstate:
  assumes "bus_wf b" and "j < bus_n_cores b"
  shows "lstate (read_filled b i addr) j (line_of addr) =
    (if j = i then fill_state b i addr
     else if lstate b j (line_of addr) = State_I then State_I else State_S)"
  by (simp add: read_filled_controller [OF assms] line_state_snooped)

lemma read_filled_not_M:
  assumes "bus_wf b" and "j < bus_n_cores b"
  shows "lstate (read_filled b i addr) j (line_of addr) \<noteq> State_M"
  using fill_state_cases [of b i addr] by (auto simp: read_filled_lstate [OF assms])

text \<open>A controller that misses a line: memory is current after the broadcast, and the fill copies it.\<close>

lemma read_filled_mem:
  assumes "coherent b" and "i < bus_n_cores b" and "lstate b i (line_of addr) = State_I"
    and "line_of a = line_of addr"
  shows "mem_val (read_filled b i addr) a = coherent_value b a"
  using broadcast_fetch_mem [OF assms(1,2) _ _ assms(4), of BusRd] assms(3) by (simp add: frame_simps)

lemma read_filled_has_word:
  assumes "coherent b" and "i < bus_n_cores b" and "lstate b i (line_of addr) = State_I"
    and "j < bus_n_cores b" and "line_of a = line_of addr"
  shows "has_word (controller (read_filled b i addr) j) a
    \<longleftrightarrow> (if j = i then registered b a else has_word (controller b j) a)"
  using invalid_no_words [OF assms(1,2), of a] assms(3,5)
  by (auto simp: read_filled_controller [OF coherentD(1) [OF assms(1)] assms(4)] registered_def
      has_word_def c_data_snooped invalidates_def fill_words_def)

lemma read_filled_peek:
  assumes "coherent b" and "i < bus_n_cores b" and "lstate b i (line_of addr) = State_I"
    and "j < bus_n_cores b" and "line_of a = line_of addr"
    and "lstate (read_filled b i addr) j (line_of addr) \<noteq> State_I"
  shows "peek (controller (read_filled b i addr) j) a = coherent_value b a"
proof (cases "j = i")
  case True
  have "coherent_value b a = 0" if "a \<notin> set (words_in_line b (line_of addr))"
    using coherent_value_fresh [OF assms(1), of a] that assms(5) by (simp add: registered_def)
  with True invalid_no_words [OF assms(1,2), of a] broadcast_fetch_mem [OF assms(1,2) _ _ assms(5), of BusRd]
    assms(3-5) show ?thesis
    by (auto simp: read_filled_controller [OF coherentD(1) [OF assms(1)]] peek_missing)
next
  case False
  note wf = coherentD(1) [OF assms(1)]
  from False assms(5,6) have "lstate b j (line_of a) \<noteq> State_I"
    by (auto simp: read_filled_lstate [OF wf assms(4)] split: if_splits)
  with False coherent_value_copy [OF coherentD(2) [OF assms(1)] assms(4), of a] show ?thesis
    by (simp add: read_filled_controller [OF wf assms(4)] peek_def c_data_snooped invalidates_def)
qed

lemma read_filled_coherent_line:
  assumes "coherent b" and "i < bus_n_cores b" and "lstate b i (line_of addr) = State_I"
  shows "coherent_line (read_filled b i addr) (line_of addr)"
proof -
  let ?b = "read_filled b i addr" and ?l = "line_of addr"
  note wf = coherentD(1) [OF assms(1)] and held = held_wordsD [OF coherent_lineD(4) [OF coherentD(2) [OF assms(1)]]]
  note ls = read_filled_lstate [OF wf] and SE = fill_state_cases [of b i addr]
  have r: "registered ?b a = registered b a" for a
    by (simp add: registered_def frame_simps)
  have "single_writer ?b ?l"
    using fill_state_alone [OF wf, of i addr] SE
    unfolding single_writer_def frame_simps by (auto simp: ls split: if_splits)
  moreover have "clean_copies ?b ?l"
    using read_filled_peek [OF assms] read_filled_mem [OF assms]
    unfolding clean_copies_def read_filled_frame(1) by (metis State.distinct(1,3))
  moreover have "dirty_gaps ?b ?l"
    using read_filled_not_M [OF wf] unfolding dirty_gaps_def frame_simps by blast
  moreover have "held_words ?b ?l"
    using held SE unfolding held_words_def read_filled_frame(1)
    by (auto simp: read_filled_has_word [OF assms] ls r split: if_splits) metis+
  moreover have "fresh_words ?b ?l"
    using read_filled_mem [OF assms] coherent_value_fresh [OF assms(1)]
    unfolding fresh_words_def r by metis
  ultimately show ?thesis by (simp only: coherent_line_def)
qed

lemma read_filled_coherent:
  assumes "coherent b" and "i < bus_n_cores b" and "lstate b i (line_of addr) = State_I"
  shows "coherent (read_filled b i addr)" and "coherent_value (read_filled b i addr) = coherent_value b"
proof -
  let ?b = "read_filled b i addr" and ?l = "line_of addr"
  note wf = coherentD(1) [OF assms(1)]
  have same: "same_line b ?b l" if "l \<noteq> ?l" for l
    unfolding read_filled_def using that wf
    by (intro same_line_trans [OF same_line_broadcast same_line_trans [OF same_line_account
          same_line_trans [OF same_line_fill same_line_on_controller]]])
      (simp_all add: bus_wf_intros)
  have val: "coherent_value ?b a = coherent_value b a" if "line_of a = ?l" for a
  proof -
    have "coherent_value ?b a = mem_val ?b a"
      by (rule coherent_value_clean) (use that read_filled_not_M [OF wf] in \<open>auto simp: frame_simps\<close>)
    with read_filled_mem [OF assms that] show ?thesis by simp
  qed
  have "bus_wf ?b"
    unfolding read_filled_def using wf by (simp add: bus_wf_intros)
  note coherent_step [OF assms(1) this same read_filled_coherent_line [OF assms] val]
  then show "coherent ?b" and "coherent_value ?b = coherent_value b" by blast+
qed

section \<open>The processor operations\<close>

abbreviation owns :: "SnoopingBus \<Rightarrow> nat \<Rightarrow> u32 \<Rightarrow> bool" where
  "owns b i a \<equiv> lstate b i (line_of a) = State_M \<and> registered b a"

abbreviation count_hit :: "nat \<Rightarrow> SnoopingBus \<Rightarrow> SnoopingBus" where
  "count_hit i \<equiv> on_perf (\<lambda>p. p\<lparr>l1_hit := inc_at i (l1_hit p)\<rparr>)"

abbreviation count_stall :: "nat \<Rightarrow> SnoopingBus \<Rightarrow> SnoopingBus" where
  "count_stall i \<equiv> on_perf (\<lambda>p. p\<lparr>stall_cycles := inc_at i (stall_cycles p)\<rparr>)"

abbreviation count_miss :: "nat \<Rightarrow> SnoopingBus \<Rightarrow> SnoopingBus" where
  "count_miss i b \<equiv> count_stall i (on_perf (\<lambda>p. p\<lparr>l1_miss := inc_at i (l1_miss p)\<rparr>) b)"

lemma processor_read_hit:
  "lstate b i (line_of a) \<noteq> State_I \<Longrightarrow>
   processor_read i a b = (peek (controller b i) a, count_hit i (register_addr a b))"
  by (simp add: processor_read_def frame_simps)

lemma processor_read_miss:
  "lstate b i (line_of a) = State_I \<Longrightarrow>
   processor_read i a b =
     (let b' = read_filled (count_miss i (register_addr a b)) i a in (peek (controller b' i) a, b'))"
  by (simp add: processor_read_def read_filled_def fill_state_def frame_simps case_prod_beta Let_def)

lemma acquire_M:
  "lstate b i (line_of a) = State_M \<Longrightarrow>
   acquire_exclusive i a b = (peek (controller b i) a, count_hit i (register_addr a b))"
  by (simp add: acquire_exclusive_def frame_simps)

lemma acquire_E:
  "lstate b i (line_of a) = State_E \<Longrightarrow>
   acquire_exclusive i a b =
     (let b' = on_controller i (set_state (line_of a) State_M) (count_hit i (register_addr a b))
      in (peek (controller b' i) a, b'))"
  by (simp add: acquire_exclusive_def frame_simps Let_def)

lemma acquire_S:
  "lstate b i (line_of a) = State_S \<Longrightarrow>
   acquire_exclusive i a b =
     (let b' = upgraded (count_stall i (count_hit i (register_addr a b))) i a
      in (peek (controller b' i) a, b'))"
  by (simp add: acquire_exclusive_def upgraded_def frame_simps case_prod_beta Let_def)

lemma acquire_I:
  "lstate b i (line_of a) = State_I \<Longrightarrow>
   acquire_exclusive i a b =
     (let b' = write_filled (count_miss i (register_addr a b)) i a in (peek (controller b' i) a, b'))"
  by (simp add: acquire_exclusive_def write_filled_def frame_simps case_prod_beta Let_def)

text \<open>Counting and registering do not change which line is held in which state.\<close>

lemma coherent_prepared:
  assumes "coherent b"
  shows "coherent (count_hit i (register_addr a b))" "coherent (count_miss i (register_addr a b))"
    "coherent (count_stall i (count_hit i (register_addr a b)))"
  by (intro coherent_on_perf coherent_register assms; simp)+

lemma registered_frame [frame_simps]:
  "registered (on_perf f b) a = registered b a"
  "registered (on_controller i g b) a = registered b a"
  "registered (read_filled b i x) a = registered b a"
  "registered (write_filled b i x) a = registered b a"
  "registered (upgraded b i x) a = registered b a"
  by (simp_all add: registered_def frame_simps)

lemma processor_read_coherent:
  assumes "coherent b" and "i < bus_n_cores b"
  shows "fst (processor_read i a b) = coherent_value b a"
    and "coherent (snd (processor_read i a b))"
    and "coherent_value (snd (processor_read i a b)) = coherent_value b"
    and "bus_n_cores (snd (processor_read i a b)) = bus_n_cores b"
proof -
  let ?r = "processor_read i a b"
  have "fst ?r = coherent_value b a \<and> coherent (snd ?r) \<and> coherent_value (snd ?r) = coherent_value b
      \<and> bus_n_cores (snd ?r) = bus_n_cores b"
  proof (cases "lstate b i (line_of a) = State_I")
    case False
    with assms show ?thesis
      by (simp add: processor_read_hit frame_simps coherent_prepared
          coherent_value_copy [OF coherentD(2) [OF assms(1)]])
  next
    case True
    let ?b = "count_miss i (register_addr a b)"
    note f = read_filled_coherent [of ?b i a]
    have "lstate (read_filled ?b i a) i (line_of a) \<noteq> State_I"
      using fill_state_cases [of ?b i a] assms
      by (auto simp: read_filled_lstate [OF coherentD(1) [OF coherent_prepared(2)]] frame_simps)
    with True f assms coherent_value_copy [OF coherentD(2) [OF f(1)], of i a] show ?thesis
      by (simp add: processor_read_miss Let_def frame_simps coherent_prepared)
  qed
  then show "fst ?r = coherent_value b a" "coherent (snd ?r)" "coherent_value (snd ?r) = coherent_value b"
    "bus_n_cores (snd ?r) = bus_n_cores b" by blast+
qed

lemma acquire_exclusive_coherent:
  assumes "coherent b" and "i < bus_n_cores b"
  shows "coherent (snd (acquire_exclusive i a b))"
    and "coherent_value (snd (acquire_exclusive i a b)) = coherent_value b"
    and "bus_n_cores (snd (acquire_exclusive i a b)) = bus_n_cores b"
    and "owns (snd (acquire_exclusive i a b)) i a"
proof -
  let ?r = "acquire_exclusive i a b"
  have "coherent (snd ?r) \<and> coherent_value (snd ?r) = coherent_value b
      \<and> bus_n_cores (snd ?r) = bus_n_cores b \<and> owns (snd ?r) i a"
  proof (cases "lstate b i (line_of a)")
    case State_I
    with assms write_filled_coherent [of "count_miss i (register_addr a b)" i a]
      write_filled_owner [of "count_miss i (register_addr a b)" i a]
    show ?thesis
      by (simp add: acquire_I Let_def frame_simps coherent_prepared registered_register)
  next
    case State_S
    with assms upgraded_coherent [of "count_stall i (count_hit i (register_addr a b))" i a]
      upgraded_owner [of "count_stall i (count_hit i (register_addr a b))" i a]
    show ?thesis
      by (simp add: acquire_S Let_def frame_simps coherent_prepared registered_register)
  next
    case State_E
    with assms acquire_from_E [of "count_hit i (register_addr a b)" i "line_of a"] show ?thesis
      by (simp add: acquire_E Let_def frame_simps coherent_prepared registered_register
          controller_on_controller)
  next
    case State_M
    with assms show ?thesis
      by (simp add: acquire_M frame_simps coherent_prepared registered_register)
  qed
  then show "coherent (snd ?r)" "coherent_value (snd ?r) = coherent_value b"
    "bus_n_cores (snd ?r) = bus_n_cores b" "owns (snd ?r) i a" by blast+
qed

lemma acquire_exclusive_value:
  assumes "coherent b" and "i < bus_n_cores b"
  shows "fst (acquire_exclusive i a b) = coherent_value b a"
proof -
  note c = acquire_exclusive_coherent [OF assms, of a]
  have "fst (acquire_exclusive i a b) = peek (controller (snd (acquire_exclusive i a b)) i) a"
    by (simp add: acquire_exclusive_def Let_def)
  also have "\<dots> = coherent_value (snd (acquire_exclusive i a b)) a"
    using c(3,4) assms(2) by (intro coherent_value_copy [OF coherentD(2) [OF c(1)]]) auto
  finally show ?thesis by (simp add: c)
qed

section \<open>The interface the facade relies on\<close>

text \<open>
  A coherent port: reading and acquiring return the value of the address and change no value;
  storing into an owned word changes that word only.
\<close>

locale coherence_port =
  fixes inv :: "'b \<Rightarrow> bool"
    and cores :: "'b \<Rightarrow> nat"
    and val :: "'b \<Rightarrow> u32 \<Rightarrow> u32"
    and own :: "'b \<Rightarrow> nat \<Rightarrow> u32 \<Rightarrow> bool"
    and rd :: "nat \<Rightarrow> u32 \<Rightarrow> 'b \<Rightarrow> u32 \<times> 'b"
    and acq :: "nat \<Rightarrow> u32 \<Rightarrow> 'b \<Rightarrow> u32 \<times> 'b"
    and put :: "nat \<Rightarrow> u32 \<Rightarrow> u32 \<Rightarrow> 'b \<Rightarrow> 'b"
  assumes rd: "inv b \<Longrightarrow> i < cores b \<Longrightarrow>
      fst (rd i a b) = val b a \<and> inv (snd (rd i a b)) \<and> val (snd (rd i a b)) = val b
      \<and> cores (snd (rd i a b)) = cores b"
    and acq: "inv b \<Longrightarrow> i < cores b \<Longrightarrow>
      fst (acq i a b) = val b a \<and> inv (snd (acq i a b)) \<and> val (snd (acq i a b)) = val b
      \<and> cores (snd (acq i a b)) = cores b \<and> own (snd (acq i a b)) i a"
    and put: "inv b \<Longrightarrow> i < cores b \<Longrightarrow> own b i a \<Longrightarrow>
      inv (put i a v b) \<and> val (put i a v b) = (val b)(a := v) \<and> cores (put i a v b) = cores b"
begin

text \<open>An atomic read-modify-write: acquire, then store a function of the value acquired.\<close>

lemma rmw:
  assumes "inv b" and "i < cores b"
  shows "inv (put i a v (snd (acq i a b)))"
    and "val (put i a v (snd (acq i a b))) = (val b)(a := v)"
    and "cores (put i a v (snd (acq i a b))) = cores b"
  using acq [OF assms, of a] put [of "snd (acq i a b)" i a v] assms(2) by auto

text \<open>What one controller stores, every controller reads, at that address and at no other.\<close>

lemma rd_after_rmw:
  assumes "inv b" and "i < cores b" and "j < cores b"
  shows "fst (rd j x (put i a v (snd (acq i a b)))) = (if x = a then v else val b x)"
  using rmw [OF assms(1,2), of a v] rd [of "put i a v (snd (acq i a b))" j x] assms(3) by simp

lemma rd_stable:
  assumes "inv b" and "i < cores b" and "j < cores b"
  shows "fst (rd j x (snd (rd i a b))) = val b x"
  using rd [OF assms(1,2), of a] rd [of "snd (rd i a b)" j x] assms(3) by simp

end

interpretation port: coherence_port coherent bus_n_cores coherent_value owns
  processor_read acquire_exclusive "\<lambda>i a v. on_controller i (put_word a v)"
  by unfold_locales
    (simp_all add: processor_read_coherent acquire_exclusive_coherent acquire_exclusive_value
      owned_put_word frame_simps)

lemma processor_write_eq:
  "processor_write i a v b = on_controller i (put_word a v) (snd (acquire_exclusive i a b))"
  by (simp add: processor_write_def case_prod_beta)

lemmas processor_write_coherent = port.rmw [folded processor_write_eq]


section \<open>The initial state\<close>

lemma SnoopingBus_new_sel [simp]:
  "bus_n_cores (SnoopingBus_new n) = n"
  "i < n \<Longrightarrow> controller (SnoopingBus_new n) i = CacheController_new i"
  "words_in_line (SnoopingBus_new n) l = []"
  "mem_val (SnoopingBus_new n) a = 0"
  "\<not> b_race (SnoopingBus_new n)"
  by (simp_all add: SnoopingBus_new_def bus_n_cores_def controller_def words_in_line_def)

lemma coherent_new: "0 < n \<Longrightarrow> coherent (SnoopingBus_new n)"
  by (simp add: coherent_def coherent_line_defs bus_wf_def perf_sized_resize)
    (simp add: SnoopingBus_new_def perf_sized_resize CacheController_new_def)

lemma coherent_value_new: "coherent_value (SnoopingBus_new n) = (\<lambda>_. 0)"
  by (rule ext, subst coherent_value_clean) simp_all

section \<open>The visiting order of the peers\<close>

text \<open>Under the invariant at most one peer flushes, so every visiting order has the same effect.\<close>

lemma snoop_perf_commute:
  "snoop_perf t st i (snoop_perf t st' j p) = snoop_perf t st' j (snoop_perf t st i p)"
  by (simp add: snoop_perf_def inc_at_commute algebra_simps)

lemma fold_guard_order:
  assumes "distinct xs" and "mset xs = mset ys"
    and "\<And>x y. x \<in> set xs \<Longrightarrow> y \<in> set xs \<Longrightarrow> p x \<Longrightarrow> p y \<Longrightarrow> x = y"
  shows "fold (\<lambda>x s. if p x then f x s else s) xs s = fold (\<lambda>x s. if p x then f x s else s) ys s"
  by (rule fold_permuted_eq [where P = "\<lambda>_. True", OF assms(2)]) (use assms(3) in auto)

lemma snoop_all_order:
  assumes "coherent b" and "peers_ok order b" and "mset order = mset order'"
  shows "snoop_all txn addr i order agg b = snoop_all txn addr i order' agg b"
proof -
  have ok: "peers_ok order' b"
    using assms(2) mset_eq_setD [OF assms(3)] mset_eq_imp_distinct_iff [OF assms(3)]
    by (simp add: peers_ok_def)
  have st: "set order' = set order" using mset_eq_setD [OF assms(3)] by simp
  have one: "x = y" if "x \<in> set order" "y \<in> set order" "flushes txn (lstate b x (line_of addr))"
    "flushes txn (lstate b y (line_of addr))" for x y
    using that assms(2) single_writerD(1) [OF coherent_lineD(1) [OF coherentD(2) [OF assms(1)]]]
    by (metis State.distinct(5) flushes_def peers_ok_def)
  have d: "distinct order" using assms(2) by (simp add: peers_ok_def)
  have "b_controllers (snd (snoop_all txn addr i order agg b))
      = b_controllers (snd (snoop_all txn addr i order' agg b))"
    using snoop_all_frame(4) [unfolded bus_n_cores_def]
      snoop_all_controller [OF assms(2)] snoop_all_controller [OF ok]
    by (intro nth_equalityI) (simp_all add: controller_def bus_n_cores_def st)
  moreover have "b_perf (snd (snoop_all txn addr i order agg b)) = b_perf (snd (snoop_all txn addr i order' agg b))"
    unfolding snoop_all_perf [OF assms(2)] snoop_all_perf [OF ok]
    by (rule fold_permuted_eq [where P = "\<lambda>_. True", OF assms(3)]) (simp_all add: snoop_perf_commute)
  moreover have "b_mem (snd (snoop_all txn addr i order agg b)) = b_mem (snd (snoop_all txn addr i order' agg b))"
    unfolding snoop_all_mem [OF assms(2)] snoop_all_mem [OF ok]
    by (rule fold_guard_order [OF d assms(3) one])
  moreover have "b_arb_ptr (snd (snoop_all txn addr i order agg b)) = b_arb_ptr (snd (snoop_all txn addr i order' agg b))"
    unfolding snoop_all_arb_ptr [OF assms(2)] snoop_all_arb_ptr [OF ok]
    by (rule fold_guard_order [OF d assms(3) one])
  ultimately have "snd (snoop_all txn addr i order agg b) = snd (snoop_all txn addr i order' agg b)"
    by (intro SnoopingBus.equality) (simp_all add: frame_simps)
  moreover have "fst (snoop_all txn addr i order agg b) = fst (snoop_all txn addr i order' agg b)"
    by (intro SnoopResult.equality)
      (simp_all add: snoop_all_had_copy [OF assms(2)] snoop_all_had_copy [OF ok]
        snoop_all_intervened [OF assms(2)] snoop_all_intervened [OF ok] st)
  ultimately show ?thesis by (rule prod_eqI [rotated])
qed

end
