(* ===== verification/Mesi_System.thy ===== *)
theory Mesi_System
  imports Coherence_Ops
begin

text \<open>
  The facade of \<^verbatim>\<open>model/mesi_system.hpp\<close> with the trace events of \<^verbatim>\<open>model/trace.hpp\<close>. A member
  \<^verbatim>\<open>x_\<close> is the field \<open>s_x\<close>. Each operation holds the mutex \<^verbatim>\<open>m_\<close> from the check of its core id to its
  return, so it is one function from the state before to the state after, and a concurrent execution
  is a sequence of operations in the order in which they acquire the mutex.
\<close>

section \<open>Trace events\<close>

datatype OpType = OpRead | OpWrite

record TraceEvent =
  core_id :: int
  ev_op :: OpType
  ev_addr :: u32
  ev_value :: u32
  timestamp :: u64
  program_idx :: u64

type_synonym Trace = "TraceEvent list"

section \<open>The class MesiSystem\<close>

record CasResult =
  old_val :: u32
  success :: bool

record MesiSystem =
  s_bus :: SnoopingBus
  s_timestamp :: u64
  s_tracing :: bool
  s_trace :: Trace
  s_prog_idx :: "u64 list"

definition checked_core_count :: "int \<Rightarrow> exn + nat" where
  "checked_core_count n =
     (if n \<le> 0 then Inl (Invalid_Argument ''MesiSystem needs at least one core'') else Inr (nat n))"

definition MesiSystem_new :: "int \<Rightarrow> exn + MesiSystem" where
  "MesiSystem_new n =
     (case checked_core_count n of
        Inl e \<Rightarrow> Inl e
      | Inr k \<Rightarrow> Inr \<lparr>s_bus = SnoopingBus_new k, s_timestamp = 0, s_tracing = False, s_trace = [],
                     s_prog_idx = replicate k 0\<rparr>)"

definition n_cores :: "MesiSystem \<Rightarrow> int" where
  "n_cores s = int (bus_n_cores (s_bus s))"

definition enable_tracing :: "bool \<Rightarrow> MesiSystem \<Rightarrow> MesiSystem" where
  "enable_tracing on s = s\<lparr>s_tracing := on\<rparr>"

definition clear_trace :: "MesiSystem \<Rightarrow> MesiSystem" where
  "clear_trace s =
     s\<lparr>s_trace := [], s_timestamp := 0, s_prog_idx := map (\<lambda>_. 0) (s_prog_idx s)\<rparr>"

definition MesiSystem_enable_race_injection ::
    "(u64 \<Rightarrow> shuffles) \<Rightarrow> u64 \<Rightarrow> MesiSystem \<Rightarrow> MesiSystem" where
  "MesiSystem_enable_race_injection engine seed s =
     s\<lparr>s_bus := SnoopingBus_enable_race_injection engine seed (s_bus s)\<rparr>"

definition core_error :: exn where
  "core_error = Out_Of_Range ''core id is outside the MESI system''"

definition validate_core :: "MesiSystem \<Rightarrow> int \<Rightarrow> bool" where
  "validate_core s core \<longleftrightarrow> \<not> (core < 0 \<or> core \<ge> n_cores s)"

definition MesiSystem_log :: "int \<Rightarrow> OpType \<Rightarrow> u32 \<Rightarrow> u32 \<Rightarrow> MesiSystem \<Rightarrow> MesiSystem" where
  "MesiSystem_log core op addr val s =
     (if \<not> s_tracing s then s\<lparr>s_timestamp := s_timestamp s + 1\<rparr>
      else
        let e = \<lparr>core_id = core, ev_op = op, ev_addr = addr, ev_value = val,
                 timestamp = s_timestamp s, program_idx = s_prog_idx s ! nat core\<rparr>;
            s = s\<lparr>s_timestamp := s_timestamp s + 1,
                  s_prog_idx := inc_at (nat core) (s_prog_idx s)\<rparr>
        in s\<lparr>s_trace := s_trace s @ [e]\<rparr>)"

definition MesiSystem_read :: "int \<Rightarrow> u32 \<Rightarrow> MesiSystem \<Rightarrow> exn + (u32 \<times> MesiSystem)" where
  "MesiSystem_read core addr s =
     (if \<not> validate_core s core then Inl core_error
      else
        let (v, b) = processor_read (nat core) addr (s_bus s);
            s = s\<lparr>s_bus := b\<rparr>;
            s = MesiSystem_log core OpRead addr v s
        in Inr (v, s))"

definition MesiSystem_write :: "int \<Rightarrow> u32 \<Rightarrow> u32 \<Rightarrow> MesiSystem \<Rightarrow> exn + MesiSystem" where
  "MesiSystem_write core addr val s =
     (if \<not> validate_core s core then Inl core_error
      else
        let s = s\<lparr>s_bus := processor_write (nat core) addr val (s_bus s)\<rparr>;
            s = MesiSystem_log core OpWrite addr val s
        in Inr s)"

definition MesiSystem_cas ::
    "int \<Rightarrow> u32 \<Rightarrow> u32 \<Rightarrow> u32 \<Rightarrow> MesiSystem \<Rightarrow> exn + (CasResult \<times> MesiSystem)" where
  "MesiSystem_cas core addr expected new_val s =
     (if \<not> validate_core s core then Inl core_error
      else
        let (old, b) = acquire_exclusive (nat core) addr (s_bus s);
            s = s\<lparr>s_bus := b\<rparr>;
            s = MesiSystem_log core OpRead addr old s;
            ok = (old = expected);
            s = (if ok then
                   let s = s\<lparr>s_bus := on_controller (nat core) (put_word addr new_val) (s_bus s)\<rparr>
                   in MesiSystem_log core OpWrite addr new_val s
                 else s)
        in Inr (\<lparr>old_val = old, success = ok\<rparr>, s))"

definition MesiSystem_fetch_and_add ::
    "int \<Rightarrow> u32 \<Rightarrow> u32 \<Rightarrow> MesiSystem \<Rightarrow> exn + (u32 \<times> MesiSystem)" where
  "MesiSystem_fetch_and_add core addr delta s =
     (if \<not> validate_core s core then Inl core_error
      else
        let (old, b) = acquire_exclusive (nat core) addr (s_bus s);
            s = s\<lparr>s_bus := b\<rparr>;
            s = MesiSystem_log core OpRead addr old s;
            s = s\<lparr>s_bus := on_controller (nat core) (put_word addr (old + delta)) (s_bus s)\<rparr>;
            s = MesiSystem_log core OpWrite addr (old + delta) s
        in Inr (old, s))"

definition MesiSystem_fence :: "int \<Rightarrow> MesiSystem \<Rightarrow> exn + MesiSystem" where
  "MesiSystem_fence core s = (if \<not> validate_core s core then Inl core_error else Inr s)"

text \<open>\<^verbatim>\<open>bus().register_addr(addr)\<close>, the only mutation clients perform through \<^verbatim>\<open>bus()\<close> on a live system.\<close>

definition MesiSystem_register :: "u32 \<Rightarrow> MesiSystem \<Rightarrow> MesiSystem" where
  "MesiSystem_register addr s = s\<lparr>s_bus := register_addr addr (s_bus s)\<rparr>"

lemmas [exec_simps] = checked_core_count_def MesiSystem_new_def n_cores_def enable_tracing_def
  clear_trace_def MesiSystem_enable_race_injection_def core_error_def validate_core_def
  MesiSystem_log_def MesiSystem_read_def MesiSystem_write_def MesiSystem_cas_def
  MesiSystem_fetch_and_add_def MesiSystem_fence_def MesiSystem_register_def

section \<open>Invariant and value\<close>

definition sys_ok :: "MesiSystem \<Rightarrow> bool" where
  "sys_ok s \<longleftrightarrow> coherent (s_bus s) \<and> length (s_prog_idx s) = bus_n_cores (s_bus s)"

definition sys_val :: "MesiSystem \<Rightarrow> u32 \<Rightarrow> u32" where
  "sys_val s = coherent_value (s_bus s)"

lemma log_frame [frame_simps]:
  "s_bus (MesiSystem_log c t a v s) = s_bus s"
  "s_tracing (MesiSystem_log c t a v s) = s_tracing s"
  "length (s_prog_idx (MesiSystem_log c t a v s)) = length (s_prog_idx s)"
  by (simp_all add: MesiSystem_log_def Let_def)

lemma log_bus_update [simp]:
  "(MesiSystem_log c t a v s)\<lparr>s_bus := b\<rparr> = MesiSystem_log c t a v (s\<lparr>s_bus := b\<rparr>)"
  by (simp add: MesiSystem_log_def Let_def)

lemma validate_core_nat: "validate_core s c \<longleftrightarrow> 0 \<le> c \<and> nat c < bus_n_cores (s_bus s)"
  by (auto simp: validate_core_def n_cores_def)

section \<open>The interface of an atomic shared memory\<close>

text \<open>
  What the clients of the facade rely on. Operations of a valid core do not throw; they act on the
  values \<open>val\<close> as the operations of a flat memory do, keep the invariant and keep the set of valid
  cores.
\<close>

locale shared_memory =
  fixes inv :: "'s \<Rightarrow> bool"
    and valid :: "'s \<Rightarrow> int \<Rightarrow> bool"
    and val :: "'s \<Rightarrow> u32 \<Rightarrow> u32"
    and rd :: "int \<Rightarrow> u32 \<Rightarrow> 's \<Rightarrow> exn + (u32 \<times> 's)"
    and wr :: "int \<Rightarrow> u32 \<Rightarrow> u32 \<Rightarrow> 's \<Rightarrow> exn + 's"
  assumes rd_ok: "inv s \<Longrightarrow> valid s c \<Longrightarrow>
      \<exists>s'. rd c a s = Inr (val s a, s') \<and> inv s' \<and> val s' = val s \<and> valid s' = valid s"
    and wr_ok: "inv s \<Longrightarrow> valid s c \<Longrightarrow>
      \<exists>s'. wr c a v s = Inr s' \<and> inv s' \<and> val s' = (val s)(a := v) \<and> valid s' = valid s"
begin

lemma rdD:
  assumes "rd c a s = Inr (v, s')" and "inv s" and "valid s c"
  shows "v = val s a" "inv s'" "val s' = val s" "valid s' = valid s"
  using rd_ok [OF assms(2,3), of a] assms(1) by auto

lemma wrD:
  assumes "wr c a v s = Inr s'" and "inv s" and "valid s c"
  shows "inv s'" "val s' = (val s)(a := v)" "valid s' = valid s"
  using wr_ok [OF assms(2,3), of a v] assms(1) by auto

text \<open>Read your own and everybody else's writes.\<close>

lemma rd_after_wr:
  assumes "wr c a v s = Inr s'" and "rd d x s' = Inr (w, s'')"
    and "inv s" and "valid s c" and "valid s d"
  shows "w = (if x = a then v else val s x)"
  using wrD [OF assms(1,3,4)] rdD(1) [OF assms(2)] assms(5) by simp

text \<open>A sequence of stores by one core reaches the memory in order.\<close>

lemma wr_all_ok:
  assumes "inv s" and "valid s c"
  shows "\<exists>s'. for_each (\<lambda>(a, v). wr c a v) es s = Inr s' \<and> inv s' \<and> valid s' = valid s
     \<and> val s' = fold (\<lambda>(a, v). flat_write a v) es (val s)"
  using assms
proof (induction es arbitrary: s)
  case (Cons e es)
  obtain a v where e: "e = (a, v)" by (cases e)
  obtain s1 where s1: "wr c a v s = Inr s1" "inv s1" "val s1 = (val s)(a := v)" "valid s1 = valid s"
    using wr_ok [OF Cons.prems] by blast
  with Cons.IH [of s1] Cons.prems(2) show ?case
    by (auto simp: e flat_write_def)
qed simp

lemma wr_all_val:
  assumes "for_each (\<lambda>(a, v). wr c a v) es s = Inr s'" and "inv s" and "valid s c"
  shows "inv s'" "valid s' = valid s"
    "val s' x = (case map_of (rev es) x of None \<Rightarrow> val s x | Some v \<Rightarrow> v)"
proof -
  obtain t where "for_each (\<lambda>(a, v). wr c a v) es s = Inr t" "inv t" "valid t = valid s"
    "val t = fold (\<lambda>(a, v). flat_write a v) es (val s)"
    using wr_all_ok [OF assms(2,3)] by blast
  with assms(1) flat.rd_fold_stores [of es "val s" x] show "inv s'" "valid s' = valid s"
    "val s' x = (case map_of (rev es) x of None \<Rightarrow> val s x | Some v \<Rightarrow> v)" by simp_all
qed

end

locale atomic_memory = shared_memory inv valid val rd wr
  for inv :: "'s \<Rightarrow> bool" and valid and val and rd and wr +
  fixes cas :: "int \<Rightarrow> u32 \<Rightarrow> u32 \<Rightarrow> u32 \<Rightarrow> 's \<Rightarrow> exn + (CasResult \<times> 's)"
    and faa :: "int \<Rightarrow> u32 \<Rightarrow> u32 \<Rightarrow> 's \<Rightarrow> exn + (u32 \<times> 's)"
  assumes cas_ok: "inv s \<Longrightarrow> valid s c \<Longrightarrow>
      \<exists>s'. cas c a e n s = Inr (\<lparr>old_val = val s a, success = (val s a = e)\<rparr>, s')
        \<and> inv s' \<and> val s' = (if val s a = e then (val s)(a := n) else val s) \<and> valid s' = valid s"
    and faa_ok: "inv s \<Longrightarrow> valid s c \<Longrightarrow>
      \<exists>s'. faa c a d s = Inr (val s a, s')
        \<and> inv s' \<and> val s' = (val s)(a := val s a + d) \<and> valid s' = valid s"
begin

lemma casD:
  assumes "cas c a e n s = Inr (r, s')" and "inv s" and "valid s c"
  shows "old_val r = val s a" "success r \<longleftrightarrow> val s a = e" "inv s'" "valid s' = valid s"
    "val s' = (if success r then (val s)(a := n) else val s)"
  using cas_ok [OF assms(2,3), of a e n] assms(1) by auto

lemma faaD:
  assumes "faa c a d s = Inr (v, s')" and "inv s" and "valid s c"
  shows "v = val s a" "inv s'" "val s' = (val s)(a := val s a + d)" "valid s' = valid s"
  using faa_ok [OF assms(2,3), of a d] assms(1) by auto

text \<open>Two failed or successful swaps by anybody never both take the same old value away.\<close>

lemma cas_once:
  assumes "cas c a e n s = Inr (r, s')" and "cas d a e m s' = Inr (r', s'')"
    and "inv s" and "valid s c" and "valid s d" and "n \<noteq> e"
  shows "\<not> (success r \<and> success r')"
  using casD [OF assms(1,3,4)] casD(2) [OF assms(2)] assms(5,6) by auto

end

section \<open>The facade is an atomic shared memory\<close>

lemma sys_okD:
  assumes "sys_ok s" and "validate_core s c"
  shows "coherent (s_bus s)" "nat c < bus_n_cores (s_bus s)"
  using assms by (simp_all add: sys_ok_def validate_core_nat)

lemma MesiSystem_read_ok:
  assumes "sys_ok s" and "validate_core s c"
  shows "\<exists>s'. MesiSystem_read c a s = Inr (sys_val s a, s') \<and> sys_ok s' \<and> sys_val s' = sys_val s
     \<and> validate_core s' = validate_core s"
  using port.rd [OF sys_okD [OF assms], of a] assms
  by (auto simp: MesiSystem_read_def case_prod_beta Let_def sys_ok_def sys_val_def frame_simps
      validate_core_nat fun_eq_iff)

lemma MesiSystem_write_ok:
  assumes "sys_ok s" and "validate_core s c"
  shows "\<exists>s'. MesiSystem_write c a v s = Inr s' \<and> sys_ok s' \<and> sys_val s' = (sys_val s)(a := v)
     \<and> validate_core s' = validate_core s"
  using processor_write_coherent [OF sys_okD [OF assms], of a v] assms
  by (auto simp: MesiSystem_write_def Let_def sys_ok_def sys_val_def frame_simps validate_core_nat
      fun_eq_iff)

lemma MesiSystem_cas_ok:
  assumes "sys_ok s" and "validate_core s c"
  shows "\<exists>s'. MesiSystem_cas c a e n s
       = Inr (\<lparr>old_val = sys_val s a, success = (sys_val s a = e)\<rparr>, s')
     \<and> sys_ok s' \<and> sys_val s' = (if sys_val s a = e then (sys_val s)(a := n) else sys_val s)
     \<and> validate_core s' = validate_core s"
  using port.acq [OF sys_okD [OF assms], of a] port.rmw [OF sys_okD [OF assms], of a n] assms
  by (auto simp: MesiSystem_cas_def case_prod_beta Let_def sys_ok_def sys_val_def frame_simps
      validate_core_nat fun_eq_iff)

lemma MesiSystem_faa_ok:
  assumes "sys_ok s" and "validate_core s c"
  shows "\<exists>s'. MesiSystem_fetch_and_add c a d s = Inr (sys_val s a, s')
     \<and> sys_ok s' \<and> sys_val s' = (sys_val s)(a := sys_val s a + d)
     \<and> validate_core s' = validate_core s"
  using port.acq [OF sys_okD [OF assms], of a]
    port.rmw [OF sys_okD [OF assms], of a "sys_val s a + d"] assms
  by (auto simp: MesiSystem_fetch_and_add_def case_prod_beta Let_def sys_ok_def sys_val_def
      frame_simps validate_core_nat fun_eq_iff)

interpretation sys: atomic_memory sys_ok validate_core sys_val MesiSystem_read MesiSystem_write
  MesiSystem_cas MesiSystem_fetch_and_add
  by unfold_locales
    (rule MesiSystem_read_ok MesiSystem_write_ok MesiSystem_cas_ok MesiSystem_faa_ok; assumption)+

lemma MesiSystem_throws:
  assumes "\<not> validate_core s c"
  shows "MesiSystem_read c a s = Inl core_error" "MesiSystem_write c a v s = Inl core_error"
    "MesiSystem_cas c a e n s = Inl core_error" "MesiSystem_fetch_and_add c a d s = Inl core_error"
    "MesiSystem_fence c s = Inl core_error"
  using assms by (simp_all add: MesiSystem_read_def MesiSystem_write_def MesiSystem_cas_def
      MesiSystem_fetch_and_add_def MesiSystem_fence_def)

section \<open>Calls and reachable systems\<close>

text \<open>The calls a client can make and what it observes of a call. A call that throws leaves the state as
  it was.\<close>

datatype sys_call =
    Call_read int u32
  | Call_write int u32 u32
  | Call_cas int u32 u32 u32
  | Call_faa int u32 u32
  | Call_fence int
  | Call_tracing bool
  | Call_clear
  | Call_race shuffles
  | Call_register u32

datatype outcome = Done | Value u32 | Swapped u32 bool | Thrown exn

text \<open>
  Every method that takes a core id calls \<^verbatim>\<open>validate_core\<close> first, before it touches the system, and a
  method throws nothing after that (\<open>MesiSystem_read_ok\<close> and its siblings). So the state after a call that
  throws is the state before it; this is read off the order of the statements, not proved.
\<close>

definition lift_unit :: "MesiSystem \<Rightarrow> exn + MesiSystem \<Rightarrow> outcome \<times> MesiSystem" where
  "lift_unit s r = (case r of Inl e \<Rightarrow> (Thrown e, s) | Inr s' \<Rightarrow> (Done, s'))"

definition lift_value :: "MesiSystem \<Rightarrow> exn + (u32 \<times> MesiSystem) \<Rightarrow> outcome \<times> MesiSystem" where
  "lift_value s r = (case r of Inl e \<Rightarrow> (Thrown e, s) | Inr (v, s') \<Rightarrow> (Value v, s'))"

definition lift_cas :: "MesiSystem \<Rightarrow> exn + (CasResult \<times> MesiSystem) \<Rightarrow> outcome \<times> MesiSystem" where
  "lift_cas s r =
     (case r of Inl e \<Rightarrow> (Thrown e, s) | Inr (c, s') \<Rightarrow> (Swapped (old_val c) (success c), s'))"

fun exec_call :: "sys_call \<Rightarrow> MesiSystem \<Rightarrow> outcome \<times> MesiSystem" where
  "exec_call (Call_read c a) s = lift_value s (MesiSystem_read c a s)"
| "exec_call (Call_write c a v) s = lift_unit s (MesiSystem_write c a v s)"
| "exec_call (Call_cas c a e n) s = lift_cas s (MesiSystem_cas c a e n s)"
| "exec_call (Call_faa c a d) s = lift_value s (MesiSystem_fetch_and_add c a d s)"
| "exec_call (Call_fence c) s = lift_unit s (MesiSystem_fence c s)"
| "exec_call (Call_tracing on) s = (Done, enable_tracing on s)"
| "exec_call Call_clear s = (Done, clear_trace s)"
| "exec_call (Call_race g) s = (Done, MesiSystem_enable_race_injection (\<lambda>_. g) 0 s)"
| "exec_call (Call_register a) s = (Done, MesiSystem_register a s)"

fun exec_calls :: "sys_call list \<Rightarrow> MesiSystem \<Rightarrow> outcome list \<times> MesiSystem" where
  "exec_calls [] s = ([], s)"
| "exec_calls (c # cs) s =
     (let (r, s') = exec_call c s; (rs, s'') = exec_calls cs s' in (r # rs, s''))"

fun call_ok :: "sys_call \<Rightarrow> bool" where
  "call_ok (Call_race g) = shuffles_ok g"
| "call_ok _ = True"

text \<open>The states a client can bring a system of \<open>n\<close> cores into.\<close>

inductive reachable :: "int \<Rightarrow> MesiSystem \<Rightarrow> bool" for n where
  reach_new: "MesiSystem_new n = Inr s \<Longrightarrow> reachable n s"
| reach_call: "reachable n s \<Longrightarrow> call_ok c \<Longrightarrow> exec_call c s = (r, s') \<Longrightarrow> reachable n s'"

lemmas [exec_simps] = lift_unit_def lift_value_def lift_cas_def

text \<open>The specification: the same calls on a flat memory of \<open>n\<close> cores.\<close>

definition flat_guard :: "int \<Rightarrow> int \<Rightarrow> outcome \<times> (u32 \<Rightarrow> u32) \<Rightarrow> (u32 \<Rightarrow> u32) \<Rightarrow> outcome \<times> (u32 \<Rightarrow> u32)" where
  "flat_guard n c r m = (if 0 \<le> c \<and> c < n then r else (Thrown core_error, m))"

fun flat_call :: "int \<Rightarrow> sys_call \<Rightarrow> (u32 \<Rightarrow> u32) \<Rightarrow> outcome \<times> (u32 \<Rightarrow> u32)" where
  "flat_call n (Call_read c a) m = flat_guard n c (Value (m a), m) m"
| "flat_call n (Call_write c a v) m = flat_guard n c (Done, m(a := v)) m"
| "flat_call n (Call_cas c a e x) m =
     flat_guard n c (Swapped (m a) (m a = e), if m a = e then m(a := x) else m) m"
| "flat_call n (Call_faa c a d) m = flat_guard n c (Value (m a), m(a := m a + d)) m"
| "flat_call n (Call_fence c) m = flat_guard n c (Done, m) m"
| "flat_call n _ m = (Done, m)"

fun flat_calls :: "int \<Rightarrow> sys_call list \<Rightarrow> (u32 \<Rightarrow> u32) \<Rightarrow> outcome list \<times> (u32 \<Rightarrow> u32)" where
  "flat_calls n [] m = ([], m)"
| "flat_calls n (c # cs) m =
     (let (r, m') = flat_call n c m; (rs, m'') = flat_calls n cs m' in (r # rs, m''))"

lemma MesiSystem_newD:
  assumes "MesiSystem_new n = Inr s"
  shows "sys_ok s" "sys_val s = (\<lambda>_. 0)" "n_cores s = n" "0 < n" "s_trace s = []" "s_timestamp s = 0"
    "\<not> s_tracing s" "s_prog_idx s = replicate (nat n) 0"
  using assms
  by (auto simp: MesiSystem_new_def checked_core_count_def sys_ok_def sys_val_def coherent_new
      coherent_value_new n_cores_def split: if_splits)

lemma coherent_race:
  assumes "coherent b" and "shuffles_ok g"
  shows "coherent (b\<lparr>b_race := True, b_rng := g\<rparr>)"
    and "coherent_value (b\<lparr>b_race := True, b_rng := g\<rparr>) = coherent_value b"
proof -
  let ?b = "b\<lparr>b_race := True, b_rng := g\<rparr>"
  have s: "same_line b ?b l" for l
    by (simp add: same_line_def bus_n_cores_def controller_def registered_def words_in_line_def)
  have "bus_wf ?b"
    using coherentD(1) [OF assms(1)] assms(2)
    by (simp add: bus_wf_def bus_n_cores_def controller_def words_in_line_def)
  with same_line_coherent [OF s coherentD(2) [OF assms(1)]] show "coherent ?b"
    by (simp add: coherent_def)
  show "coherent_value ?b = coherent_value b"
    by (simp add: coherent_value_def fun_eq_iff cong: option.case_cong)
qed

lemma validate_core_eq: "validate_core s c \<longleftrightarrow> 0 \<le> c \<and> c < n_cores s"
  by (auto simp: validate_core_def)

lemma n_cores_eqI:
  assumes "validate_core s' = validate_core s"
  shows "n_cores s' = n_cores s"
proof -
  have "(0 \<le> c \<and> c < n_cores s') = (0 \<le> c \<and> c < n_cores s)" for c
    using fun_cong [OF assms, of c] by (simp add: validate_core_eq)
  from this [of "n_cores s"] this [of "n_cores s'"] show ?thesis
    by (simp add: n_cores_def)
qed

text \<open>One call: the system refines the flat memory, the invariant is kept.\<close>

lemma exec_call_refines:
  assumes "sys_ok s" and "call_ok c"
  shows "sys_ok (snd (exec_call c s)) \<and> n_cores (snd (exec_call c s)) = n_cores s
    \<and> flat_call (n_cores s) c (sys_val s) = (fst (exec_call c s), sys_val (snd (exec_call c s)))"
proof (cases c)
  case (Call_read k a)
  then show ?thesis
    using MesiSystem_read_ok [OF assms(1), of k a] MesiSystem_throws(1) [of s k a] assms(1)
    by (cases "validate_core s k")
      (auto simp: lift_value_def flat_guard_def validate_core_eq dest: n_cores_eqI)
next
  case (Call_write k a v)
  then show ?thesis
    using MesiSystem_write_ok [OF assms(1), of k a v] MesiSystem_throws(2) [of s k a v] assms(1)
    by (cases "validate_core s k")
      (auto simp: lift_unit_def flat_guard_def validate_core_eq dest: n_cores_eqI)
next
  case (Call_cas k a e x)
  then show ?thesis
    using MesiSystem_cas_ok [OF assms(1), of k a e x] MesiSystem_throws(3) [of s k a e x] assms(1)
    by (cases "validate_core s k")
      (auto simp: lift_cas_def flat_guard_def validate_core_eq dest: n_cores_eqI)
next
  case (Call_faa k a d)
  then show ?thesis
    using MesiSystem_faa_ok [OF assms(1), of k a d] MesiSystem_throws(4) [of s k a d] assms(1)
    by (cases "validate_core s k")
      (auto simp: lift_value_def flat_guard_def validate_core_eq dest: n_cores_eqI)
next
  case (Call_fence k)
  then show ?thesis
    using assms(1) by (auto simp: MesiSystem_fence_def lift_unit_def flat_guard_def validate_core_eq)
next
  case (Call_race g)
  then show ?thesis
    using assms coherent_race [of "s_bus s" g]
    by (simp add: MesiSystem_enable_race_injection_def SnoopingBus_enable_race_injection_def
        sys_ok_def sys_val_def n_cores_def bus_n_cores_def)
next
  case (Call_register a)
  then show ?thesis
    using assms coherent_register [of "s_bus s" a]
    by (simp add: MesiSystem_register_def sys_ok_def sys_val_def n_cores_def frame_simps)
qed (use assms in \<open>simp_all add: enable_tracing_def clear_trace_def sys_ok_def sys_val_def n_cores_def\<close>)

lemma exec_calls_refines:
  assumes "sys_ok s" and "list_all call_ok cs"
  shows "sys_ok (snd (exec_calls cs s)) \<and> n_cores (snd (exec_calls cs s)) = n_cores s
    \<and> flat_calls (n_cores s) cs (sys_val s) = (fst (exec_calls cs s), sys_val (snd (exec_calls cs s)))"
  using assms
proof (induction cs arbitrary: s)
  case (Cons c cs)
  have c: "call_ok c" and cs: "list_all call_ok cs" using Cons.prems(2) by simp_all
  note step = exec_call_refines [OF Cons.prems(1) c]
  note rest = Cons.IH [OF conjunct1 [OF step] cs]
  from step rest show ?case by (simp add: case_prod_beta)
qed simp

lemma reachable_ok: "reachable n s \<Longrightarrow> sys_ok s \<and> n_cores s = n \<and> 0 < n"
proof (induction rule: reachable.induct)
  case (reach_new s)
  then show ?case by (simp add: MesiSystem_newD)
next
  case (reach_call s c r s')
  with exec_call_refines [of s c] show ?case by auto
qed

lemma reachable_calls:
  "reachable n s \<Longrightarrow> list_all call_ok cs \<Longrightarrow> reachable n (snd (exec_calls cs s))"
proof (induction cs arbitrary: s)
  case (Cons c cs)
  then show ?case
    using reach_call [of n s c "fst (exec_call c s)" "snd (exec_call c s)"] by (simp add: case_prod_beta)
qed simp

end
