(* ===== verification/Mutex.thy ===== *)
theory Mutex
  imports Mesi_System
begin

text \<open>
  The handle of \<^verbatim>\<open>primitives/dut.hpp\<close>, the spinlocks of \<^verbatim>\<open>primitives/spinlock.hpp\<close> and
  \<^verbatim>\<open>primitives/ticket_lock.hpp\<close>, and the workers that use a lock to protect a counter
  (\<^verbatim>\<open>emit_lock_scalability_csv\<close> in \<^verbatim>\<open>model/model_main.cpp\<close>).

  Between two accesses of one thread to the coherent memory other threads may run. So the code of a
  lock is cut at its accesses: a step function runs one access and the code up to the next one, and
  the threads interleave their steps in any order. What a client may rely on is the locale \<open>mutex\<close>.
\<close>

section \<open>The handle Dut\<close>

text \<open>A handle is the core id; the system it points to is passed as the state.\<close>

definition Dut_read :: "int \<Rightarrow> u32 \<Rightarrow> MesiSystem \<Rightarrow> exn + (u32 \<times> MesiSystem)" where
  "Dut_read core addr s = MesiSystem_read core addr s"

definition Dut_write :: "int \<Rightarrow> u32 \<Rightarrow> u32 \<Rightarrow> MesiSystem \<Rightarrow> exn + MesiSystem" where
  "Dut_write core addr v s = MesiSystem_write core addr v s"

definition Dut_cas_full :: "int \<Rightarrow> u32 \<Rightarrow> u32 \<Rightarrow> u32 \<Rightarrow> MesiSystem \<Rightarrow> exn + (CasResult \<times> MesiSystem)" where
  "Dut_cas_full core addr expected new_val s = MesiSystem_cas core addr expected new_val s"

definition Dut_cas :: "int \<Rightarrow> u32 \<Rightarrow> u32 \<Rightarrow> u32 \<Rightarrow> MesiSystem \<Rightarrow> exn + (bool \<times> MesiSystem)" where
  "Dut_cas core addr expected new_val s =
     sbind (MesiSystem_cas core addr expected new_val s) (\<lambda>(r, s). Inr (success r, s))"

definition Dut_faa :: "int \<Rightarrow> u32 \<Rightarrow> u32 \<Rightarrow> MesiSystem \<Rightarrow> exn + (u32 \<times> MesiSystem)" where
  "Dut_faa core addr delta s = MesiSystem_fetch_and_add core addr delta s"

definition Dut_fence :: "int \<Rightarrow> MesiSystem \<Rightarrow> exn + MesiSystem" where
  "Dut_fence core s = MesiSystem_fence core s"

lemmas [exec_simps] = Dut_read_def Dut_write_def Dut_cas_full_def Dut_cas_def Dut_faa_def Dut_fence_def

lemma Dut_cas_ok:
  assumes "sys_ok s" and "validate_core s c"
  shows "\<exists>s'. Dut_cas c a e n s = Inr (sys_val s a = e, s') \<and> sys_ok s' \<and> validate_core s' = validate_core s
     \<and> sys_val s' = (if sys_val s a = e then (sys_val s)(a := n) else sys_val s)"
  using MesiSystem_cas_ok [OF assms, of a e n] by (auto simp: Dut_cas_def)

lemma Dut_read_ok:
  assumes "sys_ok s" and "validate_core s c"
  shows "\<exists>s'. Dut_read c a s = Inr (sys_val s a, s') \<and> sys_ok s' \<and> validate_core s' = validate_core s
     \<and> sys_val s' = sys_val s"
  using MesiSystem_read_ok [OF assms, of a] by (auto simp: Dut_read_def)

lemma Dut_write_ok:
  assumes "sys_ok s" and "validate_core s c"
  shows "\<exists>s'. Dut_write c a v s = Inr s' \<and> sys_ok s' \<and> validate_core s' = validate_core s
     \<and> sys_val s' = (sys_val s)(a := v)"
  using MesiSystem_write_ok [OF assms, of a v] by (auto simp: Dut_write_def)

lemma Dut_faa_ok:
  assumes "sys_ok s" and "validate_core s c"
  shows "\<exists>s'. Dut_faa c a d s = Inr (sys_val s a, s') \<and> sys_ok s' \<and> validate_core s' = validate_core s
     \<and> sys_val s' = (sys_val s)(a := sys_val s a + d)"
  using MesiSystem_faa_ok [OF assms, of a d] by (auto simp: Dut_faa_def)

section \<open>TASLock\<close>

text \<open>Where \<^verbatim>\<open>TASLock::lock\<close> stands: before the compare-and-swap or in the inner spin. A step either
  stays in the function (\<open>Inl\<close>) or returns from it (\<open>Inr\<close>).\<close>

datatype tas_pc = Tas_cas | Tas_spin

fun TASLock_lock :: "u32 \<Rightarrow> int \<Rightarrow> tas_pc \<Rightarrow> MesiSystem \<Rightarrow> exn + ((tas_pc + unit) \<times> MesiSystem)" where
  "TASLock_lock flag_addr d Tas_cas s =
     sbind (Dut_cas d flag_addr 0 1 s) (\<lambda>(ok, s). Inr (if ok then Inr () else Inl Tas_spin, s))"
| "TASLock_lock flag_addr d Tas_spin s =
     sbind (Dut_read d flag_addr s) (\<lambda>(v, s). Inr (Inl (if v = 1 then Tas_spin else Tas_cas), s))"

definition TASLock_unlock :: "u32 \<Rightarrow> int \<Rightarrow> MesiSystem \<Rightarrow> exn + MesiSystem" where
  "TASLock_unlock flag_addr d s = Dut_write d flag_addr 0 s"

section \<open>TicketLock\<close>

datatype ticket_pc = Ticket_take | Ticket_wait u32

fun TicketLock_lock ::
    "u32 \<Rightarrow> u32 \<Rightarrow> int \<Rightarrow> ticket_pc \<Rightarrow> MesiSystem \<Rightarrow> exn + ((ticket_pc + u32) \<times> MesiSystem)" where
  "TicketLock_lock next_ticket_addr now_serving_addr d Ticket_take s =
     sbind (Dut_faa d next_ticket_addr 1 s) (\<lambda>(my, s). Inr (Inl (Ticket_wait my), s))"
| "TicketLock_lock next_ticket_addr now_serving_addr d (Ticket_wait my) s =
     sbind (Dut_read d now_serving_addr s)
       (\<lambda>(v, s). Inr (if v \<noteq> my then Inl (Ticket_wait my) else Inr my, s))"

definition TicketLock_unlock :: "u32 \<Rightarrow> int \<Rightarrow> MesiSystem \<Rightarrow> exn + MesiSystem" where
  "TicketLock_unlock now_serving_addr d s =
     sbind (Dut_faa d now_serving_addr 1 s) (\<lambda>(_, s). Inr s)"

section \<open>Workers\<close>

text \<open>
  The worker of the scalability run: \<open>K\<close> rounds of lock, increment of the counter, unlock. A worker
  stands before its next access; \<open>k\<close> is the number of rounds after the current one.
\<close>

datatype ('l, 'r) worker =
    W_lock nat 'l
  | W_read nat 'r
  | W_write nat 'r u32
  | W_unlock nat 'r
  | W_done

fun next_round :: "'l \<Rightarrow> nat \<Rightarrow> ('l, 'r) worker" where
  "next_round start 0 = W_done"
| "next_round start (Suc k) = W_lock k start"

fun worker_step ::
    "'l \<Rightarrow> (int \<Rightarrow> 'l \<Rightarrow> MesiSystem \<Rightarrow> exn + (('l + 'r) \<times> MesiSystem)) \<Rightarrow> (int \<Rightarrow> MesiSystem \<Rightarrow> exn + MesiSystem)
     \<Rightarrow> u32 \<Rightarrow> int \<Rightarrow> ('l, 'r) worker \<Rightarrow> MesiSystem \<Rightarrow> exn + (('l, 'r) worker \<times> MesiSystem)" where
  "worker_step start lock unlock ctr d (W_lock k l) s =
     sbind (lock d l s) (\<lambda>(r, s). Inr (case r of Inl l' \<Rightarrow> W_lock k l' | Inr h \<Rightarrow> W_read k h, s))"
| "worker_step start lock unlock ctr d (W_read k h) s =
     sbind (Dut_read d ctr s) (\<lambda>(v, s). Inr (W_write k h v, s))"
| "worker_step start lock unlock ctr d (W_write k h v) s =
     sbind (Dut_write d ctr (v + 1) s) (\<lambda>s. Inr (W_unlock k h, s))"
| "worker_step start lock unlock ctr d (W_unlock k h) s =
     sbind (unlock d s) (\<lambda>s. Inr (next_round start k, s))"
| "worker_step start lock unlock ctr d W_done s = Inr (W_done, s)"

text \<open>Threads in a pool take their steps in any order.\<close>

inductive pool_step ::
    "(int \<Rightarrow> 'w \<Rightarrow> MesiSystem \<Rightarrow> exn + ('w \<times> MesiSystem)) \<Rightarrow> MesiSystem \<times> 'w list \<Rightarrow> MesiSystem \<times> 'w list \<Rightarrow> bool"
  for act where
  pool: "k < length ws \<Longrightarrow> act (int k) (ws ! k) s = Inr (w, s') \<Longrightarrow> pool_step act (s, ws) (s', ws[k := w])"

inductive_cases pool_stepE: "pool_step act (s, ws) st'"

section \<open>What a lock promises\<close>

text \<open>Where a thread stands with respect to one lock.\<close>

datatype ('l, 'r) phase = Outside | Trying 'l | Inside 'r

definition phase_of :: "'l + 'r \<Rightarrow> ('l, 'r) phase" where
  "phase_of r = (case r of Inl l \<Rightarrow> Trying l | Inr h \<Rightarrow> Inside h)"

fun worker_phase :: "('l, 'r) worker \<Rightarrow> ('l, 'r) phase" where
  "worker_phase (W_lock k l) = Trying l"
| "worker_phase (W_read k h) = Inside h"
| "worker_phase (W_write k h v) = Inside h"
| "worker_phase (W_unlock k h) = Inside h"
| "worker_phase W_done = Outside"

fun pending :: "('l, 'r) worker \<Rightarrow> nat" where
  "pending (W_lock k l) = Suc k"
| "pending (W_read k h) = Suc k"
| "pending (W_write k h v) = Suc k"
| "pending (W_unlock k h) = k"
| "pending W_done = 0"

lemma next_round_simps [simp]:
  "pending (next_round l k) = k" "next_round l k \<noteq> W_write j h v"
  "worker_phase (next_round l k) = (if k = 0 then Outside else Trying l)"
  by (cases k; simp)+

definition counting_inv ::
    "nat \<Rightarrow> (('l, 'r) phase list \<Rightarrow> (u32 \<Rightarrow> u32) \<Rightarrow> bool) \<Rightarrow> u32 \<Rightarrow> u32 \<Rightarrow> MesiSystem \<times> ('l, 'r) worker list \<Rightarrow> bool" where
  "counting_inv n linv ctr aim st \<longleftrightarrow> (case st of (s, ws) \<Rightarrow>
     sys_ok s \<and> length ws = n \<and> (\<forall>i < n. validate_core s (int i))
     \<and> linv (map worker_phase ws) (sys_val s)
     \<and> sys_val s ctr + of_nat (\<Sum>w\<leftarrow>ws. pending w) = aim
     \<and> (\<forall>i < n. \<forall>k h v. ws ! i = W_write k h v \<longrightarrow> v = sys_val s ctr))"

text \<open>
  \<open>linv ph m\<close> is the lock's invariant for \<open>n\<close> threads in the phases \<open>ph\<close> over the memory \<open>m\<close>. It
  allows one thread inside. The lock's operations return, keep it and leave the memory outside
  \<open>words\<close> alone; nobody else writes \<open>words\<close>.
\<close>

locale mutex =
  fixes n :: nat
    and start :: 'l
    and step :: "int \<Rightarrow> 'l \<Rightarrow> MesiSystem \<Rightarrow> exn + (('l + 'r) \<times> MesiSystem)"
    and unlock :: "int \<Rightarrow> MesiSystem \<Rightarrow> exn + MesiSystem"
    and words :: "u32 set"
    and linv :: "('l, 'r) phase list \<Rightarrow> (u32 \<Rightarrow> u32) \<Rightarrow> bool"
  assumes exclusive: "linv ph m \<Longrightarrow> length ph = n \<Longrightarrow> i < n \<Longrightarrow> j < n \<Longrightarrow> ph ! i = Inside x \<Longrightarrow> ph ! j = Inside y \<Longrightarrow> i = j"
    and enter: "linv ph m \<Longrightarrow> length ph = n \<Longrightarrow> i < n \<Longrightarrow> ph ! i = Outside \<Longrightarrow> linv (ph[i := Trying start]) m"
    and stepped: "linv ph (sys_val s) \<Longrightarrow> length ph = n \<Longrightarrow> i < n \<Longrightarrow> ph ! i = Trying l \<Longrightarrow> sys_ok s
      \<Longrightarrow> validate_core s (int i) \<Longrightarrow>
      \<exists>r s'. step (int i) l s = Inr (r, s') \<and> sys_ok s' \<and> validate_core s' = validate_core s
        \<and> linv (ph[i := phase_of r]) (sys_val s') \<and> (\<forall>a. a \<notin> words \<longrightarrow> sys_val s' a = sys_val s a)"
    and left: "linv ph (sys_val s) \<Longrightarrow> length ph = n \<Longrightarrow> i < n \<Longrightarrow> ph ! i = Inside x \<Longrightarrow> sys_ok s
      \<Longrightarrow> validate_core s (int i) \<Longrightarrow>
      \<exists>s'. unlock (int i) s = Inr s' \<and> sys_ok s' \<and> validate_core s' = validate_core s
        \<and> linv (ph[i := Outside]) (sys_val s') \<and> (\<forall>a. a \<notin> words \<longrightarrow> sys_val s' a = sys_val s a)"
    and frame: "linv ph m \<Longrightarrow> (\<And>a. a \<in> words \<Longrightarrow> m' a = m a) \<Longrightarrow> linv ph m'"
begin

text \<open>A step of worker \<open>i\<close> to \<open>w\<close> that keeps the lock's invariant and the count.\<close>

lemma counting_update:
  assumes "counting_inv n linv ctr aim (s, ws)" and "i < n" and "sys_ok s'"
    and "validate_core s' = validate_core s"
    and "linv (map worker_phase (ws[i := w])) (sys_val s')"
    and "sys_val s' ctr + of_nat (pending w) = sys_val s ctr + of_nat (pending (ws ! i))"
    and "\<And>k h v. w = W_write k h v \<Longrightarrow> v = sys_val s' ctr"
    and "\<And>j k h v. j < n \<Longrightarrow> j \<noteq> i \<Longrightarrow> ws ! j = W_write k h v \<Longrightarrow> v = sys_val s' ctr"
  shows "counting_inv n linv ctr aim (s', ws[i := w])"
proof -
  have c: "length ws = n" "\<forall>j < n. validate_core s (int j)"
    "sys_val s ctr + of_nat (\<Sum>w\<leftarrow>ws. pending w) = aim"
    using assms(1) by (simp_all add: counting_inv_def)
  have "(\<Sum>w\<leftarrow>ws[i := w]. pending w) + pending (ws ! i) = (\<Sum>w\<leftarrow>ws. pending w) + pending w"
    using c(1) assms(2) by (intro sum_list_map_update) simp
  then have "of_nat (\<Sum>w\<leftarrow>ws[i := w]. pending w) + of_nat (pending (ws ! i))
      = (of_nat (\<Sum>w\<leftarrow>ws. pending w) + of_nat (pending w) :: u32)"
    by (metis of_nat_add)
  then have "sys_val s' ctr + of_nat (\<Sum>w\<leftarrow>ws[i := w]. pending w) = aim"
    using balance [OF assms(6)] c(3) by simp
  with assms c(1,2) show ?thesis by (auto simp: counting_inv_def nth_list_update_if)
qed

text \<open>Every step of a worker returns, and it keeps the count: what the counter holds and what is still to
  be added make \<open>aim\<close>.\<close>

lemma counting_step:
  assumes "counting_inv n linv ctr aim (s, ws)" and "ctr \<notin> words" and "i < n"
  shows "\<exists>w s'. worker_step start step unlock ctr (int i) (ws ! i) s = Inr (w, s')
    \<and> counting_inv n linv ctr aim (s', ws[i := w])"
proof -
  have c: "sys_ok s" "length ws = n" "validate_core s (int i)" "linv (map worker_phase ws) (sys_val s)"
    "\<And>j k h v. j < n \<Longrightarrow> ws ! j = W_write k h v \<Longrightarrow> v = sys_val s ctr"
    using assms(1,3) by (auto simp: counting_inv_def)
  note update = counting_update [OF assms(1,3)]
  have ph: "length (map worker_phase ws) = n" "map worker_phase ws ! i = worker_phase (ws ! i)"
    using c(2) assms(3) by simp_all
  have same: "(map worker_phase ws)[i := Inside h] = map worker_phase ws" if "worker_phase (ws ! i) = Inside h" for h
    using list_update_id [of "map worker_phase ws" i] ph(2) that by simp
  have alone: False if "ws ! i = W_write k h v" "j < n" "j \<noteq> i" "ws ! j = W_write k' h' v'" for j k h v k' h' v'
    using exclusive [OF c(4) ph(1) assms(3) that(2), of h h'] that c(2) assms(3) by simp
  show ?thesis
  proof (cases "ws ! i")
    case (W_lock k l)
    obtain r s' where s': "step (int i) l s = Inr (r, s')" "sys_ok s'" "validate_core s' = validate_core s"
      "linv ((map worker_phase ws)[i := phase_of r]) (sys_val s')" "sys_val s' ctr = sys_val s ctr"
      using stepped [OF c(4) ph(1) assms(3) _ c(1,3), of l] ph(2) W_lock assms(2) by auto
    let ?w = "case r of Inl l' \<Rightarrow> W_lock k l' | Inr h \<Rightarrow> W_read k h"
    have "worker_phase ?w = phase_of r" by (cases r) (simp_all add: phase_of_def)
    then have "counting_inv n linv ctr aim (s', ws[i := ?w])"
      using s' W_lock c(5) by (intro update) (auto simp: map_update split: sum.splits)
    with s'(1) W_lock show ?thesis by simp
  next
    case (W_read k h)
    obtain s' where s': "Dut_read (int i) ctr s = Inr (sys_val s ctr, s')" "sys_ok s'"
      "validate_core s' = validate_core s" "sys_val s' = sys_val s"
      using Dut_read_ok [OF c(1,3)] by blast
    have "counting_inv n linv ctr aim (s', ws[i := W_write k h (sys_val s ctr)])"
      using s' W_read c(4,5) by (intro update) (auto simp: map_update same)
    with s'(1) W_read show ?thesis by simp
  next
    case (W_write k h v)
    then have v: "v = sys_val s ctr" using c(5) assms(3) by blast
    obtain s' where s': "Dut_write (int i) ctr (v + 1) s = Inr s'" "sys_ok s'"
      "validate_core s' = validate_core s" "sys_val s' = (sys_val s)(ctr := v + 1)"
      using Dut_write_ok [OF c(1,3)] by blast
    have "linv (map worker_phase ws) (sys_val s')" by (rule frame [OF c(4)]) (use s'(4) assms(2) in auto)
    then have "counting_inv n linv ctr aim (s', ws[i := W_unlock k h])"
      using s' W_write v alone [OF W_write] by (intro update) (auto simp: map_update same)
    with s'(1) W_write show ?thesis by simp
  next
    case (W_unlock k h)
    obtain s' where s': "unlock (int i) s = Inr s'" "sys_ok s'" "validate_core s' = validate_core s"
      "linv ((map worker_phase ws)[i := Outside]) (sys_val s')" "sys_val s' ctr = sys_val s ctr"
      using left [OF c(4) ph(1) assms(3) _ c(1,3), of h] ph(2) W_unlock assms(2) by auto
    have "linv ((map worker_phase ws)[i := worker_phase (next_round start k)]) (sys_val s')"
      using s'(4) enter [OF s'(4), of i] ph(1) assms(3) by simp
    then have "counting_inv n linv ctr aim (s', ws[i := next_round start k])"
      using s' W_unlock c(5) by (intro update) (auto simp: map_update)
    with s'(1) W_unlock show ?thesis by simp
  next
    case W_done
    then have "ws[i := W_done] = ws" using c(2) assms(3) by (simp add: list_update_same_conv)
    with W_done assms(1) show ?thesis by simp
  qed
qed

lemma counting_pool:
  assumes "(pool_step (worker_step start step unlock ctr))\<^sup>*\<^sup>* st st'"
    and "counting_inv n linv ctr aim st" and "ctr \<notin> words"
  shows "counting_inv n linv ctr aim st'"
  using assms
proof (induction rule: rtranclp_induct)
  case (step st' st'')
  obtain s ws where st': "st' = (s, ws)" by (cases st')
  have inv: "counting_inv n linv ctr aim (s, ws)" using step st' by simp
  then have "length ws = n" by (simp add: counting_inv_def)
  with step.hyps(2) obtain k w s' where k: "k < n" "st'' = (s', ws[k := w])"
    "worker_step start step unlock ctr (int k) (ws ! k) s = Inr (w, s')"
    by (auto simp: st' elim!: pool_stepE)
  from counting_step [OF inv step.prems(2) k(1)] k(2,3) show ?case by auto
qed

text \<open>Whoever is between lock and unlock is alone.\<close>

lemma one_inside:
  assumes "counting_inv n linv ctr aim (s, ws)" and "i < n" and "j < n"
    and "worker_phase (ws ! i) = Inside x" and "worker_phase (ws ! j) = Inside y"
  shows "i = j"
  using assms exclusive [of "map worker_phase ws" "sys_val s" i j x y] by (simp add: counting_inv_def)

lemma all_counted:
  assumes "counting_inv n linv ctr aim (s, ws)" and "\<forall>w \<in> set ws. w = W_done"
  shows "sys_val s ctr = aim"
proof -
  have "(\<Sum>w\<leftarrow>ws. pending w) = 0" using assms(2) by (induction ws) auto
  with assms(1) show ?thesis by (simp add: counting_inv_def)
qed

end

section \<open>The locks keep their promise\<close>

definition tas_inv :: "u32 \<Rightarrow> (tas_pc, unit) phase list \<Rightarrow> (u32 \<Rightarrow> u32) \<Rightarrow> bool" where
  "tas_inv f ph m \<longleftrightarrow>
     (\<forall>i < length ph. \<forall>j < length ph. ph ! i = Inside () \<and> ph ! j = Inside () \<longrightarrow> i = j)
     \<and> m f = of_bool (Inside () \<in> set ph)"

lemma tas_inv_quiet:
  assumes "tas_inv f ph m" and "i < length ph" and "ph ! i \<noteq> Inside ()" and "p \<noteq> Inside ()"
  shows "tas_inv f (ph[i := p]) m"
  using assms(1,3,4) in_set_update_other [OF assms(2-4)] by (auto simp: tas_inv_def nth_list_update_if)

lemma tas_step:
  assumes "tas_inv f ph (sys_val s)" and "length ph = n" and "i < n" and "ph ! i = Trying l" and "sys_ok s"
    and "validate_core s (int i)"
  shows "\<exists>r s'. TASLock_lock f (int i) l s = Inr (r, s') \<and> sys_ok s' \<and> validate_core s' = validate_core s
    \<and> tas_inv f (ph[i := phase_of r]) (sys_val s') \<and> (\<forall>a. a \<notin> {f} \<longrightarrow> sys_val s' a = sys_val s a)"
proof -
  have i: "i < length ph" using assms(2,3) by simp
  have stay: "tas_inv f (ph[i := Trying l']) (sys_val s)" for l'
    by (rule tas_inv_quiet [OF assms(1) i]) (use assms(4) in simp_all)
  show ?thesis
  proof (cases l)
    case Tas_spin
    then show ?thesis using Dut_read_ok [OF assms(5,6), of f] stay by (auto simp: phase_of_def)
  next
    case Tas_cas
    show ?thesis
    proof (cases "sys_val s f = 0")
      case True
      then have none: "Inside () \<notin> set ph" using assms(1) by (simp add: tas_inv_def)
      then have "ph ! j \<noteq> Inside ()" if "j < length ph" for j using that nth_mem by metis
      then have "tas_inv f (ph[i := Inside ()]) ((sys_val s)(f := 1))"
        using i by (auto simp: tas_inv_def nth_list_update_if set_update_memI)
      with True Tas_cas Dut_cas_ok [OF assms(5,6), of f 0 1] show ?thesis
        by (auto simp: phase_of_def)
    next
      case False
      with Tas_cas Dut_cas_ok [OF assms(5,6), of f 0 1] stay show ?thesis by (auto simp: phase_of_def)
    qed
  qed
qed

lemma tas_unlock:
  assumes "tas_inv f ph (sys_val s)" and "length ph = n" and "i < n" and "ph ! i = Inside x" and "sys_ok s"
    and "validate_core s (int i)"
  shows "\<exists>s'. TASLock_unlock f (int i) s = Inr s' \<and> sys_ok s' \<and> validate_core s' = validate_core s
    \<and> tas_inv f (ph[i := Outside]) (sys_val s') \<and> (\<forall>a. a \<notin> {f} \<longrightarrow> sys_val s' a = sys_val s a)"
proof -
  have "Inside () \<notin> set (ph[i := Outside])"
    using assms(1-4) by (auto simp: tas_inv_def in_set_conv_nth nth_list_update_if)
  then have "tas_inv f (ph[i := Outside]) ((sys_val s)(f := 0))"
    using assms(1-3) by (auto simp: tas_inv_def nth_list_update_if)
  with Dut_write_ok [OF assms(5,6), of f 0] show ?thesis by (auto simp: TASLock_unlock_def)
qed

interpretation tas: mutex n Tas_cas "TASLock_lock f" "TASLock_unlock f" "{f}" "tas_inv f" for n f
proof unfold_locales
  fix ph :: "(tas_pc, unit) phase list" and m i
  assume "tas_inv f ph m" "length ph = n" "i < n" "ph ! i = Outside"
  then show "tas_inv f (ph[i := Trying Tas_cas]) m"
    by (intro tas_inv_quiet) simp_all
qed (rule tas_step tas_unlock; assumption | simp add: tas_inv_def)+

text \<open>
  The ticket lock: the threads that hold a ticket form a queue in the order of their tickets, starting
  with the ticket served. Fewer than \<open>2 ^ 32\<close> threads, so that no two tickets in use are equal.
\<close>

fun ticket_of :: "(ticket_pc, u32) phase \<Rightarrow> u32 option" where
  "ticket_of (Trying (Ticket_wait my)) = Some my"
| "ticket_of (Inside my) = Some my"
| "ticket_of _ = None"

definition queue_ok :: "u32 \<Rightarrow> nat list \<Rightarrow> (ticket_pc, u32) phase list \<Rightarrow> bool" where
  "queue_ok t q ph \<longleftrightarrow> distinct q
     \<and> (\<forall>i. i \<in> set q \<longleftrightarrow> i < length ph \<and> ticket_of (ph ! i) \<noteq> None)
     \<and> (\<forall>k < length q. ticket_of (ph ! (q ! k)) = Some (t + of_nat k))
     \<and> (\<forall>i < length ph. \<forall>my. ph ! i = Inside my \<longrightarrow> my = t)"

definition ticket_inv :: "u32 \<Rightarrow> u32 \<Rightarrow> (ticket_pc, u32) phase list \<Rightarrow> (u32 \<Rightarrow> u32) \<Rightarrow> bool" where
  "ticket_inv nx sv ph m \<longleftrightarrow> nx \<noteq> sv \<and> length ph < 2 ^ 32
     \<and> (\<exists>q. queue_ok (m sv) q ph \<and> m nx = m sv + of_nat (length q))"

lemma queue_length:
  assumes "queue_ok t q ph"
  shows "length q \<le> length ph"
proof -
  have "set q \<subseteq> {..<length ph}" "distinct q" using assms by (auto simp: queue_ok_def)
  then show ?thesis using card_mono [of "{..<length ph}" "set q"] by (simp add: distinct_card)
qed

lemma queue_okD:
  assumes "queue_ok t q ph"
  shows "distinct q" "\<And>i. i \<in> set q \<longleftrightarrow> i < length ph \<and> ticket_of (ph ! i) \<noteq> None"
    "\<And>k. k < length q \<Longrightarrow> q ! k < length ph"
    "\<And>k. k < length q \<Longrightarrow> ticket_of (ph ! (q ! k)) = Some (t + of_nat k)"
    "\<And>i my. i < length ph \<Longrightarrow> ph ! i = Inside my \<Longrightarrow> my = t"
  using assms nth_mem unfolding queue_ok_def by blast+

lemma ticket_of_update:
  "j < length ph \<Longrightarrow> ticket_of (ph[i := p] ! j) = (if j = i then ticket_of p else ticket_of (ph ! j))"
  by (simp add: nth_list_update_if)

lemma u32_of_nat_zero: "of_nat k = (0 :: u32) \<Longrightarrow> k < 2 ^ 32 \<Longrightarrow> k = 0"
  by (auto simp: word_of_nat_eq_0_iff dest: dvd_imp_le)

lemma queue_head:
  assumes "queue_ok t q ph" and "length ph < 2 ^ 32" and "i < length ph" and "ticket_of (ph ! i) = Some t"
  shows "\<exists>q'. q = i # q'"
proof -
  have "i \<in> set q" using assms by (simp add: queue_okD(2) [OF assms(1)])
  then obtain k where k: "k < length q" "q ! k = i" by (auto simp: in_set_conv_nth)
  then have "of_nat k = (0 :: u32)" using queue_okD(4) [OF assms(1) k(1)] assms(4) by simp
  moreover have "k < 2 ^ 32" using k(1) queue_length [OF assms(1)] assms(2) by simp
  ultimately have "k = 0" by (rule u32_of_nat_zero)
  with k show ?thesis by (cases q) auto
qed

lemma queue_quiet:
  assumes "queue_ok t q ph" and "i < length ph" and "ticket_of p = ticket_of (ph ! i)"
    and "\<And>my. p = Inside my \<Longrightarrow> my = t"
  shows "queue_ok t q (ph[i := p])"
proof -
  have "ticket_of (ph[i := p] ! j) = ticket_of (ph ! j)" if "j < length ph" for j
    using assms(3) that by (simp add: ticket_of_update)
  moreover have "my = t" if "j < length ph" "ph[i := p] ! j = Inside my" for j my
    using that assms(4) queue_okD(5) [OF assms(1)] by (auto simp: nth_list_update_if split: if_splits)
  ultimately show ?thesis
    using queue_okD [OF assms(1)] unfolding queue_ok_def length_list_update by metis
qed

lemma queue_take:
  assumes "queue_ok t q ph" and "i < length ph" and "ticket_of (ph ! i) = None"
  shows "queue_ok t (q @ [i]) (ph[i := Trying (Ticket_wait (t + of_nat (length q)))])"
proof -
  note d = queue_okD [OF assms(1)]
  have i: "i \<notin> set q" using d(2) assms(3) by simp
  then have ne: "q ! k \<noteq> i" if "k < length q" for k using that nth_mem by blast
  show ?thesis
    unfolding queue_ok_def length_list_update
  proof (intro conjI allI impI)
    show "distinct (q @ [i])" using d(1) i by simp
    show "j \<in> set (q @ [i]) \<longleftrightarrow> j < length ph
      \<and> ticket_of (ph[i := Trying (Ticket_wait (t + of_nat (length q)))] ! j) \<noteq> None" for j
      using d(2) [of j] assms(2) by (cases "j < length ph") (auto simp: ticket_of_update)
    show "ticket_of (ph[i := Trying (Ticket_wait (t + of_nat (length q)))] ! ((q @ [i]) ! k)) = Some (t + of_nat k)"
      if "k < length (q @ [i])" for k
      using that d(3,4) ne assms(2) by (cases "k < length q") (auto simp: ticket_of_update nth_append less_Suc_eq)
    show "my = t" if "j < length ph" "ph[i := Trying (Ticket_wait (t + of_nat (length q)))] ! j = Inside my" for j my
      using that d(5) by (auto simp: nth_list_update_if split: if_splits)
  qed
qed

lemma queue_leave:
  assumes "queue_ok t (i # q) ph" and "length ph < 2 ^ 32"
  shows "queue_ok (t + 1) q (ph[i := Outside])"
proof -
  note d = queue_okD [OF assms(1)]
  have ne: "q ! k \<noteq> i" if "k < length q" for k using that d(1) nth_mem by fastforce
  have inside: "j = i" if "j < length ph" "ph ! j = Inside my" for j my
    using queue_head [OF assms, of j] that d(5) [OF that] by simp
  show ?thesis
    unfolding queue_ok_def length_list_update
  proof (intro conjI allI impI)
    show "distinct q" using d(1) by simp
    show "j \<in> set q \<longleftrightarrow> j < length ph \<and> ticket_of (ph[i := Outside] ! j) \<noteq> None" for j
      using d(1) d(2) [of j] by (cases "j < length ph") (auto simp: ticket_of_update)
    show "ticket_of (ph[i := Outside] ! (q ! k)) = Some (t + 1 + of_nat k)" if "k < length q" for k
      using that d(3) [of "Suc k"] d(4) [of "Suc k"] ne by (simp add: ticket_of_update add.assoc)
    show "my = t + 1" if "j < length ph" "ph[i := Outside] ! j = Inside my" for j my
      using that inside by (auto simp: nth_list_update_if split: if_splits)
  qed
qed

lemma ticket_step:
  assumes "ticket_inv nx sv ph (sys_val s)" and "length ph = n" and "i < n" and "ph ! i = Trying l" and "sys_ok s"
    and "validate_core s (int i)"
  shows "\<exists>r s'. TicketLock_lock nx sv (int i) l s = Inr (r, s') \<and> sys_ok s' \<and> validate_core s' = validate_core s
    \<and> ticket_inv nx sv (ph[i := phase_of r]) (sys_val s') \<and> (\<forall>a. a \<notin> {nx, sv} \<longrightarrow> sys_val s' a = sys_val s a)"
proof -
  obtain q where q: "queue_ok (sys_val s sv) q ph" "sys_val s nx = sys_val s sv + of_nat (length q)"
    and b: "nx \<noteq> sv" "length ph < 2 ^ 32" and i: "i < length ph"
    using assms(1-3) by (auto simp: ticket_inv_def)
  show ?thesis
  proof (cases l)
    case Ticket_take
    from queue_take [OF q(1) i] Ticket_take assms(4) q(2)
    have "queue_ok (sys_val s sv) (q @ [i]) (ph[i := Trying (Ticket_wait (sys_val s nx))])" by simp
    then have "ticket_inv nx sv (ph[i := Trying (Ticket_wait (sys_val s nx))])
        ((sys_val s)(nx := sys_val s nx + 1))"
      using b q(2) unfolding ticket_inv_def by (auto intro!: exI [of _ "q @ [i]"])
    with Ticket_take Dut_faa_ok [OF assms(5,6), of nx 1] show ?thesis by (auto simp: phase_of_def)
  next
    case (Ticket_wait my)
    have "ph[i := Trying (Ticket_wait my)] = ph" using assms(4) Ticket_wait by (metis list_update_id)
    moreover have "ticket_inv nx sv (ph[i := Inside my]) (sys_val s)" if "sys_val s sv = my"
      using queue_quiet [OF q(1) i, of "Inside my"] that q(2) b assms(4) Ticket_wait
      by (auto simp: ticket_inv_def)
    ultimately show ?thesis
      using Ticket_wait Dut_read_ok [OF assms(5,6), of sv] assms(1) by (auto simp: phase_of_def)
  qed
qed

lemma ticket_unlock:
  assumes "ticket_inv nx sv ph (sys_val s)" and "length ph = n" and "i < n" and "ph ! i = Inside x" and "sys_ok s"
    and "validate_core s (int i)"
  shows "\<exists>s'. TicketLock_unlock sv (int i) s = Inr s' \<and> sys_ok s' \<and> validate_core s' = validate_core s
    \<and> ticket_inv nx sv (ph[i := Outside]) (sys_val s') \<and> (\<forall>a. a \<notin> {nx, sv} \<longrightarrow> sys_val s' a = sys_val s a)"
proof -
  obtain q where q: "queue_ok (sys_val s sv) q ph" "sys_val s nx = sys_val s sv + of_nat (length q)"
    and b: "nx \<noteq> sv" "length ph < 2 ^ 32" and i: "i < length ph"
    using assms(1-3) by (auto simp: ticket_inv_def)
  obtain q' where q': "q = i # q'"
    using queue_head [OF q(1) b(2) i] assms(4) queue_okD(5) [OF q(1) i assms(4)] by auto
  have "ticket_inv nx sv (ph[i := Outside]) ((sys_val s)(sv := sys_val s sv + 1))"
    using queue_leave [OF q(1) [unfolded q'] b(2)] b q(2) unfolding ticket_inv_def
    by (auto simp: q' add.assoc)
  with Dut_faa_ok [OF assms(5,6), of sv 1] show ?thesis by (auto simp: TicketLock_unlock_def)
qed

lemma ticket_exclusive:
  assumes "ticket_inv nx sv ph m" and "i < length ph" and "j < length ph" and "ph ! i = Inside x" and "ph ! j = Inside y"
  shows "i = j"
proof -
  obtain q where q: "queue_ok (m sv) q ph" and b: "length ph < 2 ^ 32" using assms(1) by (auto simp: ticket_inv_def)
  note d = queue_okD(5) [OF q]
  from queue_head [OF q b assms(2)] queue_head [OF q b assms(3)] d [OF assms(2,4)] d [OF assms(3,5)] assms(4,5)
  show ?thesis by auto
qed

interpretation ticket: mutex n Ticket_take "TicketLock_lock nx sv" "TicketLock_unlock sv" "{nx, sv}"
  "ticket_inv nx sv" for n nx sv
proof unfold_locales
  fix ph :: "(ticket_pc, u32) phase list" and m i
  assume "ticket_inv nx sv ph m" "length ph = n" "i < n" "ph ! i = Outside"
  then show "ticket_inv nx sv (ph[i := Trying Ticket_take]) m"
    by (auto simp: ticket_inv_def intro!: queue_quiet)
qed ((erule ticket_exclusive; simp) | (rule ticket_step ticket_unlock; assumption) | (simp add: ticket_inv_def))+

section \<open>The scalability run\<close>

text \<open>\<open>n\<close> workers of \<open>K\<close> rounds each, one per core.\<close>

definition worker_pool :: "'l \<Rightarrow> nat \<Rightarrow> nat \<Rightarrow> ('l, 'r) worker list" where
  "worker_pool start K n = replicate n (next_round start K)"

abbreviation tas_worker :: "u32 \<Rightarrow> u32 \<Rightarrow> int \<Rightarrow> (tas_pc, unit) worker \<Rightarrow> MesiSystem
    \<Rightarrow> exn + ((tas_pc, unit) worker \<times> MesiSystem)" where
  "tas_worker f ctr \<equiv> worker_step Tas_cas (TASLock_lock f) (TASLock_unlock f) ctr"

abbreviation ticket_worker :: "u32 \<Rightarrow> u32 \<Rightarrow> u32 \<Rightarrow> int \<Rightarrow> (ticket_pc, u32) worker \<Rightarrow> MesiSystem
    \<Rightarrow> exn + ((ticket_pc, u32) worker \<times> MesiSystem)" where
  "ticket_worker nx sv ctr \<equiv> worker_step Ticket_take (TicketLock_lock nx sv) (TicketLock_unlock sv) ctr"

lemma counting_init:
  assumes "sys_ok s" and "n_cores s = int n" and "linv (replicate n (worker_phase (next_round start K))) (sys_val s)"
  shows "counting_inv n linv ctr (sys_val s ctr + of_nat (n * K)) (s, worker_pool start K n)"
  using assms by (simp add: counting_inv_def worker_pool_def validate_core_eq sum_list_replicate)

lemma tas_pool_inv:
  assumes "(pool_step (tas_worker f ctr))\<^sup>*\<^sup>* (s, worker_pool Tas_cas K n) (s', ws)"
    and "sys_ok s" and "n_cores s = int n" and "sys_val s f = 0" and "f \<noteq> ctr"
  shows "counting_inv n (tas_inv f) ctr (sys_val s ctr + of_nat (n * K)) (s', ws)"
proof (rule tas.counting_pool [OF assms(1)])
  show "counting_inv n (tas_inv f) ctr (sys_val s ctr + of_nat (n * K)) (s, worker_pool Tas_cas K n)"
    by (rule counting_init) (use assms in \<open>auto simp: tas_inv_def\<close>)
  show "ctr \<notin> {f}" using assms(5) by simp
qed

lemma ticket_pool_inv:
  assumes "(pool_step (ticket_worker nx sv ctr))\<^sup>*\<^sup>* (s, worker_pool Ticket_take K n) (s', ws)"
    and "sys_ok s" and "n_cores s = int n" and "sys_val s nx = sys_val s sv" and "distinct [nx, sv, ctr]"
    and "n < 2 ^ 32"
  shows "counting_inv n (ticket_inv nx sv) ctr (sys_val s ctr + of_nat (n * K)) (s', ws)"
proof (rule ticket.counting_pool [OF assms(1)])
  show "counting_inv n (ticket_inv nx sv) ctr (sys_val s ctr + of_nat (n * K)) (s, worker_pool Ticket_take K n)"
    by (rule counting_init) (use assms in \<open>auto simp: ticket_inv_def queue_ok_def intro!: exI [of _ "[]"]\<close>)
  show "ctr \<notin> {nx, sv}" using assms(5) by auto
qed

text \<open>The ticket lock serves its threads in the order of their tickets.\<close>

lemma ticket_order:
  assumes "ticket_inv nx sv ph m" and "i < length ph" and "j < length ph"
    and "ph ! i = Inside x" and "ph ! j = Trying (Ticket_wait y)"
  shows "x = m sv" "0 < unat (y - x)" "unat (y - x) < unat (m nx - x)"
proof -
  obtain q where q: "queue_ok (m sv) q ph" "m nx = m sv + of_nat (length q)" and b: "length ph < 2 ^ 32"
    using assms(1) by (auto simp: ticket_inv_def)
  show x: "x = m sv" using queue_okD(5) [OF q(1) assms(2,4)] .
  have "j \<in> set q" using queue_okD(2) [OF q(1)] assms(3,5) by simp
  then obtain k where k: "k < length q" "q ! k = j" by (auto simp: in_set_conv_nth)
  then have y: "y = x + of_nat k" using queue_okD(4) [OF q(1) k(1)] assms(5) x by simp
  have l: "length q < 2 ^ 32" using queue_length [OF q(1)] b by simp
  have u: "unat (of_nat i :: u32) = i" if "i < 2 ^ 32" for i
    using that by (simp add: unat_of_nat take_bit_nat_eq_self)
  obtain q' where q': "q = i # q'" using queue_head [OF q(1) b assms(2)] assms(4) x by auto
  have "k \<noteq> 0" using k(2) q' assms(4,5) by (intro notI) simp
  moreover have "unat (y - x) = k" using y u [of k] k(1) l by simp
  moreover have "unat (m nx - x) = length q" using q(2) x u [OF l] by simp
  ultimately show "0 < unat (y - x)" "unat (y - x) < unat (m nx - x)" using k(1) by simp_all
qed

text \<open>A run of a pool by schedule.\<close>

fun pool_run ::
    "(int \<Rightarrow> 'w \<Rightarrow> MesiSystem \<Rightarrow> exn + ('w \<times> MesiSystem)) \<Rightarrow> nat list \<Rightarrow> MesiSystem \<times> 'w list
     \<Rightarrow> (MesiSystem \<times> 'w list) option" where
  "pool_run act [] st = Some st"
| "pool_run act (k # ks) (s, ws) =
     (if k < length ws then
        (case act (int k) (ws ! k) s of Inl _ \<Rightarrow> None | Inr (w, s') \<Rightarrow> pool_run act ks (s', ws[k := w]))
      else None)"

lemma pool_run_steps: "pool_run act ks st = Some st' \<Longrightarrow> (pool_step act)\<^sup>*\<^sup>* st st'"
  by (induction act ks st rule: pool_run.induct)
    (auto split: if_splits sum.splits intro: pool converse_rtranclp_into_rtranclp)

text \<open>A pool comes to its end under some schedule when every thread that has not finished can get nearer
  to its end.\<close>

lemma pool_finishes:
  assumes "I s ws"
    and step: "\<And>s ws k. I s ws \<Longrightarrow> k < length ws \<Longrightarrow> mu (ws ! k) \<noteq> (0 :: nat) \<Longrightarrow>
      \<exists>s' w. (pool_step act)\<^sup>*\<^sup>* (s, ws) (s', ws[k := w]) \<and> I s' (ws[k := w]) \<and> mu w < mu (ws ! k)"
  shows "\<exists>s' ws'. (pool_step act)\<^sup>*\<^sup>* (s, ws) (s', ws') \<and> I s' ws' \<and> (\<forall>w \<in> set ws'. mu w = 0)"
  using assms(1)
proof (induction "\<Sum>w\<leftarrow>ws. mu w" arbitrary: s ws rule: less_induct)
  case less
  show ?case
  proof (cases "\<forall>w \<in> set ws. mu w = 0")
    case True
    with less.prems show ?thesis by blast
  next
    case False
    then obtain k where k: "k < length ws" "mu (ws ! k) \<noteq> 0" by (auto simp: in_set_conv_nth)
    with step [OF less.prems] obtain s1 w where
      s1: "(pool_step act)\<^sup>*\<^sup>* (s, ws) (s1, ws[k := w])" "I s1 (ws[k := w])" "mu w < mu (ws ! k)" by blast
    have "(\<Sum>w\<leftarrow>ws[k := w]. mu w) < (\<Sum>w\<leftarrow>ws. mu w)"
      using sum_list_map_update [OF k(1), of mu w] s1(3) by simp
    from less.hyps [OF this s1(2)] s1(1) show ?thesis by (meson rtranclp_trans)
  qed
qed

lemmas [exec_simps] = TASLock_unlock_def TicketLock_unlock_def worker_pool_def

end
