(* ===== verification/Flat_Threads.thy ===== *)
theory Flat_Threads
  imports Mutex
begin

text \<open>
  Threads over the coherent memory seen as threads over a flat memory. The step of a thread does one
  access through its handle; by the refinement of \<open>Mesi_System\<close> the access returns, and its effect is
  that of the same access on the flat memory \<open>sys_val\<close>. The locale \<open>flat_threads\<close> says so for a whole
  thread; inside it an invariant is carried over every interleaving of a pool once it is kept by the
  steps on the flat memory. The seqlock, the barrier, the stack and the hazard pointers interpret it.
\<close>

type_synonym flat_mem = "u32 \<Rightarrow> u32"

named_theorems flat_simps \<open>steps of threads on the flat memory\<close>

text \<open>A step on the system does what a step on the flat memory does.\<close>

definition acts_as :: "exn + ('w \<times> MesiSystem) \<Rightarrow> MesiSystem \<Rightarrow> 'w \<times> flat_mem \<Rightarrow> bool" where
  "acts_as r s q \<longleftrightarrow> (\<exists>s'. r = Inr (fst q, s') \<and> sys_ok s' \<and> validate_core s' = validate_core s \<and> sys_val s' = snd q)"

text \<open>Each access determines the step on the flat memory, so the simplifier computes it.\<close>

lemma acts_as_unique: "acts_as r s q \<Longrightarrow> acts_as r s q' \<longleftrightarrow> q' = q"
  by (cases q; cases q') (auto simp: acts_as_def)

lemma acts_as_return [flat_simps]: "sys_ok s \<Longrightarrow> acts_as (Inr (w, s)) s q \<longleftrightarrow> q = (w, sys_val s)"
  by (rule acts_as_unique) (simp add: acts_as_def)

lemma acts_as_read [flat_simps]:
  assumes "sys_ok s" and "validate_core s c"
  shows "acts_as (sbind (Dut_read c a s) (\<lambda>(v, s). Inr (f v, s))) s q \<longleftrightarrow> q = (f (sys_val s a), sys_val s)"
  by (rule acts_as_unique) (use Dut_read_ok [OF assms, of a] in \<open>auto simp: acts_as_def\<close>)

lemma acts_as_write [flat_simps]:
  assumes "sys_ok s" and "validate_core s c"
  shows "acts_as (sbind (Dut_write c a v s) (\<lambda>s. Inr (w, s))) s q \<longleftrightarrow> q = (w, (sys_val s)(a := v))"
  by (rule acts_as_unique) (use Dut_write_ok [OF assms, of a v] in \<open>auto simp: acts_as_def\<close>)

lemma acts_as_faa [flat_simps]:
  assumes "sys_ok s" and "validate_core s c"
  shows "acts_as (sbind (Dut_faa c a d s) (\<lambda>(v, s). Inr (f v, s))) s q
    \<longleftrightarrow> q = (f (sys_val s a), (sys_val s)(a := sys_val s a + d))"
  by (rule acts_as_unique) (use Dut_faa_ok [OF assms, of a d] in \<open>auto simp: acts_as_def\<close>)

lemma acts_as_cas [flat_simps]:
  assumes "sys_ok s" and "validate_core s c"
  shows "acts_as (sbind (Dut_cas c a e n s) (\<lambda>(v, s). Inr (f v, s))) s q
    \<longleftrightarrow> q = (f (sys_val s a = e), if sys_val s a = e then (sys_val s)(a := n) else sys_val s)"
  by (rule acts_as_unique) (use Dut_cas_ok [OF assms, of a e n] in \<open>auto simp: acts_as_def\<close>)

lemma acts_as_fence [flat_simps]:
  assumes "sys_ok s" and "validate_core s c"
  shows "acts_as (sbind (Dut_fence c s) (\<lambda>s. Inr (w, s))) s q \<longleftrightarrow> q = (w, sys_val s)"
  by (rule acts_as_unique) (use assms in \<open>simp add: acts_as_def Dut_fence_def MesiSystem_fence_def\<close>)

text \<open>A step wrapped by the code that called the function: the caller looks at the result only.\<close>

lemma acts_as_wrap:
  assumes "acts_as r s q"
  shows "acts_as (sbind r (\<lambda>(v, s). Inr (f v, s))) s (f (fst q), snd q)"
  using assms by (auto simp: acts_as_def)

section \<open>A call that nobody interrupts\<close>

text \<open>\<open>solo k\<close> runs a function that is cut into steps to its end, for at most \<open>k\<close> steps; \<open>None\<close> says that
  \<open>k\<close> steps were not enough.\<close>

fun solo ::
    "nat \<Rightarrow> ('p \<Rightarrow> MesiSystem \<Rightarrow> exn + (('p + 'r) \<times> MesiSystem)) \<Rightarrow> 'p \<Rightarrow> MesiSystem \<Rightarrow> (exn + ('r \<times> MesiSystem)) option" where
  "solo 0 f p s = None"
| "solo (Suc k) f p s = (case f p s of
     Inl e \<Rightarrow> Some (Inl e)
   | Inr (r, s) \<Rightarrow> (case r of Inl p \<Rightarrow> solo k f p s | Inr x \<Rightarrow> Some (Inr (x, s))))"

fun flat_solo :: "nat \<Rightarrow> ('p \<Rightarrow> flat_mem \<Rightarrow> ('p + 'r) \<times> flat_mem) \<Rightarrow> 'p \<Rightarrow> flat_mem \<Rightarrow> ('r \<times> flat_mem) option" where
  "flat_solo 0 g p m = None"
| "flat_solo (Suc k) g p m =
     (let (r, m) = g p m in case r of Inl p \<Rightarrow> flat_solo k g p m | Inr x \<Rightarrow> Some (x, m))"

lemma solo_flat:
  assumes step: "\<And>p s. sys_ok s \<Longrightarrow> validate_core s c \<Longrightarrow> acts_as (f p s) s (g p (sys_val s))"
    and "sys_ok s" and "validate_core s c" and "flat_solo k g p (sys_val s) = Some (x, m)"
  shows "\<exists>s'. solo k f p s = Some (Inr (x, s')) \<and> sys_ok s' \<and> validate_core s' = validate_core s \<and> sys_val s' = m"
  using assms(2-)
proof (induction k arbitrary: p s)
  case (Suc k)
  obtain s1 where s1: "f p s = Inr (fst (g p (sys_val s)), s1)" "sys_ok s1" "validate_core s1 = validate_core s"
    "sys_val s1 = snd (g p (sys_val s))"
    using step [OF Suc.prems(1,2), of p] by (auto simp: acts_as_def)
  with Suc.IH [OF s1(2)] Suc.prems show ?case
    by (cases "fst (g p (sys_val s))") (auto simp: case_prod_beta Let_def)
qed simp

section \<open>Pools of threads on the flat memory\<close>

definition flat_pool :: "MesiSystem \<Rightarrow> nat \<Rightarrow> (int \<Rightarrow> bool) \<Rightarrow> bool" where
  "flat_pool s n good \<longleftrightarrow> sys_ok s \<and> (\<forall>i < n. validate_core s (int i) \<and> good (int i))"

text \<open>A schedule played on the flat memory.\<close>

fun flat_run :: "(int \<Rightarrow> 'w \<Rightarrow> flat_mem \<Rightarrow> 'w \<times> flat_mem) \<Rightarrow> nat list \<Rightarrow> 'w list \<times> flat_mem \<Rightarrow> 'w list \<times> flat_mem" where
  "flat_run f [] st = st"
| "flat_run f (k # ks) (ws, m) = (let (w, m) = f (int k) (ws ! k) m in flat_run f ks (ws[k := w], m))"

locale flat_threads =
  fixes act :: "int \<Rightarrow> 'w \<Rightarrow> MesiSystem \<Rightarrow> exn + ('w \<times> MesiSystem)"
    and flat :: "int \<Rightarrow> 'w \<Rightarrow> flat_mem \<Rightarrow> 'w \<times> flat_mem"
    and good :: "int \<Rightarrow> bool"
  assumes simulates: "sys_ok s \<Longrightarrow> validate_core s c \<Longrightarrow> good c \<Longrightarrow> acts_as (act c w s) s (flat c w (sys_val s))"
begin

text \<open>No thread of the pool ever throws.\<close>

lemma never_throws:
  assumes "flat_pool s (length ws) good" and "i < length ws"
  shows "\<exists>w s'. act (int i) (ws ! i) s = Inr (w, s') \<and> pool_step act (s, ws) (s', ws[i := w])"
  using simulates [of s "int i" "ws ! i"] assms by (auto simp: flat_pool_def acts_as_def intro: pool)

lemma pool_flat:
  assumes "pool_step act (s, ws) (s', ws')" and "flat_pool s (length ws) good"
  obtains i where "i < length ws" "ws' = ws[i := fst (flat (int i) (ws ! i) (sys_val s))]"
    "sys_val s' = snd (flat (int i) (ws ! i) (sys_val s))" "flat_pool s' (length ws') good"
proof -
  from assms(1) obtain i w where i: "i < length ws" "act (int i) (ws ! i) s = Inr (w, s')" "ws' = ws[i := w]"
    by (elim pool_stepE) auto
  with simulates [of s "int i" "ws ! i"] assms(2)
  have "w = fst (flat (int i) (ws ! i) (sys_val s))" "sys_val s' = snd (flat (int i) (ws ! i) (sys_val s))"
    "flat_pool s' (length ws') good"
    by (auto simp: flat_pool_def acts_as_def)
  with i that show thesis by blast
qed

text \<open>Every schedule can be played on the system, with the outcome it has on the flat memory.\<close>

lemma flat_run_pool:
  assumes "flat_pool s (length ws) good" and "list_all (\<lambda>k. k < length ws) ks"
  shows "\<exists>s'. (pool_step act)\<^sup>*\<^sup>* (s, ws) (s', fst (flat_run flat ks (ws, sys_val s)))
    \<and> sys_val s' = snd (flat_run flat ks (ws, sys_val s))"
  using assms
proof (induction ks arbitrary: s ws)
  case (Cons k ks)
  obtain w s1 where s1: "act (int k) (ws ! k) s = Inr (w, s1)" "pool_step act (s, ws) (s1, ws[k := w])"
    using never_throws [OF Cons.prems(1), of k] Cons.prems(2) by auto
  with simulates [of s "int k" "ws ! k"] Cons.prems
  have q: "flat (int k) (ws ! k) (sys_val s) = (w, sys_val s1)" "flat_pool s1 (length (ws[k := w])) good"
    by (auto simp: flat_pool_def acts_as_def prod_eq_iff)
  from Cons.IH [OF q(2)] Cons.prems(2) obtain s' where
    "(pool_step act)\<^sup>*\<^sup>* (s1, ws[k := w]) (s', fst (flat_run flat ks (ws[k := w], sys_val s1)))"
    "sys_val s' = snd (flat_run flat ks (ws[k := w], sys_val s1))" by auto
  with s1(2) q(1) show ?case by (auto intro: exI [of _ s'] converse_rtranclp_into_rtranclp)
qed auto

text \<open>What the steps on the flat memory keep holds in every interleaving.\<close>

lemma pool_invariant:
  assumes "(pool_step act)\<^sup>*\<^sup>* (s, ws) (s', ws')" and "flat_pool s (length ws) good" and "P (sys_val s) ws"
    and keep: "\<And>m ws i. P m ws \<Longrightarrow> i < length ws \<Longrightarrow>
      P (snd (flat (int i) (ws ! i) m)) (ws[i := fst (flat (int i) (ws ! i) m)])"
  shows "P (sys_val s') ws' \<and> flat_pool s' (length ws') good \<and> length ws' = length ws"
proof -
  have "P (sys_val (fst st)) (snd st) \<and> flat_pool (fst st) (length (snd st)) good \<and> length (snd st) = length ws"
    if "(pool_step act)\<^sup>*\<^sup>* (s, ws) st" for st
    using that
  proof (induction rule: rtranclp_induct)
    case base
    then show ?case using assms(2,3) by simp
  next
    case (step st st')
    then have "pool_step act (fst st, snd st) (fst st', snd st')" "flat_pool (fst st) (length (snd st)) good" by auto
    then obtain i where "i < length (snd st)"
      "snd st' = (snd st)[i := fst (flat (int i) (snd st ! i) (sys_val (fst st)))]"
      "sys_val (fst st') = snd (flat (int i) (snd st ! i) (sys_val (fst st)))" "flat_pool (fst st') (length (snd st')) good"
      by (rule pool_flat)
    with step.IH keep [of "sys_val (fst st)" "snd st" i] show ?case by simp
  qed
  from this [OF assms(1)] show ?thesis by auto
qed

text \<open>Runs of the pool are runs of an abstract machine when every step on the flat memory is a step of the
  machine or leaves its state alone.\<close>

lemma pool_refines:
  assumes "(pool_step act)\<^sup>*\<^sup>* (s, ws) (s', ws')" and "flat_pool s (length ws) good" and "P (sys_val s) ws"
    and keep: "\<And>m ws i. P m ws \<Longrightarrow> i < length ws \<Longrightarrow>
      P (snd (flat (int i) (ws ! i) m)) (ws[i := fst (flat (int i) (ws ! i) m)])"
    and sim: "\<And>m ws i. P m ws \<Longrightarrow> i < length ws \<Longrightarrow>
      step\<^sup>*\<^sup>* (alpha m ws) (alpha (snd (flat (int i) (ws ! i) m)) (ws[i := fst (flat (int i) (ws ! i) m)]))"
  shows "step\<^sup>*\<^sup>* (alpha (sys_val s) ws) (alpha (sys_val s') ws')"
proof -
  have "step\<^sup>*\<^sup>* (alpha (sys_val s) ws) (alpha (sys_val (fst st)) (snd st))" if "(pool_step act)\<^sup>*\<^sup>* (s, ws) st" for st
    using that
  proof (induction rule: rtranclp_induct)
    case (step st st')
    have "P (sys_val (fst st)) (snd st) \<and> flat_pool (fst st) (length (snd st)) good"
      using pool_invariant [OF _ assms(2,3) keep, of "fst st" "snd st"] step.hyps(1) by auto
    with step.hyps(2) obtain i where "i < length (snd st)"
      "snd st' = (snd st)[i := fst (flat (int i) (snd st ! i) (sys_val (fst st)))]"
      "sys_val (fst st') = snd (flat (int i) (snd st ! i) (sys_val (fst st)))"
      using pool_flat [of "fst st" "snd st" "fst st'" "snd st'"] by auto
    with sim [of "sys_val (fst st)" "snd st" i] \<open>P _ _ \<and> _\<close> step.IH show ?case by auto
  qed simp
  from this [OF assms(1)] show ?thesis by simp
qed

end

end
