(* ===== verification/Barrier.thy ===== *)
theory Barrier
  imports Flat_Threads
begin

text \<open>
  The sense-reversing barrier of \<^verbatim>\<open>primitives/barrier.hpp\<close>. \<^verbatim>\<open>wait\<close> is cut at its accesses to the
  coherent memory; \<^verbatim>\<open>local_sense\<close>, which the caller passes by reference, is part of the state of the
  call. The threads call \<^verbatim>\<open>wait\<close> again and again; \<open>b_done\<close> counts the calls that have returned.
\<close>

section \<open>The barrier\<close>

record Barrier =
  count_addr :: u32
  sense_addr :: u32
  bar_n :: int

definition Barrier_init :: "Barrier \<Rightarrow> int \<Rightarrow> MesiSystem \<Rightarrow> exn + MesiSystem" where
  "Barrier_init b d s =
     sbind (Dut_write d (count_addr b) (of_int (bar_n b)) s) (Dut_write d (sense_addr b) 0)"

datatype barrier_pc = Bar_enter | Bar_reset | Bar_fence | Bar_release | Bar_spin

fun Barrier_wait ::
    "Barrier \<Rightarrow> int \<Rightarrow> barrier_pc \<times> u32 \<Rightarrow> MesiSystem \<Rightarrow> exn + ((barrier_pc \<times> u32 + u32) \<times> MesiSystem)" where
  "Barrier_wait b d (Bar_enter, local_sense) s =
     (let local_sense = local_sense XOR 1
      in sbind (Dut_faa d (count_addr b) (- 1) s)
           (\<lambda>(prev, s). Inr (Inl (if prev = 1 then Bar_reset else Bar_spin, local_sense), s)))"
| "Barrier_wait b d (Bar_reset, local_sense) s =
     sbind (Dut_write d (count_addr b) (of_int (bar_n b)) s) (\<lambda>s. Inr (Inl (Bar_fence, local_sense), s))"
| "Barrier_wait b d (Bar_fence, local_sense) s =
     sbind (Dut_fence d s) (\<lambda>s. Inr (Inl (Bar_release, local_sense), s))"
| "Barrier_wait b d (Bar_release, local_sense) s =
     sbind (Dut_write d (sense_addr b) local_sense s) (\<lambda>s. Inr (Inr local_sense, s))"
| "Barrier_wait b d (Bar_spin, local_sense) s =
     sbind (Dut_read d (sense_addr b) s)
       (\<lambda>(v, s). Inr (if v \<noteq> local_sense then Inl (Bar_spin, local_sense) else Inr local_sense, s))"

section \<open>Threads\<close>

record bar_thread =
  b_done :: nat
  b_pc :: barrier_pc
  b_sense :: u32

definition bar_next :: "bar_thread \<Rightarrow> barrier_pc \<times> u32 + u32 \<Rightarrow> bar_thread" where
  "bar_next t r = (case r of
     Inl (pc, ls) \<Rightarrow> t\<lparr>b_pc := pc, b_sense := ls\<rparr>
   | Inr ls \<Rightarrow> \<lparr>b_done = Suc (b_done t), b_pc = Bar_enter, b_sense = ls\<rparr>)"

definition bar_act :: "Barrier \<Rightarrow> int \<Rightarrow> bar_thread \<Rightarrow> MesiSystem \<Rightarrow> exn + (bar_thread \<times> MesiSystem)" where
  "bar_act b d t s = sbind (Barrier_wait b d (b_pc t, b_sense t) s) (\<lambda>(r, s). Inr (bar_next t r, s))"

definition bar_fresh :: bar_thread where
  "bar_fresh = \<lparr>b_done = 0, b_pc = Bar_enter, b_sense = 0\<rparr>"

text \<open>The calls a thread has begun.\<close>

definition b_started :: "bar_thread \<Rightarrow> nat" where
  "b_started t = b_done t + of_bool (b_pc t \<noteq> Bar_enter)"

lemmas [exec_simps] = Barrier_init_def bar_next_def bar_act_def bar_fresh_def

section \<open>Steps on the flat memory\<close>

fun flat_wait :: "Barrier \<Rightarrow> barrier_pc \<times> u32 \<Rightarrow> flat_mem \<Rightarrow> (barrier_pc \<times> u32 + u32) \<times> flat_mem" where
  "flat_wait b (Bar_enter, ls) m =
     (Inl (if m (count_addr b) = 1 then Bar_reset else Bar_spin, ls XOR 1), m(count_addr b := m (count_addr b) - 1))"
| "flat_wait b (Bar_reset, ls) m = (Inl (Bar_fence, ls), m(count_addr b := of_int (bar_n b)))"
| "flat_wait b (Bar_fence, ls) m = (Inl (Bar_release, ls), m)"
| "flat_wait b (Bar_release, ls) m = (Inr ls, m(sense_addr b := ls))"
| "flat_wait b (Bar_spin, ls) m = (if m (sense_addr b) \<noteq> ls then Inl (Bar_spin, ls) else Inr ls, m)"

definition flat_bar :: "Barrier \<Rightarrow> int \<Rightarrow> bar_thread \<Rightarrow> flat_mem \<Rightarrow> bar_thread \<times> flat_mem" where
  "flat_bar b d t m = (bar_next t (fst (flat_wait b (b_pc t, b_sense t) m)), snd (flat_wait b (b_pc t, b_sense t) m))"

lemma Barrier_wait_flat:
  assumes "sys_ok s" and "validate_core s d"
  shows "acts_as (Barrier_wait b d p s) s (flat_wait b p (sys_val s))"
  by (cases "(b, p, sys_val s)" rule: flat_wait.cases) (simp_all add: flat_simps assms Let_def)

interpretation bar: flat_threads "bar_act b" "flat_bar b" "\<lambda>_. True" for b
  by unfold_locales (simp add: bar_act_def flat_bar_def acts_as_wrap Barrier_wait_flat)

section \<open>Episodes\<close>

text \<open>
  \<open>e\<close> episodes are complete and the global sense is the parity of \<open>e\<close>. A thread has not yet arrived at
  episode \<open>e\<close>, or it has, or it still spins at the end of the previous one, which it may leave.
\<close>

definition par :: "nat \<Rightarrow> u32" where
  "par e = of_bool (odd e)"

lemma par_simps [simp]: "par e XOR 1 = par (Suc e)" "par e \<noteq> par (Suc e)" "par (Suc e) \<noteq> par e"
  by (auto simp: par_def)

definition arrived :: "nat \<Rightarrow> bar_thread \<Rightarrow> bool" where
  "arrived e t \<longleftrightarrow> b_done t = e \<and> b_pc t \<noteq> Bar_enter"

definition bar_local :: "nat \<Rightarrow> bar_thread \<Rightarrow> bool" where
  "bar_local e t \<longleftrightarrow>
     b_done t = e \<and> b_pc t = Bar_enter \<and> b_sense t = par e
   \<or> b_done t = e \<and> b_pc t \<noteq> Bar_enter \<and> b_sense t = par (Suc e)
   \<or> Suc (b_done t) = e \<and> b_pc t = Bar_spin \<and> b_sense t = par e"

definition missing :: "nat \<Rightarrow> bar_thread list \<Rightarrow> nat" where
  "missing e ws = length (filter (\<lambda>t. \<not> arrived e t) ws)"

definition gathering :: "Barrier \<Rightarrow> nat \<Rightarrow> flat_mem \<Rightarrow> bar_thread list \<Rightarrow> bool" where
  "gathering b e m ws \<longleftrightarrow> (\<forall>t \<in> set ws. b_pc t = Bar_enter \<or> b_pc t = Bar_spin)
     \<and> missing e ws \<noteq> 0 \<and> m (count_addr b) = of_nat (missing e ws)"

definition releasing :: "Barrier \<Rightarrow> nat \<Rightarrow> flat_mem \<Rightarrow> bar_thread list \<Rightarrow> nat \<Rightarrow> bool" where
  "releasing b e m ws i \<longleftrightarrow> i < length ws \<and> (\<forall>t \<in> set ws. arrived e t)
     \<and> (\<forall>j < length ws. j \<noteq> i \<longrightarrow> b_pc (ws ! j) = Bar_spin)
     \<and> (b_pc (ws ! i) = Bar_reset
        \<or> b_pc (ws ! i) \<in> {Bar_fence, Bar_release} \<and> m (count_addr b) = of_int (bar_n b))"

definition bar_inv :: "Barrier \<Rightarrow> nat \<Rightarrow> flat_mem \<Rightarrow> bar_thread list \<Rightarrow> bool" where
  "bar_inv b e m ws \<longleftrightarrow> m (sense_addr b) = par e \<and> (\<forall>t \<in> set ws. bar_local e t)
     \<and> (gathering b e m ws \<or> (\<exists>i. releasing b e m ws i))"

lemma missing_update:
  "i < length ws \<Longrightarrow> missing e (ws[i := t]) + of_bool (\<not> arrived e (ws ! i)) = missing e ws + of_bool (\<not> arrived e t)"
  using length_filter_update [of i ws "\<lambda>t. \<not> arrived e t" t] by (simp add: missing_def)

lemma missing_le: "missing e ws \<le> length ws"
  by (simp add: missing_def)

lemma missing_0: "missing e ws = 0 \<longleftrightarrow> (\<forall>t \<in> set ws. arrived e t)"
  by (auto simp: missing_def filter_empty_conv)

lemma all_set_update:
  assumes "\<forall>x \<in> set xs. P x" and "P y"
  shows "\<forall>x \<in> set (xs[i := y]). P x"
  using assms set_update_subset_insert [of xs i y] by blast

text \<open>A thread arrives; the last one turns to releasing the others.\<close>

lemma gathering_enter:
  assumes "gathering b e m ws" and "bar_local e (ws ! i)" and "i < length ws" and "length ws < 2 ^ 32"
    and "b_pc (ws ! i) = Bar_enter"
  defines "t \<equiv> (ws ! i)\<lparr>b_pc := if m (count_addr b) = 1 then Bar_reset else Bar_spin, b_sense := b_sense (ws ! i) XOR 1\<rparr>"
    and "m' \<equiv> m(count_addr b := m (count_addr b) - 1)"
  shows "bar_local e t \<and> (gathering b e m' (ws[i := t]) \<or> releasing b e m' (ws[i := t]) i)"
proof -
  have l: "b_done (ws ! i) = e" "b_sense (ws ! i) = par e" using assms(2,5) by (auto simp: bar_local_def)
  have t: "arrived e t" "bar_local e t" "\<not> arrived e (ws ! i)"
    using l assms(5) by (auto simp: arrived_def t_def bar_local_def)
  have c: "missing e ws = Suc (missing e (ws[i := t]))" "m (count_addr b) = of_nat (missing e ws)" "missing e ws < 2 ^ 32"
    and pcs: "\<forall>t \<in> set ws. b_pc t = Bar_enter \<or> b_pc t = Bar_spin"
    using missing_update [OF assms(3), of e t] t missing_le [of e ws] assms(1,4) by (auto simp: gathering_def)
  have one: "m (count_addr b) = 1 \<longleftrightarrow> missing e (ws[i := t]) = 0"
    using of_nat_small_eq [of "missing e ws" 1] c by simp
  show ?thesis
  proof (cases "missing e (ws[i := t]) = 0")
    case True
    then have all: "\<forall>t \<in> set (ws[i := t]). arrived e t" by (simp add: missing_0)
    have "b_pc (ws[i := t] ! j) = Bar_spin" if "j < length ws" "j \<noteq> i" for j
      using that all bspec [OF pcs nth_mem, of j] by (auto simp: all_set_conv_all_nth arrived_def)
    moreover have "m (count_addr b) = 1" using one True by blast
    then have "b_pc t = Bar_reset" by (simp add: t_def)
    ultimately have "releasing b e m' (ws[i := t]) i" using all assms(3) by (simp add: releasing_def)
    with t(2) show ?thesis by simp
  next
    case False
    then have "m (count_addr b) \<noteq> 1" using one by simp
    then have "b_pc t = Bar_spin" by (simp add: t_def)
    then have "\<forall>t \<in> set (ws[i := t]). b_pc t = Bar_enter \<or> b_pc t = Bar_spin"
      using all_set_update [OF pcs, of t i] by simp
    with False c(1,2) t(2) show ?thesis by (simp add: gathering_def m'_def)
  qed
qed

text \<open>A thread that spins leaves when the previous episode is complete, and only then.\<close>

lemma spin_step:
  assumes "bar_local e t" and "m (sense_addr b) = par e" and "b_pc t = Bar_spin"
  shows "flat_bar b d t m = (if arrived e t then t else \<lparr>b_done = e, b_pc = Bar_enter, b_sense = par e\<rparr>, m)"
  using assms by (auto simp: flat_bar_def bar_next_def bar_local_def arrived_def)

lemma gathering_spin:
  assumes "gathering b e m ws" and "i < length ws" and "\<not> arrived e (ws ! i)"
  shows "gathering b e m (ws[i := \<lparr>b_done = e, b_pc = Bar_enter, b_sense = par e\<rparr>])"
proof -
  let ?t = "\<lparr>b_done = e, b_pc = Bar_enter, b_sense = par e\<rparr>"
  have "missing e (ws[i := ?t]) = missing e ws"
    using missing_update [OF assms(2), of e ?t] assms(3) by (simp add: arrived_def)
  moreover have "\<forall>t \<in> set (ws[i := ?t]). b_pc t = Bar_enter \<or> b_pc t = Bar_spin"
    by (rule all_set_update) (use assms(1) in \<open>simp_all add: gathering_def\<close>)
  ultimately show ?thesis using assms(1) by (simp add: gathering_def)
qed

text \<open>The last arriver opens the next episode.\<close>

lemma releasing_done:
  assumes "releasing b e m ws i" and "\<forall>t \<in> set ws. bar_local e t" and "b_pc (ws ! i) = Bar_release"
    and "int (length ws) = bar_n b" and "count_addr b \<noteq> sense_addr b"
  defines "ws' \<equiv> ws[i := \<lparr>b_done = Suc e, b_pc = Bar_enter, b_sense = par (Suc e)\<rparr>]"
  shows "bar_inv b (Suc e) (m(sense_addr b := par (Suc e))) ws'"
proof -
  have i: "i < length ws" and c: "m (count_addr b) = of_nat (length ws)" 
    using assms(1,3,4) by (auto simp: releasing_def) (metis of_int_of_nat_eq)
  have t: "b_done (ws ! j) = e" "b_pc (ws ! j) = Bar_spin" "b_sense (ws ! j) = par (Suc e)"
    if "j < length ws" "j \<noteq> i" for j
    using that assms(1) bspec [OF assms(2) nth_mem, of j] by (auto simp: releasing_def all_set_conv_all_nth arrived_def bar_local_def)
  then have l: "\<forall>t \<in> set ws'. bar_local (Suc e) t \<and> \<not> arrived (Suc e) t \<and> (b_pc t = Bar_enter \<or> b_pc t = Bar_spin)"
    by (auto simp: ws'_def all_set_conv_all_nth nth_list_update_if bar_local_def arrived_def)
  then have "missing (Suc e) ws' = length ws" by (simp add: missing_def ws'_def)
  with l i c assms(5) show ?thesis by (auto simp: bar_inv_def gathering_def)
qed

lemma releasing_step:
  assumes "releasing b e m ws i" and "\<forall>t \<in> set ws. bar_local e t" and "m (sense_addr b) = par e"
    and "int (length ws) = bar_n b" and "count_addr b \<noteq> sense_addr b" and "k < length ws"
  shows "\<exists>e. bar_inv b e (snd (flat_bar b d (ws ! k) m)) (ws[k := fst (flat_bar b d (ws ! k) m)])"
proof (cases "k = i")
  case False
  with assms have "flat_bar b d (ws ! k) m = (ws ! k, m)"
    by (subst spin_step [of e]) (auto simp: releasing_def)
  with assms show ?thesis by (auto simp: bar_inv_def)
next
  case True
  have s: "b_done (ws ! k) = e" "b_sense (ws ! k) = par (Suc e)" 
    using assms(1,2,6) by (auto simp: releasing_def arrived_def bar_local_def all_set_conv_all_nth)
  have l: "\<forall>t \<in> set (ws[k := (ws ! k)\<lparr>b_pc := pc\<rparr>]). bar_local e t \<and> arrived e t" if "pc \<noteq> Bar_enter" for pc
    using assms(1,2) s that by (intro all_set_update) (auto simp: releasing_def bar_local_def arrived_def)
  have eq: "(ws ! k)\<lparr>b_pc := pc, b_sense := par (Suc e)\<rparr> = (ws ! k)\<lparr>b_pc := pc\<rparr>" for pc
    using s(2) by (cases "ws ! k") simp
  consider "b_pc (ws ! k) = Bar_reset" | "b_pc (ws ! k) = Bar_fence" | "b_pc (ws ! k) = Bar_release"
    using assms(1) True by (auto simp: releasing_def)
  then show ?thesis
  proof cases
    case 1
    with assms l [of Bar_fence] True s have "bar_inv b e (m(count_addr b := of_int (bar_n b))) (ws[k := (ws ! k)\<lparr>b_pc := Bar_fence\<rparr>])"
      by (auto simp: bar_inv_def releasing_def intro!: exI [of _ i])
    with 1 s(2) show ?thesis by (auto simp: flat_bar_def bar_next_def eq)
  next
    case 2
    with assms l [of Bar_release] True s have "bar_inv b e m (ws[k := (ws ! k)\<lparr>b_pc := Bar_release\<rparr>])"
      by (auto simp: bar_inv_def releasing_def intro!: exI [of _ i])
    with 2 s(2) show ?thesis by (auto simp: flat_bar_def bar_next_def eq)
  next
    case 3
    with releasing_done [OF assms(1,2) _ assms(4,5)] True s show ?thesis
      by (auto simp: flat_bar_def bar_next_def)
  qed
qed

lemma bar_inv_step:
  assumes "bar_inv b e m ws" and "int (length ws) = bar_n b" and "length ws < 2 ^ 32"
    and "count_addr b \<noteq> sense_addr b" and "k < length ws"
  shows "\<exists>e. bar_inv b e (snd (flat_bar b d (ws ! k) m)) (ws[k := fst (flat_bar b d (ws ! k) m)])"
proof -
  have s: "m (sense_addr b) = par e" "\<forall>t \<in> set ws. bar_local e t" "bar_local e (ws ! k)"
    using assms(1,5) by (auto simp: bar_inv_def)
  from assms(1) consider "gathering b e m ws" | i where "releasing b e m ws i" by (auto simp: bar_inv_def)
  then show ?thesis
  proof cases
    case 1
    then consider "b_pc (ws ! k) = Bar_enter" | "b_pc (ws ! k) = Bar_spin"
      using bspec [OF _ nth_mem [OF assms(5)]] by (auto simp: gathering_def)
    then show ?thesis
    proof cases
      assume e: "b_pc (ws ! k) = Bar_enter"
      from gathering_enter [OF 1 s(3) assms(5,3) e] s assms(4) e show ?thesis
        by (intro exI [of _ e]) (auto simp: bar_inv_def flat_bar_def bar_next_def Let_def dest!: subsetD [OF set_update_subset_insert])
    next
      assume p: "b_pc (ws ! k) = Bar_spin"
      have "bar_local e \<lparr>b_done = e, b_pc = Bar_enter, b_sense = par e\<rparr>" by (simp add: bar_local_def)
      with gathering_spin [OF 1 assms(5)] s 1 assms(1) show ?thesis
        unfolding spin_step [where m = m and b = b, OF s(3,1) p]
        by (auto simp: bar_inv_def intro!: exI [of _ e] dest!: subsetD [OF set_update_subset_insert])
    qed
  next
    case 2
    then show ?thesis by (rule releasing_step) (use s(1,2) assms(2,4,5) in simp_all)
  qed
qed

section \<open>Every interleaving\<close>

text \<open>A barrier that \<open>init\<close> has set up for the threads of a pool.\<close>

definition bar_ready :: "Barrier \<Rightarrow> nat \<Rightarrow> MesiSystem \<Rightarrow> bool" where
  "bar_ready b n s \<longleftrightarrow> sys_ok s \<and> n_cores s = int n \<and> bar_n b = int n \<and> n < 2 ^ 32
     \<and> count_addr b \<noteq> sense_addr b \<and> sys_val s (count_addr b) = of_nat n \<and> sys_val s (sense_addr b) = 0"

lemma Barrier_init_ready:
  assumes "reachable (int n) s" and "bar_n b = int n" and "n < 2 ^ 32" and "count_addr b \<noteq> sense_addr b"
    and "validate_core s d"
  shows "\<exists>s'. Barrier_init b d s = Inr s' \<and> bar_ready b n s'"
proof -
  have s: "sys_ok s" "n_cores s = int n" using reachable_ok [OF assms(1)] by simp_all
  obtain s1 where s1: "Dut_write d (count_addr b) (of_int (bar_n b)) s = Inr s1" "sys_ok s1"
    "validate_core s1 = validate_core s" "sys_val s1 = (sys_val s)(count_addr b := of_int (bar_n b))"
    using Dut_write_ok [OF s(1) assms(5)] by blast
  obtain s2 where s2: "Dut_write d (sense_addr b) 0 s1 = Inr s2" "sys_ok s2"
    "validate_core s2 = validate_core s1" "sys_val s2 = (sys_val s1)(sense_addr b := 0)"
    using Dut_write_ok [OF s1(2), of d] s1(3) assms(5) by auto
  have "n_cores s2 = int n" using n_cores_eqI [of s2 s] s1(3) s2(3) s(2) by simp
  with s1 s2 assms(2-4) show ?thesis by (simp add: Barrier_init_def bar_ready_def)
qed

lemma bar_pool_inv:
  assumes "(pool_step (bar_act b))\<^sup>*\<^sup>* (s, replicate n bar_fresh) (s', ws)" and "bar_ready b n s" and "0 < n"
  shows "(\<exists>e. bar_inv b e (sys_val s') ws) \<and> flat_pool s' n (\<lambda>_. True) \<and> length ws = n"
proof -
  have r: "sys_ok s" "n_cores s = int n" "bar_n b = int n" "n < 2 ^ 32" "count_addr b \<noteq> sense_addr b"
    "sys_val s (count_addr b) = of_nat n" "sys_val s (sense_addr b) = 0"
    using assms(2) by (simp_all add: bar_ready_def)
  let ?P = "\<lambda>m ws. length ws = n \<and> (\<exists>e. bar_inv b e m ws)"
  have i: "bar_inv b 0 (sys_val s) (replicate n bar_fresh)"
    using r(6,7) assms(3) by (auto simp: bar_inv_def bar_local_def gathering_def missing_def bar_fresh_def par_def arrived_def)
  have "?P (sys_val s') ws \<and> flat_pool s' (length ws) (\<lambda>_. True) \<and> length ws = length (replicate n bar_fresh)"
  proof (rule bar.pool_invariant [OF assms(1)])
    show "flat_pool s (length (replicate n bar_fresh)) (\<lambda>_. True)"
      using r(1,2) by (simp add: flat_pool_def validate_core_eq)
    show "?P (sys_val s) (replicate n bar_fresh)" using i by auto
    show "?P (snd (flat_bar b (int k) (ws ! k) m)) (ws[k := fst (flat_bar b (int k) (ws ! k) m)])"
      if "?P m ws" "k < length ws" for m ws k
      using that bar_inv_step [of b _ m ws k "int k"] r(3-5) by auto
  qed
  then show ?thesis by auto
qed

text \<open>Nobody leaves an episode that somebody has not reached.\<close>

lemma bar_inv_order:
  assumes "bar_inv b e m ws" and "i < length ws" and "j < length ws"
  shows "b_done (ws ! i) \<le> b_started (ws ! j)"
proof -
  have "bar_local e (ws ! i)" "bar_local e (ws ! j)" using assms by (simp_all add: bar_inv_def)
  then show ?thesis by (auto simp: bar_local_def b_started_def)
qed

text \<open>Some thread can always go on: the pool is never stuck with every thread spinning in vain.\<close>

lemma bar_inv_progress:
  assumes "bar_inv b e m ws" and "ws \<noteq> []"
  shows "\<exists>i < length ws. b_pc (fst (flat_bar b (int i) (ws ! i) m)) \<noteq> b_pc (ws ! i)"
proof -
  from assms(1) consider "gathering b e m ws" | i where "releasing b e m ws i" by (auto simp: bar_inv_def)
  then show ?thesis
  proof cases
    case 1
    then obtain i where i: "i < length ws" "\<not> arrived e (ws ! i)"
      by (auto simp: gathering_def missing_0 all_set_conv_all_nth)
    have s: "bar_local e (ws ! i)" "m (sense_addr b) = par e" using assms(1) i by (simp_all add: bar_inv_def)
    from i(2) s(1) consider "b_pc (ws ! i) = Bar_enter" | "b_pc (ws ! i) = Bar_spin"
      by (auto simp: bar_local_def arrived_def)
    then show ?thesis
      by cases (use i s spin_step [where m = m and b = b and d = "int i", OF s] in
        \<open>auto simp: flat_bar_def bar_next_def intro!: exI [of _ i] split: if_splits\<close>)
  next
    case 2
    then have "i < length ws" "b_pc (ws ! i) \<in> {Bar_reset, Bar_fence, Bar_release}" by (auto simp: releasing_def)
    then show ?thesis by (auto simp: flat_bar_def bar_next_def intro!: exI [of _ i])
  qed
qed

end
