(* ===== verification/Seqlock.thy ===== *)
theory Seqlock
  imports Flat_Threads
begin

text \<open>
  The sequence lock of \<^verbatim>\<open>primitives/seqlock.hpp\<close>: one writer and any number of readers. Both functions
  are cut at their accesses; \<^verbatim>\<open>out\<close>, which the reader's caller passes by reference, is part of the
  state of the call. \<^verbatim>\<open>vals[i]\<close> beyond the end of \<^verbatim>\<open>vals\<close> is undefined behaviour; the theorems take
  vectors of \<^verbatim>\<open>n_words\<close> words. A loop whose bound is negative does not run. \<^verbatim>\<open>4 * i\<close> is an \<^verbatim>\<open>int\<close> product, so a lock of
  more than \<open>2 ^ 29\<close> words overflows.
\<close>

section \<open>The lock\<close>

record Seqlock =
  seq_addr :: u32
  data_base :: u32
  n_words :: int

definition data_word :: "Seqlock \<Rightarrow> nat \<Rightarrow> exn + u32" where
  "data_word sl i = sbind (int_mul 4 (int i)) (\<lambda>k. Inr (data_base sl + of_int k))"

text \<open>In the loop over the words the test is done together with the access that follows it.\<close>

datatype seq_wpc = Sw_read | Sw_odd u32 | Sw_fence1 u32 | Sw_loop u32 nat | Sw_even u32

fun Seqlock_write ::
    "Seqlock \<Rightarrow> u32 list \<Rightarrow> int \<Rightarrow> seq_wpc \<Rightarrow> MesiSystem \<Rightarrow> exn + ((seq_wpc + unit) \<times> MesiSystem)" where
  "Seqlock_write sl vals d Sw_read s =
     sbind (Dut_read d (seq_addr sl) s) (\<lambda>(sq, s). Inr (Inl (Sw_odd sq), s))"
| "Seqlock_write sl vals d (Sw_odd sq) s =
     sbind (Dut_write d (seq_addr sl) (sq + 1) s) (\<lambda>s. Inr (Inl (Sw_fence1 sq), s))"
| "Seqlock_write sl vals d (Sw_fence1 sq) s =
     sbind (Dut_fence d s) (\<lambda>s. Inr (Inl (Sw_loop sq 0), s))"
| "Seqlock_write sl vals d (Sw_loop sq i) s =
     (if int i < n_words sl then
        sbind (data_word sl i) (\<lambda>a. sbind (Dut_write d a (vals ! i) s) (\<lambda>s. Inr (Inl (Sw_loop sq (i + 1)), s)))
      else sbind (Dut_fence d s) (\<lambda>s. Inr (Inl (Sw_even sq), s)))"
| "Seqlock_write sl vals d (Sw_even sq) s =
     sbind (Dut_write d (seq_addr sl) (sq + 2) s) (\<lambda>s. Inr (Inr (), s))"

datatype seq_rpc = Sr_read | Sr_fence1 u32 | Sr_loop u32 nat | Sr_check u32

text \<open>\<^verbatim>\<open>out.resize(n)\<close>: new elements are zero.\<close>

definition resize_vec :: "nat \<Rightarrow> u32 list \<Rightarrow> u32 list" where
  "resize_vec n xs = take n xs @ replicate (n - length xs) 0"

fun Seqlock_try_read ::
    "Seqlock \<Rightarrow> int \<Rightarrow> seq_rpc \<times> u32 list \<Rightarrow> MesiSystem
     \<Rightarrow> exn + ((seq_rpc \<times> u32 list + bool \<times> u32 list) \<times> MesiSystem)" where
  "Seqlock_try_read sl d (Sr_read, out) s =
     sbind (Dut_read d (seq_addr sl) s)
       (\<lambda>(s1, s). Inr (if s1 AND 1 \<noteq> 0 then Inr (False, out) else Inl (Sr_fence1 s1, out), s))"
| "Seqlock_try_read sl d (Sr_fence1 s1, out) s =
     sbind (Dut_fence d s) (\<lambda>s. Inr (Inl (Sr_loop s1 0, resize_vec (nat (n_words sl)) out), s))"
| "Seqlock_try_read sl d (Sr_loop s1 i, out) s =
     (if int i < n_words sl then
        sbind (data_word sl i) (\<lambda>a. sbind (Dut_read d a s) (\<lambda>(v, s). Inr (Inl (Sr_loop s1 (i + 1), out[i := v]), s)))
      else sbind (Dut_fence d s) (\<lambda>s. Inr (Inl (Sr_check s1, out), s)))"
| "Seqlock_try_read sl d (Sr_check s1, out) s =
     sbind (Dut_read d (seq_addr sl) s) (\<lambda>(s2, s). Inr (Inr (s1 = s2, out), s))"

definition retry :: "seq_rpc \<times> u32 list + bool \<times> u32 list \<Rightarrow> seq_rpc \<times> u32 list + u32 list" where
  "retry r = (case r of Inl p \<Rightarrow> Inl p | Inr (done, out) \<Rightarrow> if done then Inr out else Inl (Sr_read, out))"

definition Seqlock_read_retry ::
    "Seqlock \<Rightarrow> int \<Rightarrow> seq_rpc \<times> u32 list \<Rightarrow> MesiSystem
     \<Rightarrow> exn + ((seq_rpc \<times> u32 list + u32 list) \<times> MesiSystem)" where
  "Seqlock_read_retry sl d p s = sbind (Seqlock_try_read sl d p s) (\<lambda>(r, s). Inr (retry r, s))"

section \<open>Threads\<close>

text \<open>The writer has a list of versions to write; a reader collects the snapshots it gets.\<close>

datatype seq_thread =
    Seq_writer "u32 list list" seq_wpc
  | Seq_reader seq_rpc "u32 list" "u32 list list"

definition writer_next :: "u32 list \<Rightarrow> u32 list list \<Rightarrow> seq_wpc + unit \<Rightarrow> seq_thread" where
  "writer_next vals todo r = (case r of Inl pc \<Rightarrow> Seq_writer (vals # todo) pc | Inr _ \<Rightarrow> Seq_writer todo Sw_read)"

definition reader_next :: "u32 list list \<Rightarrow> seq_rpc \<times> u32 list + u32 list \<Rightarrow> seq_thread" where
  "reader_next got r = (case r of Inl (pc, out) \<Rightarrow> Seq_reader pc out got | Inr out \<Rightarrow> Seq_reader Sr_read out (got @ [out]))"

fun seq_act :: "Seqlock \<Rightarrow> int \<Rightarrow> seq_thread \<Rightarrow> MesiSystem \<Rightarrow> exn + (seq_thread \<times> MesiSystem)" where
  "seq_act sl d (Seq_writer [] pc) s = Inr (Seq_writer [] pc, s)"
| "seq_act sl d (Seq_writer (vals # todo) pc) s =
     sbind (Seqlock_write sl vals d pc s) (\<lambda>(r, s). Inr (writer_next vals todo r, s))"
| "seq_act sl d (Seq_reader pc out got) s =
     sbind (Seqlock_read_retry sl d (pc, out) s) (\<lambda>(r, s). Inr (reader_next got r, s))"

lemmas [exec_simps] = data_word_def resize_vec_def retry_def Seqlock_read_retry_def
  writer_next_def reader_next_def

section \<open>Steps on the flat memory\<close>

text \<open>The address of word \<open>i\<close>, where the product does not overflow.\<close>

definition word_at :: "Seqlock \<Rightarrow> nat \<Rightarrow> u32" where
  "word_at sl i = data_base sl + 4 * of_nat i"

lemma data_word_at: "i < 2 ^ 29 \<Longrightarrow> data_word sl i = Inr (word_at sl i)"
  by (simp add: data_word_def word_at_def int_mul_index)

fun flat_seq_write :: "Seqlock \<Rightarrow> u32 list \<Rightarrow> seq_wpc \<Rightarrow> flat_mem \<Rightarrow> (seq_wpc + unit) \<times> flat_mem" where
  "flat_seq_write sl vals Sw_read m = (Inl (Sw_odd (m (seq_addr sl))), m)"
| "flat_seq_write sl vals (Sw_odd sq) m = (Inl (Sw_fence1 sq), m(seq_addr sl := sq + 1))"
| "flat_seq_write sl vals (Sw_fence1 sq) m = (Inl (Sw_loop sq 0), m)"
| "flat_seq_write sl vals (Sw_loop sq i) m =
     (if int i < n_words sl then (Inl (Sw_loop sq (i + 1)), m(word_at sl i := vals ! i)) else (Inl (Sw_even sq), m))"
| "flat_seq_write sl vals (Sw_even sq) m = (Inr (), m(seq_addr sl := sq + 2))"

fun flat_try_read ::
    "Seqlock \<Rightarrow> seq_rpc \<times> u32 list \<Rightarrow> flat_mem \<Rightarrow> seq_rpc \<times> u32 list + bool \<times> u32 list" where
  "flat_try_read sl (Sr_read, out) m =
     (if m (seq_addr sl) AND 1 \<noteq> 0 then Inr (False, out) else Inl (Sr_fence1 (m (seq_addr sl)), out))"
| "flat_try_read sl (Sr_fence1 s1, out) m = Inl (Sr_loop s1 0, resize_vec (nat (n_words sl)) out)"
| "flat_try_read sl (Sr_loop s1 i, out) m =
     (if int i < n_words sl then Inl (Sr_loop s1 (i + 1), out[i := m (word_at sl i)]) else Inl (Sr_check s1, out))"
| "flat_try_read sl (Sr_check s1, out) m = Inr (s1 = m (seq_addr sl), out)"

fun flat_seq :: "Seqlock \<Rightarrow> int \<Rightarrow> seq_thread \<Rightarrow> flat_mem \<Rightarrow> seq_thread \<times> flat_mem" where
  "flat_seq sl d (Seq_writer [] pc) m = (Seq_writer [] pc, m)"
| "flat_seq sl d (Seq_writer (vals # todo) pc) m =
     (writer_next vals todo (fst (flat_seq_write sl vals pc m)), snd (flat_seq_write sl vals pc m))"
| "flat_seq sl d (Seq_reader pc out got) m = (reader_next got (retry (flat_try_read sl (pc, out) m)), m)"

lemma data_word_small: "int i < n_words sl \<Longrightarrow> n_words sl \<le> 2 ^ 29 \<Longrightarrow> data_word sl i = Inr (word_at sl i)"
  by (rule data_word_at) (simp add: nat_less_iff)

lemma Seqlock_write_flat:
  assumes "sys_ok s" and "validate_core s d" and "n_words sl \<le> 2 ^ 29"
  shows "acts_as (Seqlock_write sl vals d pc s) s (flat_seq_write sl vals pc (sys_val s))"
  by (cases pc) (simp_all add: flat_simps assms(1,2) data_word_small [OF _ assms(3)])

lemma Seqlock_try_read_flat:
  assumes "sys_ok s" and "validate_core s d" and "n_words sl \<le> 2 ^ 29"
  shows "acts_as (Seqlock_try_read sl d p s) s (flat_try_read sl p (sys_val s), sys_val s)"
  by (cases "(sl, p, sys_val s)" rule: flat_try_read.cases) (simp_all add: flat_simps assms(1,2) data_word_small [OF _ assms(3)])

lemma Seqlock_read_retry_flat:
  assumes "sys_ok s" and "validate_core s d" and "n_words sl \<le> 2 ^ 29"
  shows "acts_as (Seqlock_read_retry sl d p s) s (retry (flat_try_read sl p (sys_val s)), sys_val s)"
  using acts_as_wrap [OF Seqlock_try_read_flat [OF assms], where f = retry] by (simp add: Seqlock_read_retry_def)

interpretation seql: flat_threads "seq_act sl" "flat_seq sl" "\<lambda>_. n_words sl \<le> 2 ^ 29" for sl
proof
  fix s c w
  assume a: "sys_ok s" "validate_core s c" "n_words sl \<le> 2 ^ 29"
  show "acts_as (seq_act sl c w s) s (flat_seq sl c w (sys_val s))"
    using acts_as_wrap [OF Seqlock_write_flat [OF a]] acts_as_wrap [OF Seqlock_read_retry_flat [OF a]] a
    by (cases "(sl, c, w, sys_val s)" rule: flat_seq.cases) (fastforce simp: flat_simps)+
qed

section \<open>Versions\<close>

text \<open>
  \<open>V\<close> lists the versions: what the words hold at first and what the writer writes. The sequence
  number is \<open>p\<close> steps beyond its first, even value \<open>q0\<close>: version \<open>p div 2\<close> is complete, and an odd \<open>p\<close>
  says that the next one is being written.
\<close>

definition written_words :: "Seqlock \<Rightarrow> seq_wpc \<Rightarrow> nat" where
  "written_words sl pc = (case pc of
     Sw_loop _ i \<Rightarrow> i | Sw_even _ \<Rightarrow> nat (n_words sl) | _ \<Rightarrow> 0)"

definition seq_seen :: "seq_wpc \<Rightarrow> u32 option" where
  "seq_seen pc = (case pc of Sw_read \<Rightarrow> None | Sw_odd q \<Rightarrow> Some q | Sw_fence1 q \<Rightarrow> Some q | Sw_loop q i \<Rightarrow> Some q
     | Sw_even q \<Rightarrow> Some q)"

definition writing :: "seq_wpc \<Rightarrow> bool" where
  "writing pc \<longleftrightarrow> (case pc of Sw_read \<Rightarrow> False | Sw_odd _ \<Rightarrow> False | _ \<Rightarrow> True)"

definition writer_ok :: "Seqlock \<Rightarrow> u32 \<Rightarrow> u32 list list \<Rightarrow> nat \<Rightarrow> flat_mem \<Rightarrow> nat \<Rightarrow> seq_wpc \<Rightarrow> bool" where
  "writer_ok sl q0 V p m K pc \<longleftrightarrow>
     K < length V \<and> p = 2 * K + of_bool (writing pc) \<and> (pc \<noteq> Sw_read \<longrightarrow> Suc K < length V)
     \<and> (\<forall>q. seq_seen pc = Some q \<longrightarrow> q = q0 + of_nat (2 * K))
     \<and> (\<forall>q i. pc = Sw_loop q i \<longrightarrow> i \<le> nat (n_words sl))
     \<and> (\<forall>j < nat (n_words sl). m (word_at sl j) = (if j < written_words sl pc then V ! Suc K else V ! K) ! j)"

definition taken_words :: "Seqlock \<Rightarrow> seq_rpc \<Rightarrow> nat" where
  "taken_words sl pc = (case pc of
     Sr_loop _ i \<Rightarrow> i | Sr_check _ \<Rightarrow> nat (n_words sl) | _ \<Rightarrow> 0)"

definition seq_begun :: "seq_rpc \<Rightarrow> u32 option" where
  "seq_begun pc = (case pc of Sr_read \<Rightarrow> None | Sr_fence1 q \<Rightarrow> Some q | Sr_loop q i \<Rightarrow> Some q
     | Sr_check q \<Rightarrow> Some q)"

definition copying :: "seq_rpc \<Rightarrow> bool" where
  "copying pc \<longleftrightarrow> (case pc of Sr_read \<Rightarrow> False | Sr_fence1 _ \<Rightarrow> False | _ \<Rightarrow> True)"

definition reader_ok :: "Seqlock \<Rightarrow> u32 \<Rightarrow> u32 list list \<Rightarrow> nat \<Rightarrow> seq_rpc \<Rightarrow> u32 list \<Rightarrow> bool" where
  "reader_ok sl q0 V p pc out \<longleftrightarrow>
     (\<forall>q. seq_begun pc = Some q \<longrightarrow> (\<exists>k < length V. q = q0 + of_nat (2 * k) \<and> 2 * k \<le> p
        \<and> (p = 2 * k \<longrightarrow> (\<forall>j < taken_words sl pc. out ! j = V ! k ! j))))
     \<and> (copying pc \<longrightarrow> length out = nat (n_words sl))
     \<and> (\<forall>q i. pc = Sr_loop q i \<longrightarrow> i \<le> nat (n_words sl))"

lemmas seq_pc_defs = written_words_def seq_seen_def writing_def taken_words_def seq_begun_def copying_def

text \<open>What the readers rely on: the number, its bound, and a complete version whenever it is even.\<close>

definition seq_stable :: "Seqlock \<Rightarrow> u32 \<Rightarrow> u32 list list \<Rightarrow> nat \<Rightarrow> flat_mem \<Rightarrow> bool" where
  "seq_stable sl q0 V p m \<longleftrightarrow> m (seq_addr sl) = q0 + of_nat p \<and> p div 2 < length V
     \<and> (even p \<longrightarrow> (\<forall>j < nat (n_words sl). m (word_at sl j) = V ! (p div 2) ! j))"

definition seq_setup :: "Seqlock \<Rightarrow> u32 \<Rightarrow> u32 list list \<Rightarrow> bool" where
  "seq_setup sl q0 V \<longleftrightarrow> even q0 \<and> length V < 2 ^ 31 \<and> (\<forall>v \<in> set V. length v = nat (n_words sl))
     \<and> (\<forall>j < nat (n_words sl). word_at sl j \<noteq> seq_addr sl) \<and> n_words sl \<le> 2 ^ 29"

lemma word_at_inj:
  assumes "i < 2 ^ 29" and "j < 2 ^ 29"
  shows "word_at sl i = word_at sl j \<longleftrightarrow> i = j"
proof -
  have "of_nat (4 * i) = (of_nat (4 * j) :: u32) \<longleftrightarrow> i = j"
    using assms by (subst of_nat_small_eq) simp_all
  then show ?thesis by (simp add: word_at_def)
qed

lemma writer_stable:
  "writer_ok sl q0 V p m K pc \<Longrightarrow> m (seq_addr sl) = q0 + of_nat p \<Longrightarrow> seq_stable sl q0 V p m"
  by (cases pc) (auto simp: writer_ok_def seq_stable_def seq_pc_defs)

lemma reader_mono: "reader_ok sl q0 V p pc out \<Longrightarrow> p \<le> p' \<Longrightarrow> reader_ok sl q0 V p' pc out"
  unfolding reader_ok_def by fastforce

lemma reader_start [simp]: "reader_ok sl q0 V p Sr_read out"
  by (simp add: reader_ok_def seq_pc_defs)

text \<open>One step of a reader; a snapshot it returns is a version.\<close>

lemma reader_step:
  assumes "reader_ok sl q0 V p pc out" and "seq_stable sl q0 V p m" and "seq_setup sl q0 V"
  shows "case retry (flat_try_read sl (pc, out) m) of
      Inl (pc', out') \<Rightarrow> reader_ok sl q0 V p pc' out' | Inr out' \<Rightarrow> out' \<in> set V"
proof (cases pc)
  case Sr_read
  have "even p" if "m (seq_addr sl) AND 1 = 0"
    using that assms(2,3) by (simp add: seq_stable_def seq_setup_def and_one_eq even_of_nat_word flip: even_iff_mod_2_eq_zero)
  with assms Sr_read show ?thesis
    by (auto simp: retry_def reader_ok_def seq_pc_defs seq_stable_def simp del: of_nat_mult
        intro!: exI [of _ "p div 2"])
next
  case (Sr_fence1 q)
  then show ?thesis using assms(1)
    by (auto simp: retry_def reader_ok_def seq_pc_defs resize_vec_def)
next
  case (Sr_loop q i)
  then obtain k where k: "k < length V" "q = q0 + of_nat (2 * k)" "2 * k \<le> p"
    "p = 2 * k \<Longrightarrow> j < i \<Longrightarrow> out ! j = V ! k ! j" and l: "length out = nat (n_words sl)" "i \<le> nat (n_words sl)" for j
    using assms(1) by (auto simp: reader_ok_def seq_pc_defs)
  show ?thesis
  proof (cases "int i < n_words sl")
    case True
    have "out[i := m (word_at sl i)] ! j = V ! k ! j" if "p = 2 * k" "j < Suc i" for j
      using that k(4) l True assms(2) by (auto simp: seq_stable_def nth_list_update_if less_Suc_eq)
    with True k(1-3) l Sr_loop show ?thesis
      by (auto simp: retry_def reader_ok_def seq_pc_defs intro!: exI [of _ k])
  next
    case False
    with l(2) have "i = nat (n_words sl)" by simp
    with False k l Sr_loop show ?thesis by (auto simp: retry_def reader_ok_def seq_pc_defs intro!: exI [of _ k])
  qed
next
  case (Sr_check q)
  then obtain k where k: "k < length V" "q = q0 + of_nat (2 * k)" "2 * k \<le> p"
    "p = 2 * k \<Longrightarrow> j < nat (n_words sl) \<Longrightarrow> out ! j = V ! k ! j" and l: "length out = nat (n_words sl)" for j
    using assms(1) by (auto simp: reader_ok_def seq_pc_defs)
  have "out \<in> set V" if "q = m (seq_addr sl)"
  proof -
    have b: "p < 2 ^ 32" "2 * k < 2 ^ 32" using assms(2,3) k(3) by (auto simp: seq_stable_def seq_setup_def)
    from that have "(of_nat p :: u32) = of_nat (2 * k)" using k(2) assms(2) by (simp add: seq_stable_def)
    then have "p = 2 * k" using of_nat_small_eq [OF b] by blast
    with k(1,4) l assms(3) have "out = V ! k" by (intro nth_equalityI) (simp_all add: seq_setup_def)
    with k(1) show ?thesis by simp
  qed
  with Sr_check show ?thesis by (auto simp: retry_def reader_ok_def seq_pc_defs)
qed

text \<open>One step of the writer: the number never goes back.\<close>

lemma writer_step:
  assumes "writer_ok sl q0 V p m K pc" and "m (seq_addr sl) = q0 + of_nat p" and "seq_setup sl q0 V"
    and "vals = V ! Suc K" and "Suc K < length V"
  defines "m' \<equiv> snd (flat_seq_write sl vals pc m)"
  shows "\<exists>p' \<ge> p. m' (seq_addr sl) = q0 + of_nat p'
    \<and> (case fst (flat_seq_write sl vals pc m) of Inl pc' \<Rightarrow> writer_ok sl q0 V p' m' K pc'
       | Inr _ \<Rightarrow> writer_ok sl q0 V p' m' (Suc K) Sw_read)"
proof (cases pc)
  case (Sw_loop q i)
  have p: "p = 2 * K + 1" "q = q0 + of_nat (2 * K)" "i \<le> nat (n_words sl)"
    using assms(1) Sw_loop by (auto simp: writer_ok_def seq_pc_defs)
  show ?thesis
  proof (cases "int i < n_words sl")
    case True
    have i: "i < nat (n_words sl)" using True by simp
    have ne: "word_at sl j \<noteq> seq_addr sl" if "j < nat (n_words sl)" for j
      using assms(3) that by (simp add: seq_setup_def)
    have inj: "word_at sl j = word_at sl i \<longleftrightarrow> j = i" if "j < nat (n_words sl)" for j
      using that i assms(3) by (intro word_at_inj) (auto simp: seq_setup_def)
    have "m' (word_at sl j) = (if j < Suc i then V ! Suc K else V ! K) ! j" if "j < nat (n_words sl)" for j
      using that assms(1,4) Sw_loop True inj [OF that] by (auto simp: m'_def writer_ok_def seq_pc_defs less_Suc_eq)
    moreover have "m' (seq_addr sl) = q0 + of_nat p" using assms(2) Sw_loop True ne [OF i] by (simp add: m'_def)
    ultimately show ?thesis
      using Sw_loop True i p assms(5) by (intro exI [of _ p]) (auto simp: writer_ok_def seq_pc_defs)
  next
    case False
    with p(3) have "i = nat (n_words sl)" by simp
    with False Sw_loop p assms(1,2,5) show ?thesis
      by (intro exI [of _ p]) (auto simp: m'_def writer_ok_def seq_pc_defs)
  qed
next
  case (Sw_even q)
  have "of_nat (2 * K) + 2 = (of_nat (2 * Suc K) :: u32)" by simp
  with assms(1-5) Sw_even show ?thesis
    by (intro exI [of _ "2 * Suc K"]) (auto simp: m'_def writer_ok_def seq_pc_defs seq_setup_def)
qed (use assms in \<open>auto simp: m'_def writer_ok_def seq_pc_defs seq_setup_def intro!: exI [of _ "2 * K + 1"]\<close>)

section \<open>Every interleaving\<close>

fun seq_reader_ok :: "Seqlock \<Rightarrow> u32 \<Rightarrow> u32 list list \<Rightarrow> nat \<Rightarrow> seq_thread \<Rightarrow> bool" where
  "seq_reader_ok sl q0 V p (Seq_reader pc out got) \<longleftrightarrow> reader_ok sl q0 V p pc out \<and> set got \<subseteq> set V"
| "seq_reader_ok sl q0 V p (Seq_writer todo pc) \<longleftrightarrow> False"

definition seq_inv :: "Seqlock \<Rightarrow> u32 \<Rightarrow> u32 list list \<Rightarrow> flat_mem \<Rightarrow> seq_thread list \<Rightarrow> bool" where
  "seq_inv sl q0 V m ws \<longleftrightarrow> (\<exists>p K pc rs. ws = Seq_writer (drop (Suc K) V) pc # rs
     \<and> m (seq_addr sl) = q0 + of_nat p \<and> writer_ok sl q0 V p m K pc \<and> (\<forall>r \<in> set rs. seq_reader_ok sl q0 V p r))"

lemma seq_inv_step:
  assumes "seq_inv sl q0 V m ws" and "seq_setup sl q0 V" and "i < length ws"
  shows "seq_inv sl q0 V (snd (flat_seq sl d (ws ! i) m)) (ws[i := fst (flat_seq sl d (ws ! i) m)])"
proof -
  obtain p K pc rs where w: "ws = Seq_writer (drop (Suc K) V) pc # rs" "m (seq_addr sl) = q0 + of_nat p"
    "writer_ok sl q0 V p m K pc" "\<forall>r \<in> set rs. seq_reader_ok sl q0 V p r"
    using assms(1) by (auto simp: seq_inv_def)
  show ?thesis
  proof (cases i)
    case 0
    show ?thesis
    proof (cases "Suc K < length V")
      case False
      with w 0 assms(1) show ?thesis by simp
    next
      case True
      then have d: "drop (Suc K) V = V ! Suc K # drop (Suc (Suc K)) V" by (simp add: Cons_nth_drop_Suc)
      let ?r = "flat_seq_write sl (V ! Suc K) pc m"
      obtain p' where p': "p \<le> p'" "snd ?r (seq_addr sl) = q0 + of_nat p'"
        "case fst ?r of Inl pc' \<Rightarrow> writer_ok sl q0 V p' (snd ?r) K pc' | Inr _ \<Rightarrow> writer_ok sl q0 V p' (snd ?r) (Suc K) Sw_read"
        using writer_step [where m = m and sl = sl, OF w(3,2) assms(2) refl True] by blast
      have "\<forall>r \<in> set rs. seq_reader_ok sl q0 V p' r"
      proof
        fix r assume "r \<in> set rs"
        with w(4) have "seq_reader_ok sl q0 V p r" by simp
        then show "seq_reader_ok sl q0 V p' r" using reader_mono [OF _ p'(1)] by (cases r) auto
      qed
      moreover have "\<exists>K' pc'. writer_next (V ! Suc K) (drop (Suc (Suc K)) V) (fst ?r) = Seq_writer (drop (Suc K') V) pc'
          \<and> writer_ok sl q0 V p' (snd ?r) K' pc'"
        using p'(3) d [symmetric] by (cases "fst ?r") (auto simp: writer_next_def)
      ultimately show ?thesis using p'(2) d w(1) 0 by (auto simp: seq_inv_def simp del: drop_Suc)
    qed
  next
    case (Suc j)
    then have j: "j < length rs" "ws ! i = rs ! j" using assms(3) w(1) by simp_all
    obtain pr out got where r: "rs ! j = Seq_reader pr out got" "reader_ok sl q0 V p pr out" "set got \<subseteq> set V"
      using w(4) nth_mem [OF j(1)] by (cases "rs ! j") auto
    from reader_step [OF r(2) writer_stable [where m = m and sl = sl, OF w(3,2)] assms(2)] r(3)
    have "seq_reader_ok sl q0 V p (reader_next got (retry (flat_try_read sl (pr, out) m)))"
      by (auto simp: reader_next_def split: sum.splits)
    then have "\<forall>r \<in> set (rs[j := reader_next got (retry (flat_try_read sl (pr, out) m))]). seq_reader_ok sl q0 V p r"
      using w(4) by (auto dest!: subsetD [OF set_update_subset_insert])
    with w(1-3) Suc j r(1) show ?thesis unfolding seq_inv_def by auto
  qed
qed

lemma seq_pool_inv:
  assumes "(pool_step (seq_act sl))\<^sup>*\<^sup>* (s, Seq_writer vss Sw_read # replicate n (Seq_reader Sr_read [] [])) (s', ws)"
    and "sys_ok s" and "n_cores s = int (Suc n)" and "seq_setup sl (sys_val s (seq_addr sl)) (v0 # vss)"
    and "v0 = map (\<lambda>j. sys_val s (word_at sl j)) [0..<nat (n_words sl)]"
  shows "seq_inv sl (sys_val s (seq_addr sl)) (v0 # vss) (sys_val s') ws \<and> length ws = Suc n"
proof -
  let ?V = "v0 # vss" and ?ws = "Seq_writer vss Sw_read # replicate n (Seq_reader Sr_read [] [])"
  have "writer_ok sl (sys_val s (seq_addr sl)) ?V 0 (sys_val s) 0 Sw_read"
    using assms(5) by (auto simp: writer_ok_def seq_pc_defs)
  moreover have "reader_ok sl q ?V 0 Sr_read []" for q by (simp add: reader_ok_def seq_pc_defs)
  ultimately have i: "seq_inv sl (sys_val s (seq_addr sl)) ?V (sys_val s) ?ws"
    unfolding seq_inv_def by (intro exI [of _ 0] exI [of _ Sw_read] exI [of _ "replicate n (Seq_reader Sr_read [] [])"]) auto
  have f: "flat_pool s (length ?ws) (\<lambda>_. n_words sl \<le> 2 ^ 29)"
    using assms(2-4) by (auto simp: flat_pool_def validate_core_eq seq_setup_def)
  from seql.pool_invariant [OF assms(1) f, of "seq_inv sl (sys_val s (seq_addr sl)) ?V", OF i] seq_inv_step [OF _ assms(4)]
  show ?thesis by simp
qed

lemma seq_inv_got: "seq_inv sl q0 V m ws \<Longrightarrow> Seq_reader pc out got \<in> set ws \<Longrightarrow> set got \<subseteq> set V"
  by (force simp: seq_inv_def)

section \<open>A write and a read in sequence\<close>

text \<open>Without interference the loops end, and a reader gets what the writer wrote.\<close>

lemma flat_write_loop:
  assumes "i \<le> nat (n_words sl)" and "n_words sl \<le> 2 ^ 29" and "\<forall>j < nat (n_words sl). word_at sl j \<noteq> seq_addr sl"
  shows "\<exists>m'. flat_solo (nat (n_words sl) - i + Suc (Suc k)) (flat_seq_write sl vals) (Sw_loop q i) m = Some ((), m')
    \<and> m' (seq_addr sl) = q + 2 \<and> (\<forall>j < nat (n_words sl). m' (word_at sl j) = (if i \<le> j then vals ! j else m (word_at sl j)))"
  using assms(1)
proof (induction "nat (n_words sl) - i" arbitrary: i m)
  case 0
  then have "\<not> int i < n_words sl" by simp
  with 0 assms(3) show ?case by auto
next
  case (Suc n)
  then have i: "i < nat (n_words sl)" "n = nat (n_words sl) - Suc i" "int i < n_words sl" by simp_all
  have eq: "nat (n_words sl) - i = Suc (nat (n_words sl) - Suc i)" using i by simp
  have "word_at sl j = word_at sl i \<longleftrightarrow> j = i" if "j < nat (n_words sl)" for j
    using that i assms(2) by (intro word_at_inj) auto
  then show ?case
    using Suc.hyps(1) [OF i(2), of "m(word_at sl i := vals ! i)"] i(1,3) unfolding eq by (fastforce simp: not_less_eq_eq)
qed

lemma flat_read_loop:
  assumes "i \<le> nat (n_words sl)" and "length out = nat (n_words sl)" and "m (seq_addr sl) = q"
    and "\<forall>j < i. out ! j = m (word_at sl j)"
  shows "flat_solo (nat (n_words sl) - i + Suc (Suc k)) (\<lambda>p m. (retry (flat_try_read sl p m), m)) (Sr_loop q i, out) m
    = Some (map (\<lambda>j. m (word_at sl j)) [0..<nat (n_words sl)], m)"
  using assms
proof (induction "nat (n_words sl) - i" arbitrary: i out)
  case 0
  then have "\<not> int i < n_words sl" by simp
  moreover have "out = map (\<lambda>j. m (word_at sl j)) [0..<nat (n_words sl)]"
    using 0 by (intro nth_equalityI) auto
  ultimately show ?case using 0 by (simp add: retry_def)
next
  case (Suc n)
  then have i: "i < nat (n_words sl)" "n = nat (n_words sl) - Suc i" "int i < n_words sl" by simp_all
  have eq: "nat (n_words sl) - i = Suc (nat (n_words sl) - Suc i)" using i by simp
  from Suc.hyps(1) [OF i(2), of "out[i := m (word_at sl i)]"] Suc.prems i(1,3) show ?case
    unfolding eq by (simp add: retry_def nth_list_update_if less_Suc_eq)
qed

lemma seqlock_write_read:
  assumes "sys_ok s" and "validate_core s c" and "validate_core s d" and "even (sys_val s (seq_addr sl))"
    and "length vals = nat (n_words sl)" and "n_words sl \<le> 2 ^ 29" and "\<forall>j < nat (n_words sl). word_at sl j \<noteq> seq_addr sl"
  shows "\<exists>s1 s2. solo (nat (n_words sl) + 5) (Seqlock_write sl vals c) Sw_read s = Some (Inr ((), s1))
    \<and> solo (nat (n_words sl) + 4) (Seqlock_read_retry sl d) (Sr_read, out) s1 = Some (Inr (vals, s2)) \<and> sys_ok s2"
proof -
  let ?m = "sys_val s" and ?q = "sys_val s (seq_addr sl)"
  have n: "nat (n_words sl) + 5 = Suc (Suc (Suc (nat (n_words sl) - 0 + Suc (Suc 0))))"
    "nat (n_words sl) + 4 = Suc (Suc (nat (n_words sl) - 0 + Suc (Suc 0)))" by simp_all
  from flat_write_loop [of 0 sl 0 vals ?q "?m(seq_addr sl := ?q + 1)"] assms(6,7) obtain m1 where
    m1: "flat_solo (nat (n_words sl) + 5) (flat_seq_write sl vals) Sw_read ?m = Some ((), m1)" "m1 (seq_addr sl) = ?q + 2"
      "\<forall>j < nat (n_words sl). m1 (word_at sl j) = vals ! j"
    unfolding n by auto
  from solo_flat [of c "Seqlock_write sl vals c", OF Seqlock_write_flat [OF _ _ assms(6)] assms(1,2) m1(1)] obtain s1 where
    s1: "solo (nat (n_words sl) + 5) (Seqlock_write sl vals c) Sw_read s = Some (Inr ((), s1))" "sys_ok s1"
      "validate_core s1 = validate_core s" "sys_val s1 = m1" by auto
  have vals: "map (\<lambda>j. m1 (word_at sl j)) [0..<nat (n_words sl)] = vals"
    using m1(3) assms(5) by (intro nth_equalityI) auto
  have "(?q + 2) AND 1 = 0" using assms(4) by (simp add: and_one_eq flip: even_iff_mod_2_eq_zero)
  with flat_read_loop [of 0 sl "resize_vec (nat (n_words sl)) out" m1 "?q + 2" 0] m1(2)
  have "flat_solo (nat (n_words sl) + 4) (\<lambda>p m. (retry (flat_try_read sl p m), m)) (Sr_read, out) (sys_val s1) = Some (vals, m1)"
    unfolding n by (simp add: retry_def s1(4) vals resize_vec_def)
  from solo_flat [of d "Seqlock_read_retry sl d", OF Seqlock_read_retry_flat [OF _ _ assms(6)] s1(2) _ this] s1 assms(3) show ?thesis by auto
qed

end
