(* ===== verification/Lockfree_Stack.thy ===== *)
theory Lockfree_Stack
  imports Flat_Threads
begin

text \<open>
  The Treiber stack of \<^verbatim>\<open>primitives/lockfree_stack.hpp\<close>. All of it lives in the coherent memory: the head
  pointer, the allocation counter and the nodes \<^verbatim>\<open>[next, val]\<close>. \<^verbatim>\<open>push\<close> and \<^verbatim>\<open>pop\<close> are cut at their
  accesses. The specification is a list that every operation changes in one step; the refinement maps a
  memory to the values found along the list of nodes, a push to its successful compare-and-swap and a
  pop to its own, or to the read that finds the stack empty.
\<close>

section \<open>The stack\<close>

record LockFreeStack =
  top_addr :: u32
  alloc_addr :: u32
  node_base :: u32

definition LockFreeStack_init :: "LockFreeStack \<Rightarrow> int \<Rightarrow> MesiSystem \<Rightarrow> exn + MesiSystem" where
  "LockFreeStack_init st d s = sbind (Dut_write d (top_addr st) 0 s) (Dut_write d (alloc_addr st) 0)"

datatype push_pc = Pu_alloc | Pu_val u32 | Pu_read u32 | Pu_next u32 u32 | Pu_cas u32 u32

fun LockFreeStack_push ::
    "LockFreeStack \<Rightarrow> u32 \<Rightarrow> int \<Rightarrow> push_pc \<Rightarrow> MesiSystem \<Rightarrow> exn + ((push_pc + unit) \<times> MesiSystem)" where
  "LockFreeStack_push st value d Pu_alloc s =
     sbind (Dut_faa d (alloc_addr st) 1 s) (\<lambda>(v, s). Inr (Inl (Pu_val (node_base st + (v + 1) * 8)), s))"
| "LockFreeStack_push st value d (Pu_val naddr) s =
     sbind (Dut_write d (naddr + 4) value s) (\<lambda>s. Inr (Inl (Pu_read naddr), s))"
| "LockFreeStack_push st value d (Pu_read naddr) s =
     sbind (Dut_read d (top_addr st) s) (\<lambda>(old_top, s). Inr (Inl (Pu_next naddr old_top), s))"
| "LockFreeStack_push st value d (Pu_next naddr old_top) s =
     sbind (Dut_write d naddr old_top s) (\<lambda>s. Inr (Inl (Pu_cas naddr old_top), s))"
| "LockFreeStack_push st value d (Pu_cas naddr old_top) s =
     sbind (Dut_cas d (top_addr st) old_top naddr s)
       (\<lambda>(ok, s). Inr (if ok then Inr () else Inl (Pu_read naddr), s))"

datatype pop_pc = Po_read | Po_next u32 | Po_cas u32 u32 | Po_val u32

text \<open>\<^verbatim>\<open>pop\<close> returns whether it popped and sets \<^verbatim>\<open>out\<close> then: an option.\<close>

fun LockFreeStack_pop ::
    "LockFreeStack \<Rightarrow> int \<Rightarrow> pop_pc \<Rightarrow> MesiSystem \<Rightarrow> exn + ((pop_pc + u32 option) \<times> MesiSystem)" where
  "LockFreeStack_pop st d Po_read s =
     sbind (Dut_read d (top_addr st) s)
       (\<lambda>(old_top, s). Inr (if old_top = 0 then Inr None else Inl (Po_next old_top), s))"
| "LockFreeStack_pop st d (Po_next old_top) s =
     sbind (Dut_read d old_top s) (\<lambda>(nxt, s). Inr (Inl (Po_cas old_top nxt), s))"
| "LockFreeStack_pop st d (Po_cas old_top nxt) s =
     sbind (Dut_cas d (top_addr st) old_top nxt s)
       (\<lambda>(ok, s). Inr (Inl (if ok then Po_val old_top else Po_read), s))"
| "LockFreeStack_pop st d (Po_val old_top) s =
     sbind (Dut_read d (old_top + 4) s) (\<lambda>(v, s). Inr (Inr (Some v), s))"

section \<open>Threads\<close>

text \<open>A thread runs a list of operations and collects what its pops return.\<close>

datatype stack_op = Op_push u32 | Op_pop

datatype stack_thread =
    St_done "u32 option list"
  | St_push u32 push_pc "stack_op list" "u32 option list"
  | St_pop pop_pc "stack_op list" "u32 option list"

fun st_next :: "stack_op list \<Rightarrow> u32 option list \<Rightarrow> stack_thread" where
  "st_next [] got = St_done got"
| "st_next (Op_push v # ops) got = St_push v Pu_alloc ops got"
| "st_next (Op_pop # ops) got = St_pop Po_read ops got"

definition push_next :: "u32 \<Rightarrow> stack_op list \<Rightarrow> u32 option list \<Rightarrow> push_pc + unit \<Rightarrow> stack_thread" where
  "push_next v ops got r = (case r of Inl pc \<Rightarrow> St_push v pc ops got | Inr _ \<Rightarrow> st_next ops got)"

definition pop_next :: "stack_op list \<Rightarrow> u32 option list \<Rightarrow> pop_pc + u32 option \<Rightarrow> stack_thread" where
  "pop_next ops got r = (case r of Inl pc \<Rightarrow> St_pop pc ops got | Inr x \<Rightarrow> st_next ops (got @ [x]))"

fun stack_act :: "LockFreeStack \<Rightarrow> int \<Rightarrow> stack_thread \<Rightarrow> MesiSystem \<Rightarrow> exn + (stack_thread \<times> MesiSystem)" where
  "stack_act st d (St_done got) s = Inr (St_done got, s)"
| "stack_act st d (St_push v pc ops got) s =
     sbind (LockFreeStack_push st v d pc s) (\<lambda>(r, s). Inr (push_next v ops got r, s))"
| "stack_act st d (St_pop pc ops got) s =
     sbind (LockFreeStack_pop st d pc s) (\<lambda>(r, s). Inr (pop_next ops got r, s))"

lemmas [exec_simps] = LockFreeStack_init_def push_next_def pop_next_def

section \<open>Steps on the flat memory\<close>

fun flat_push :: "LockFreeStack \<Rightarrow> u32 \<Rightarrow> push_pc \<Rightarrow> flat_mem \<Rightarrow> (push_pc + unit) \<times> flat_mem" where
  "flat_push st v Pu_alloc m =
     (Inl (Pu_val (node_base st + (m (alloc_addr st) + 1) * 8)), m(alloc_addr st := m (alloc_addr st) + 1))"
| "flat_push st v (Pu_val a) m = (Inl (Pu_read a), m(a + 4 := v))"
| "flat_push st v (Pu_read a) m = (Inl (Pu_next a (m (top_addr st))), m)"
| "flat_push st v (Pu_next a t) m = (Inl (Pu_cas a t), m(a := t))"
| "flat_push st v (Pu_cas a t) m =
     (if m (top_addr st) = t then (Inr (), m(top_addr st := a)) else (Inl (Pu_read a), m))"

fun flat_pop :: "LockFreeStack \<Rightarrow> pop_pc \<Rightarrow> flat_mem \<Rightarrow> (pop_pc + u32 option) \<times> flat_mem" where
  "flat_pop st Po_read m = (if m (top_addr st) = 0 then Inr None else Inl (Po_next (m (top_addr st))), m)"
| "flat_pop st (Po_next t) m = (Inl (Po_cas t (m t)), m)"
| "flat_pop st (Po_cas t n) m =
     (if m (top_addr st) = t then (Inl (Po_val t), m(top_addr st := n)) else (Inl Po_read, m))"
| "flat_pop st (Po_val t) m = (Inr (Some (m (t + 4))), m)"

fun flat_stack :: "LockFreeStack \<Rightarrow> int \<Rightarrow> stack_thread \<Rightarrow> flat_mem \<Rightarrow> stack_thread \<times> flat_mem" where
  "flat_stack st d (St_done got) m = (St_done got, m)"
| "flat_stack st d (St_push v pc ops got) m =
     (push_next v ops got (fst (flat_push st v pc m)), snd (flat_push st v pc m))"
| "flat_stack st d (St_pop pc ops got) m =
     (pop_next ops got (fst (flat_pop st pc m)), snd (flat_pop st pc m))"

lemma LockFreeStack_push_flat:
  assumes "sys_ok s" and "validate_core s d"
  shows "acts_as (LockFreeStack_push st v d pc s) s (flat_push st v pc (sys_val s))"
  by (cases pc) (simp_all add: flat_simps assms)

lemma LockFreeStack_pop_flat:
  assumes "sys_ok s" and "validate_core s d"
  shows "acts_as (LockFreeStack_pop st d pc s) s (flat_pop st pc (sys_val s))"
  by (cases pc) (simp_all add: flat_simps assms)

interpretation stk: flat_threads "stack_act st" "flat_stack st" "\<lambda>_. True" for st
proof
  fix s c w
  assume a: "sys_ok s" "validate_core s c"
  show "acts_as (stack_act st c w s) s (flat_stack st c w (sys_val s))"
    using acts_as_wrap [OF LockFreeStack_push_flat [OF a]] acts_as_wrap [OF LockFreeStack_pop_flat [OF a]] a
    by (cases "(st, c, w, sys_val s)" rule: flat_stack.cases) (fastforce simp: flat_simps)+
qed

section \<open>The specification\<close>

text \<open>An atomic stack shared by threads that each have operations to do and results so far.\<close>

type_synonym spec_thread = "stack_op list \<times> u32 option list"

inductive spec_step :: "u32 list \<times> spec_thread list \<Rightarrow> u32 list \<times> spec_thread list \<Rightarrow> bool" where
  spec_push: "i < length ts \<Longrightarrow> ts ! i = (Op_push v # ops, got) \<Longrightarrow> spec_step (xs, ts) (v # xs, ts[i := (ops, got)])"
| spec_pop: "i < length ts \<Longrightarrow> ts ! i = (Op_pop # ops, got) \<Longrightarrow>
    spec_step (v # xs, ts) (xs, ts[i := (ops, got @ [Some v])])"
| spec_pop_empty: "i < length ts \<Longrightarrow> ts ! i = (Op_pop # ops, got) \<Longrightarrow>
    spec_step ([], ts) ([], ts[i := (ops, got @ [None])])"

text \<open>Where the operation of a thread has taken effect.\<close>

fun spec_of :: "flat_mem \<Rightarrow> stack_thread \<Rightarrow> spec_thread" where
  "spec_of m (St_done got) = ([], got)"
| "spec_of m (St_push v pc ops got) = (Op_push v # ops, got)"
| "spec_of m (St_pop (Po_val t) ops got) = (ops, got @ [Some (m (t + 4))])"
| "spec_of m (St_pop pc ops got) = (Op_pop # ops, got)"

text \<open>The values along the nodes from the address \<open>a\<close>, at most \<open>n\<close> of them.\<close>

fun walk :: "flat_mem \<Rightarrow> nat \<Rightarrow> u32 \<Rightarrow> u32 list" where
  "walk m 0 a = []"
| "walk m (Suc n) a = (if a = 0 then [] else m (a + 4) # walk m n (m a))"

definition spec_state ::
    "LockFreeStack \<Rightarrow> nat \<Rightarrow> flat_mem \<Rightarrow> stack_thread list \<Rightarrow> u32 list \<times> spec_thread list" where
  "spec_state st N m ws = (walk m N (m (top_addr st)), map (spec_of m) ws)"

lemma spec_of_next [simp]: "spec_of m (st_next ops got) = (ops, got)"
  by (cases "(ops, got)" rule: st_next.cases) simp_all

section \<open>Nodes\<close>

definition node :: "LockFreeStack \<Rightarrow> nat \<Rightarrow> u32" where
  "node st k = node_base st + of_nat k * 8"

definition is_node :: "LockFreeStack \<Rightarrow> nat \<Rightarrow> u32 \<Rightarrow> bool" where
  "is_node st A a \<longleftrightarrow> (\<exists>k \<ge> 1. k \<le> A \<and> a = node st k)"

text \<open>Room for \<open>N\<close> nodes that neither wrap around nor touch the other words.\<close>

definition stack_layout :: "LockFreeStack \<Rightarrow> nat \<Rightarrow> bool" where
  "stack_layout st N \<longleftrightarrow> N < 2 ^ 29 - 1 \<and> top_addr st \<noteq> alloc_addr st
     \<and> (\<forall>k. 1 \<le> k \<and> k \<le> N \<longrightarrow> node st k \<notin> {0, top_addr st, alloc_addr st} \<and> node st k + 4 \<notin> {top_addr st, alloc_addr st})"

lemma node_inj:
  assumes "i < 2 ^ 29 - 1" and "j < 2 ^ 29 - 1"
  shows "node st i = node st j \<longleftrightarrow> i = j" "node st i + 4 \<noteq> node st j"
proof -
  have "of_nat (8 * i) = (of_nat (8 * j) :: u32) \<longleftrightarrow> i = j" using assms by (subst of_nat_small_eq) simp_all
  then show "node st i = node st j \<longleftrightarrow> i = j" by (simp add: node_def mult.commute)
  have "8 * i + 4 \<noteq> 8 * j" by presburger
  then have "of_nat (8 * i + 4) \<noteq> (of_nat (8 * j) :: u32)" using assms by (subst of_nat_small_eq) simp_all
  then show "node st i + 4 \<noteq> node st j" by (simp add: node_def mult.commute add.assoc)
qed

lemma is_nodeD:
  assumes "is_node st A a" and "A \<le> N" and "stack_layout st N"
  shows "a \<noteq> 0" "a \<noteq> top_addr st" "a \<noteq> alloc_addr st" "a + 4 \<noteq> top_addr st" "a + 4 \<noteq> alloc_addr st"
    "is_node st A b \<Longrightarrow> a + 4 \<noteq> b" "is_node st A b \<Longrightarrow> b + 4 \<noteq> a"
  using assms node_inj(2) [of _ _ st] unfolding is_node_def stack_layout_def by fastforce+

fun linked :: "LockFreeStack \<Rightarrow> flat_mem \<Rightarrow> u32 \<Rightarrow> nat list \<Rightarrow> bool" where
  "linked st m a [] \<longleftrightarrow> a = 0"
| "linked st m a (k # ks) \<longleftrightarrow> a = node st k \<and> linked st m (m a) ks"

lemma linked_upd: "x \<notin> node st ` set ks \<Longrightarrow> linked st (m(x := v)) a ks = linked st m a ks"
  by (induction ks arbitrary: a) auto

lemma walk_linked:
  "linked st m a ks \<Longrightarrow> length ks \<le> n \<Longrightarrow> 0 \<notin> node st ` set ks \<Longrightarrow> walk m n a = map (\<lambda>k. m (node st k + 4)) ks"
proof (induction ks arbitrary: a n)
  case Nil
  then show ?case by (cases n) simp_all
next
  case (Cons k ks)
  then show ?case by (cases n) auto
qed

section \<open>The invariant\<close>

text \<open>The node a push still owns, the node a pop has read from the head, and the pushes without a node.\<close>

fun own_node :: "stack_thread \<Rightarrow> u32 option" where
  "own_node (St_push v (Pu_val a) ops got) = Some a"
| "own_node (St_push v (Pu_read a) ops got) = Some a"
| "own_node (St_push v (Pu_next a t) ops got) = Some a"
| "own_node (St_push v (Pu_cas a t) ops got) = Some a"
| "own_node _ = None"

fun held :: "stack_thread \<Rightarrow> u32 option" where
  "held (St_pop (Po_next t) ops got) = Some t"
| "held (St_pop (Po_cas t n) ops got) = Some t"
| "held (St_pop (Po_val t) ops got) = Some t"
| "held _ = None"

fun pushes :: "stack_op list \<Rightarrow> nat" where
  "pushes [] = 0"
| "pushes (Op_push v # ops) = Suc (pushes ops)"
| "pushes (Op_pop # ops) = pushes ops"

fun unalloc :: "stack_thread \<Rightarrow> nat" where
  "unalloc (St_done got) = 0"
| "unalloc (St_push v pc ops got) = pushes ops + of_bool (pc = Pu_alloc)"
| "unalloc (St_pop pc ops got) = pushes ops"

fun thread_mem :: "flat_mem \<Rightarrow> stack_thread \<Rightarrow> bool" where
  "thread_mem m (St_push v (Pu_read a) ops got) \<longleftrightarrow> m (a + 4) = v"
| "thread_mem m (St_push v (Pu_next a t) ops got) \<longleftrightarrow> m (a + 4) = v"
| "thread_mem m (St_push v (Pu_cas a t) ops got) \<longleftrightarrow> m (a + 4) = v \<and> m a = t"
| "thread_mem m (St_pop (Po_cas t n) ops got) \<longleftrightarrow> m t = n"
| "thread_mem m _ \<longleftrightarrow> True"

definition thread_ok :: "LockFreeStack \<Rightarrow> nat \<Rightarrow> nat list \<Rightarrow> flat_mem \<Rightarrow> stack_thread \<Rightarrow> bool" where
  "thread_ok st A ks m w \<longleftrightarrow> thread_mem m w
     \<and> (\<forall>a. own_node w = Some a \<longrightarrow> is_node st A a \<and> a \<notin> node st ` set ks)
     \<and> (\<forall>t. held w = Some t \<longrightarrow> is_node st A t)"

definition separate :: "stack_thread \<Rightarrow> stack_thread \<Rightarrow> bool" where
  "separate w w' \<longleftrightarrow> (\<forall>a. own_node w = Some a \<longrightarrow> own_node w' \<noteq> Some a \<and> held w' \<noteq> Some a)"

definition stack_ok ::
    "LockFreeStack \<Rightarrow> nat \<Rightarrow> nat \<Rightarrow> nat list \<Rightarrow> flat_mem \<Rightarrow> stack_thread list \<Rightarrow> bool" where
  "stack_ok st N A ks m ws \<longleftrightarrow> m (alloc_addr st) = of_nat A \<and> A + (\<Sum>w\<leftarrow>ws. unalloc w) = N
     \<and> linked st m (m (top_addr st)) ks \<and> distinct ks \<and> set ks \<subseteq> {1..A}
     \<and> (\<forall>w \<in> set ws. thread_ok st A ks m w)
     \<and> (\<forall>i < length ws. \<forall>j < length ws. i \<noteq> j \<longrightarrow> separate (ws ! i) (ws ! j))"

lemma st_next_simps [simp]:
  "own_node (st_next ops got) = None" "held (st_next ops got) = None" "thread_mem m (st_next ops got)"
  "unalloc (st_next ops got) = pushes ops" "thread_ok st A ks m (st_next ops got)"
  "separate (st_next ops got) w" "separate w (st_next ops got)"
  by (cases "(ops, got)" rule: st_next.cases; simp add: thread_ok_def separate_def)+

text \<open>Thread \<open>i\<close> becomes \<open>w\<close>, while the others keep what they rely on.\<close>

lemma stack_ok_update:
  assumes "stack_ok st N A ks m ws" and "i < length ws" and "m' (alloc_addr st) = of_nat A'"
    and "A' + unalloc w = A + unalloc (ws ! i)"
    and "linked st m' (m' (top_addr st)) ks'" and "distinct ks'" and "set ks' \<subseteq> {1..A'}"
    and "thread_ok st A' ks' m' w"
    and "\<And>u. u \<in> set ws \<Longrightarrow> thread_ok st A ks m u \<Longrightarrow> separate u (ws ! i) \<Longrightarrow> separate (ws ! i) u \<Longrightarrow>
      thread_ok st A' ks' m' u \<and> separate w u \<and> separate u w"
  shows "stack_ok st N A' ks' m' (ws[i := w])"
proof -
  have sum: "A' + (\<Sum>w\<leftarrow>ws[i := w]. unalloc w) = N"
    using sum_list_map_update [OF assms(2), of unalloc w] assms(1,4) by (simp add: stack_ok_def)
  have other: "thread_ok st A' ks' m' (ws ! j) \<and> separate w (ws ! j) \<and> separate (ws ! j) w" if "j < length ws" "j \<noteq> i" for j
    using assms(1,2,9) that by (simp add: stack_ok_def)
  have "thread_ok st A' ks' m' (ws[i := w] ! j)" if "j < length ws" for j
    using other assms(8) that by (simp add: nth_list_update_if)
  moreover have "separate (ws[i := w] ! j) (ws[i := w] ! k)" if "j < length ws" "k < length ws" "j \<noteq> k" for j k
    using other assms(1) that by (auto simp: nth_list_update_if stack_ok_def)
  ultimately show ?thesis using sum assms(3,5-7) by (simp add: stack_ok_def all_set_conv_all_nth)
qed

text \<open>Writes that the other threads do not see.\<close>

lemma thread_ok_frame:
  assumes "thread_ok st A ks m u"
    and "\<And>a. own_node u = Some a \<Longrightarrow> m' a = m a \<and> m' (a + 4) = m (a + 4)" and "\<And>t. held u = Some t \<Longrightarrow> m' t = m t"
    and "A \<le> A'" and "\<And>a. own_node u = Some a \<Longrightarrow> a \<notin> node st ` set ks \<Longrightarrow> a \<notin> node st ` set ks'"
  shows "thread_ok st A' ks' m' u"
proof -
  have "thread_mem m' u" using assms(1-3) by (cases "(m, u)" rule: thread_mem.cases) (auto simp: thread_ok_def)
  with assms(1,4,5) show ?thesis unfolding thread_ok_def is_node_def by fastforce
qed

lemma node_image: "set ks \<subseteq> {1..A} \<Longrightarrow> a \<in> node st ` set ks \<Longrightarrow> is_node st A a"
  unfolding is_node_def by (metis atLeastAtMost_iff imageE subsetD)

lemma stack_okD:
  assumes "stack_ok st N A ks m ws"
  shows "m (alloc_addr st) = of_nat A" "A \<le> N" "linked st m (m (top_addr st)) ks" "distinct ks" "set ks \<subseteq> {1..A}"
    "i < length ws \<Longrightarrow> thread_ok st A ks m (ws ! i)"
  using assms by (auto simp: stack_ok_def)

text \<open>A step that changes nothing but the thread.\<close>

lemma stack_ok_read:
  assumes "stack_ok st N A ks m ws" and "i < length ws" and "unalloc w = unalloc (ws ! i)"
    and "thread_mem m w" and "own_node w = own_node (ws ! i)"
    and "held w = held (ws ! i) \<or> held w = None \<or> (\<exists>t \<in> node st ` set ks. held w = Some t)"
  shows "stack_ok st N A ks m (ws[i := w])"
proof (rule stack_ok_update [OF assms(1,2)])
  note ok = stack_okD [OF assms(1)]
  show "thread_ok st A ks m w"
    using ok(6) [OF assms(2)] assms(4-6) node_image [OF ok(5), of _ st] by (auto simp: thread_ok_def)
  show "thread_ok st A ks m u \<and> separate w u \<and> separate u w"
    if "u \<in> set ws" "thread_ok st A ks m u" "separate u (ws ! i)" "separate (ws ! i) u" for u
    using that assms(5,6) unfolding thread_ok_def separate_def by (metis option.distinct(1) option.inject)
qed (use stack_okD [OF assms(1)] assms(3) in simp_all)

text \<open>A push writes its own node.\<close>

lemma stack_ok_own:
  assumes "stack_ok st N A ks m ws" and "stack_layout st N" and "i < length ws" and "own_node (ws ! i) = Some a"
    and "x = a \<or> x = a + 4" and "unalloc w = unalloc (ws ! i)" and "own_node w = Some a" and "held w = None"
    and "thread_mem (m(x := v)) w"
  shows "stack_ok st N A ks (m(x := v)) (ws[i := w])"
proof (rule stack_ok_update [OF assms(1,3)])
  note ok = stack_okD [OF assms(1)]
  have a: "is_node st A a" "a \<notin> node st ` set ks" using ok(6) [OF assms(3)] assms(4) by (auto simp: thread_ok_def)
  note d = is_nodeD [OF a(1) ok(2) assms(2)]
  have n: "a + 4 \<notin> node st ` set ks" using node_image [OF ok(5), of "a + 4" st] d(6) [of "a + 4"] by blast
  have x: "x \<noteq> top_addr st \<and> x \<noteq> alloc_addr st \<and> x \<notin> node st ` set ks"
    using assms(5) by (rule disjE) (use d(2-5) a(2) n in simp_all)
  show "(m(x := v)) (alloc_addr st) = of_nat A" "linked st (m(x := v)) ((m(x := v)) (top_addr st)) ks"
    using x ok(1,3) by (auto simp: linked_upd)
  show "thread_ok st A ks (m(x := v)) w" using a assms(7-9) by (simp add: thread_ok_def)
  show "thread_ok st A ks (m(x := v)) u \<and> separate w u \<and> separate u w"
    if "u \<in> set ws" "thread_ok st A ks m u" "separate u (ws ! i)" "separate (ws ! i) u" for u
  proof -
    have "(m(x := v)) b = m b \<and> (m(x := v)) (b + 4) = m (b + 4)" if "own_node u = Some b" for b
      using that \<open>thread_ok st A ks m u\<close> \<open>separate u (ws ! i)\<close> d(6,7) [of b] assms(4,5) by (auto simp: thread_ok_def separate_def)
    moreover have "(m(x := v)) t = m t" if "held u = Some t" for t
      using that \<open>thread_ok st A ks m u\<close> \<open>separate (ws ! i) u\<close> d(6) [of t] assms(4,5) by (auto simp: thread_ok_def separate_def)
    ultimately have "thread_ok st A ks (m(x := v)) u" by (intro thread_ok_frame [OF that(2)]) auto
    with that assms(4,7,8) show ?thesis by (simp add: separate_def)
  qed
qed (use stack_okD [OF assms(1)] assms(6) in simp_all)

text \<open>A push takes a node.\<close>

lemma stack_ok_alloc:
  assumes "stack_ok st N A ks m ws" and "stack_layout st N" and "i < length ws" and "ws ! i = St_push v Pu_alloc ops got"
  shows "stack_ok st N (Suc A) ks (m(alloc_addr st := m (alloc_addr st) + 1))
    (ws[i := St_push v (Pu_val (node_base st + (m (alloc_addr st) + 1) * 8)) ops got])"
proof -
  note ok = stack_okD [OF assms(1)]
  have "unalloc (ws ! i) \<le> (\<Sum>w\<leftarrow>ws. unalloc w)" using assms(3) by (intro member_le_sum_list) auto
  then have A: "Suc A \<le> N" using assms(1,4) by (auto simp: stack_ok_def)
  let ?a = "node st (Suc A)" and ?m = "m(alloc_addr st := m (alloc_addr st) + 1)"
  have eq: "node_base st + (m (alloc_addr st) + 1) * 8 = ?a" using ok(1) by (simp add: node_def algebra_simps)
  have new: "\<not> is_node st A ?a" using node_inj(1) [of "Suc A" _ st] A assms(2) by (auto simp: is_node_def stack_layout_def)
  have al: "alloc_addr st \<noteq> b \<and> alloc_addr st \<noteq> b + 4" if "is_node st A b" for b
    using is_nodeD [OF that ok(2) assms(2)] by auto
  show ?thesis unfolding eq
  proof (rule stack_ok_update [OF assms(1,3)])
    show "linked st ?m (?m (top_addr st)) ks"
      using ok(3) node_image [OF ok(5)] al assms(2) by (subst linked_upd) (auto simp: stack_layout_def)
    show "thread_ok st (Suc A) ks ?m (St_push v (Pu_val ?a) ops got)"
      using new node_image [OF ok(5)] by (auto simp: thread_ok_def is_node_def)
    show "thread_ok st (Suc A) ks ?m u \<and> separate (St_push v (Pu_val ?a) ops got) u \<and> separate u (St_push v (Pu_val ?a) ops got)"
      if "u \<in> set ws" "thread_ok st A ks m u" for u
      using that new by (auto simp: separate_def intro!: thread_ok_frame [OF that(2)]) (auto simp: thread_ok_def dest!: al)
  qed (use ok assms(4) in auto)
qed

text \<open>The compare-and-swaps that succeed.\<close>

lemma stack_ok_pushed:
  assumes "stack_ok st N A ks m ws" and "stack_layout st N" and "i < length ws"
    and "ws ! i = St_push v (Pu_cas a (m (top_addr st))) ops got"
  shows "\<exists>k. a = node st k \<and> stack_ok st N A (k # ks) (m(top_addr st := a)) (ws[i := st_next ops got])"
proof -
  note ok = stack_okD [OF assms(1)]
  have a: "is_node st A a" "a \<notin> node st ` set ks" "m a = m (top_addr st)"
    using ok(6) [OF assms(3)] assms(4) by (auto simp: thread_ok_def)
  then obtain k where k: "1 \<le> k" "k \<le> A" "a = node st k" by (auto simp: is_node_def)
  have top: "b \<noteq> top_addr st \<and> b + 4 \<noteq> top_addr st" if "is_node st A b" for b
    using is_nodeD [OF that ok(2) assms(2)] by auto
  have "stack_ok st N A (k # ks) (m(top_addr st := a)) (ws[i := st_next ops got])"
  proof (rule stack_ok_update [OF assms(1,3)])
    have "top_addr st \<notin> node st ` set ks" using top node_image [OF ok(5), of "top_addr st" st] by blast
    then show "linked st (m(top_addr st := a)) ((m(top_addr st := a)) (top_addr st)) (k # ks)"
      using ok(3) a(3) k(3) top [OF a(1)] by (simp add: linked_upd)
    show "distinct (k # ks)" "set (k # ks) \<subseteq> {1..A}" using ok(4,5) a(2) k by auto
    show "thread_ok st A (k # ks) (m(top_addr st := a)) u \<and> separate (st_next ops got) u \<and> separate u (st_next ops got)"
      if "u \<in> set ws" "thread_ok st A ks m u" "separate u (ws ! i)" for u
    proof -
      have "thread_ok st A (k # ks) (m(top_addr st := a)) u"
      proof (rule thread_ok_frame [OF that(2)])
        show "b \<notin> node st ` set (k # ks)" if "own_node u = Some b" "b \<notin> node st ` set ks" for b
          using that \<open>separate u (ws ! i)\<close> assms(4) k(3) by (auto simp: separate_def)
      qed (use that(2) top in \<open>auto simp: thread_ok_def\<close>)
      then show ?thesis by simp
    qed
  qed (use ok assms(2,4) in \<open>auto simp: stack_layout_def\<close>)
  with k(3) show ?thesis by blast
qed

lemma stack_ok_popped:
  assumes "stack_ok st N A ks m ws" and "stack_layout st N" and "i < length ws"
    and "ws ! i = St_pop (Po_cas (m (top_addr st)) n) ops got"
  shows "\<exists>k ks'. ks = k # ks' \<and> m (top_addr st) = node st k
    \<and> stack_ok st N A ks' (m(top_addr st := n)) (ws[i := St_pop (Po_val (m (top_addr st))) ops got])"
proof -
  note ok = stack_okD [OF assms(1)]
  let ?t = "m (top_addr st)"
  have t: "is_node st A ?t" "m ?t = n" using ok(6) [OF assms(3)] assms(4) by (auto simp: thread_ok_def)
  have top: "b \<noteq> top_addr st \<and> b + 4 \<noteq> top_addr st" if "is_node st A b" for b
    using is_nodeD [OF that ok(2) assms(2)] by auto
  from ok(3) is_nodeD(1) [OF t(1) ok(2) assms(2)] obtain k ks' where ks: "ks = k # ks'" "?t = node st k" by (cases ks) auto
  have "stack_ok st N A ks' (m(top_addr st := n)) (ws[i := St_pop (Po_val ?t) ops got])"
  proof (rule stack_ok_update [OF assms(1,3)])
    have "top_addr st \<notin> node st ` set ks'" using top node_image [OF ok(5), of "top_addr st" st] ks(1) by auto
    then show "linked st (m(top_addr st := n)) ((m(top_addr st := n)) (top_addr st)) ks'"
      using ok(3) t(2) ks by (simp add: linked_upd)
    show "thread_ok st A ks' (m(top_addr st := n)) (St_pop (Po_val ?t) ops got)" using t(1) by (simp add: thread_ok_def)
    show "thread_ok st A ks' (m(top_addr st := n)) u \<and> separate (St_pop (Po_val ?t) ops got) u
        \<and> separate u (St_pop (Po_val ?t) ops got)"
      if "u \<in> set ws" "thread_ok st A ks m u" "separate u (ws ! i)" for u
    proof -
      have "thread_ok st A ks' (m(top_addr st := n)) u"
        by (rule thread_ok_frame [OF that(2)]) (use that(2) top ks(1) in \<open>auto simp: thread_ok_def\<close>)
      then show ?thesis using that(3) assms(4) by (simp add: separate_def)
    qed
  qed (use ok ks assms(2,4) in \<open>auto simp: stack_layout_def\<close>)
  with ks show ?thesis by blast
qed

text \<open>The abstraction of a state of the invariant, and of the threads after a write.\<close>

lemma spec_state_ok:
  assumes "stack_ok st N A ks m ws" and "stack_layout st N"
  shows "spec_state st N m ws = (map (\<lambda>k. m (node st k + 4)) ks, map (spec_of m) ws)"
proof -
  note ok = stack_okD [OF assms(1)]
  have "length ks \<le> N" using distinct_card [OF ok(4)] card_mono [OF _ ok(5)] ok(2) by simp
  moreover have "0 \<notin> node st ` set ks"
    using is_nodeD(1) [OF node_image [OF ok(5)] ok(2) assms(2)] by blast
  ultimately show ?thesis using walk_linked [OF ok(3)] by (simp add: spec_state_def)
qed

lemma spec_of_cong: "(\<And>t. held w = Some t \<Longrightarrow> m' (t + 4) = m (t + 4)) \<Longrightarrow> spec_of m' w = spec_of m w"
  by (cases "(m, w)" rule: spec_of.cases) simp_all

section \<open>Refinement\<close>

text \<open>A thread that stays at the same point of its specification.\<close>

lemma spec_state_stutter:
  assumes "stack_ok st N A ks m ws" and "stack_ok st N A' ks m' (ws[i := w])" and "stack_layout st N" and "i < length ws"
    and "\<And>a. is_node st A a \<Longrightarrow> own_node (ws ! i) \<noteq> Some a \<Longrightarrow> m' (a + 4) = m (a + 4)"
    and "spec_of m' w = spec_of m (ws ! i)"
  shows "spec_state st N m' (ws[i := w]) = spec_state st N m ws"
proof -
  note ok = stack_okD [OF assms(1)]
  have "m' (node st k + 4) = m (node st k + 4)" if "k \<in> set ks" for k
  proof (rule assms(5))
    show "is_node st A (node st k)" using that node_image [OF ok(5)] by blast
    show "own_node (ws ! i) \<noteq> Some (node st k)" using that ok(6) [OF assms(4)] by (auto simp: thread_ok_def)
  qed
  moreover have "map (spec_of m') (ws[i := w]) = map (spec_of m) ws"
  proof (rule nth_equalityI)
    fix j assume j: "j < length (map (spec_of m') (ws[i := w]))"
    have "m' (t + 4) = m (t + 4)" if "j \<noteq> i" "held (ws ! j) = Some t" for t
    proof (rule assms(5))
      show "is_node st A t" using that ok(6) [of j] j by (simp add: thread_ok_def)
      have "separate (ws ! i) (ws ! j)" using assms(1,4) that j by (simp add: stack_ok_def)
      then show "own_node (ws ! i) \<noteq> Some t" using that by (auto simp: separate_def)
    qed
    with j assms(6) spec_of_cong [of "ws ! j" m' m] show "map (spec_of m') (ws[i := w]) ! j = map (spec_of m) ws ! j"
      by (auto simp: nth_list_update_if)
  qed simp
  ultimately show ?thesis
    unfolding spec_state_ok [OF assms(1,3)] spec_state_ok [OF assms(2,3)] by simp
qed

text \<open>Where only the head pointer changes, the threads and nodes keep their values.\<close>

lemma spec_of_top:
  assumes "stack_ok st N A ks m ws" and "stack_layout st N" and "w \<in> set ws"
  shows "spec_of (m(top_addr st := v)) w = spec_of m w"
proof (rule spec_of_cong)
  fix t assume "held w = Some t"
  then have "is_node st A t" using assms(1,3) by (auto simp: stack_ok_def thread_ok_def)
  from is_nodeD(4) [OF this stack_okD(2) [OF assms(1)] assms(2)] show "(m(top_addr st := v)) (t + 4) = m (t + 4)" by simp
qed

lemma node_val_top:
  assumes "stack_ok st N A ks m ws" and "stack_layout st N" and "k \<in> set ks"
  shows "node st k + 4 \<noteq> top_addr st"
  using is_nodeD(4) [OF node_image [OF stack_okD(5) [OF assms(1)]] stack_okD(2) [OF assms(1)] assms(2)] assms(3) by blast

lemma spec_push_step:
  assumes "stack_ok st N A ks m ws" and "stack_layout st N" and "i < length ws"
    and "ws ! i = St_push v (Pu_cas a (m (top_addr st))) ops got"
  shows "spec_step (spec_state st N m ws) (spec_state st N (m(top_addr st := a)) (ws[i := st_next ops got]))"
proof -
  from stack_ok_pushed [OF assms] obtain k where
    k: "a = node st k" "stack_ok st N A (k # ks) (m(top_addr st := a)) (ws[i := st_next ops got])" by blast
  have "m (a + 4) = v" using stack_okD(6) [OF assms(1,3)] assms(4) by (simp add: thread_ok_def)
  then have vals: "map (\<lambda>k. (m(top_addr st := a)) (node st k + 4)) (k # ks) = v # map (\<lambda>k. m (node st k + 4)) ks"
    using node_val_top [OF assms(1,2)] node_val_top [OF k(2) assms(2), of k] k(1) by simp
  have ts: "map (spec_of (m(top_addr st := a))) (ws[i := st_next ops got]) = (map (spec_of m) ws)[i := (ops, got)]"
    using spec_of_top [OF assms(1,2)] by (simp add: map_update cong: map_cong)
  show ?thesis unfolding spec_state_ok [OF assms(1,2)] spec_state_ok [OF k(2) assms(2)] vals ts
    by (rule spec_push) (use assms(3,4) in simp_all)
qed

lemma spec_pop_step:
  assumes "stack_ok st N A ks m ws" and "stack_layout st N" and "i < length ws"
    and "ws ! i = St_pop (Po_cas (m (top_addr st)) n) ops got"
  shows "spec_step (spec_state st N m ws)
    (spec_state st N (m(top_addr st := n)) (ws[i := St_pop (Po_val (m (top_addr st))) ops got]))"
proof -
  from stack_ok_popped [OF assms] obtain k ks' where
    k: "ks = k # ks'" "m (top_addr st) = node st k"
      "stack_ok st N A ks' (m(top_addr st := n)) (ws[i := St_pop (Po_val (m (top_addr st))) ops got])" by blast
  have vals: "map (\<lambda>k. (m(top_addr st := n)) (node st k + 4)) ks' = map (\<lambda>k. m (node st k + 4)) ks'"
    using node_val_top [OF assms(1,2)] k(1) by simp
  have ts: "map (spec_of (m(top_addr st := n))) (ws[i := St_pop (Po_val (m (top_addr st))) ops got])
      = (map (spec_of m) ws)[i := (ops, got @ [Some (m (node st k + 4))])]"
    using spec_of_top [OF assms(1,2)] node_val_top [OF assms(1,2), of k] k(1,2) by (simp add: map_update cong: map_cong)
  show ?thesis unfolding spec_state_ok [OF assms(1,2)] spec_state_ok [OF k(3) assms(2)] vals ts
    unfolding k(1) list.map by (rule spec_pop) (use assms(3,4) in simp_all)
qed

lemma spec_pop_empty_step:
  assumes "stack_ok st N A ks m ws" and "stack_layout st N" and "i < length ws"
    and "ws ! i = St_pop Po_read ops got" and "m (top_addr st) = 0"
  shows "spec_step (spec_state st N m ws) (spec_state st N m (ws[i := st_next ops (got @ [None])]))"
proof -
  note ok = stack_okD [OF assms(1)]
  have "ks = []" using ok(3) assms(5) is_nodeD(1) [OF node_image [OF ok(5)] ok(2) assms(2)] by (cases ks) fastforce+
  then have "walk m N (m (top_addr st)) = []" using walk_linked [OF ok(3), of N] by simp
  moreover have "spec_step ([], map (spec_of m) ws) ([], (map (spec_of m) ws)[i := (ops, got @ [None])])"
    by (rule spec_pop_empty) (use assms(3,4) in simp_all)
  ultimately show ?thesis by (simp add: spec_state_def map_update)
qed

text \<open>A step keeps the invariant and is at most one step of the specification.\<close>

definition advances ::
    "LockFreeStack \<Rightarrow> nat \<Rightarrow> flat_mem \<Rightarrow> stack_thread list \<Rightarrow> flat_mem \<Rightarrow> stack_thread list \<Rightarrow> bool" where
  "advances st N m ws m' ws' \<longleftrightarrow> (\<exists>A ks. stack_ok st N A ks m' ws')
     \<and> spec_step\<^sup>*\<^sup>* (spec_state st N m ws) (spec_state st N m' ws')"

lemma advances_read:
  assumes "stack_ok st N A ks m ws" and "stack_layout st N" and "i < length ws" and "unalloc w = unalloc (ws ! i)"
    and "thread_mem m w" and "own_node w = own_node (ws ! i)"
    and "held w = held (ws ! i) \<or> held w = None \<or> (\<exists>t \<in> node st ` set ks. held w = Some t)"
    and "spec_of m w = spec_of m (ws ! i)"
  shows "advances st N m ws m (ws[i := w])"
proof -
  have r: "stack_ok st N A ks m (ws[i := w])" using assms(4-7) by (rule stack_ok_read [OF assms(1,3)])
  with spec_state_stutter [OF assms(1) r assms(2,3) _ assms(8)] show ?thesis by (auto simp: advances_def)
qed

lemma advances_own:
  assumes "stack_ok st N A ks m ws" and "stack_layout st N" and "i < length ws"
    and "ws ! i = St_push v pc ops got" and "own_node (ws ! i) = Some a" and "x = a \<or> x = a + 4"
    and "own_node (St_push v pc' ops got) = Some a" and "thread_mem (m(x := y)) (St_push v pc' ops got)"
  shows "advances st N m ws (m(x := y)) (ws[i := St_push v pc' ops got])"
proof -
  note ok = stack_okD [OF assms(1)]
  let ?w = "St_push v pc' ops got"
  have pcs: "pc \<noteq> Pu_alloc" "pc' \<noteq> Pu_alloc" using assms(4,5,7) by auto
  have a: "is_node st A a" using ok(6) [OF assms(3)] assms(5) by (auto simp: thread_ok_def)
  have r: "stack_ok st N A ks (m(x := y)) (ws[i := ?w])"
    by (rule stack_ok_own [OF assms(1-3,5,6)]) (use assms(4,7,8) pcs in simp_all)
  have "spec_state st N (m(x := y)) (ws[i := ?w]) = spec_state st N m ws"
    by (rule spec_state_stutter [OF assms(1) r assms(2,3)])
      (use assms(4-6) is_nodeD(7) [OF a ok(2) assms(2)] in auto)
  with r show ?thesis by (auto simp: advances_def)
qed

lemma advances_alloc:
  assumes "stack_ok st N A ks m ws" and "stack_layout st N" and "i < length ws" and "ws ! i = St_push v Pu_alloc ops got"
  shows "advances st N m ws (m(alloc_addr st := m (alloc_addr st) + 1))
    (ws[i := St_push v (Pu_val (node_base st + (m (alloc_addr st) + 1) * 8)) ops got])"
proof -
  note r = stack_ok_alloc [OF assms]
  have "(m(alloc_addr st := m (alloc_addr st) + 1)) (a + 4) = m (a + 4)" if "is_node st A a" for a
    using is_nodeD(5) [OF that stack_okD(2) [OF assms(1)] assms(2)] by simp
  with spec_state_stutter [OF assms(1) r assms(2,3)] assms(4) r show ?thesis by (auto simp: advances_def)
qed

lemma advances_cas:
  assumes "stack_ok st N A ks m ws" and "stack_layout st N" and "i < length ws"
  shows "ws ! i = St_push v (Pu_cas a (m (top_addr st))) ops got \<Longrightarrow>
      advances st N m ws (m(top_addr st := a)) (ws[i := st_next ops got])"
    and "ws ! i = St_pop (Po_cas (m (top_addr st)) n) ops got \<Longrightarrow>
      advances st N m ws (m(top_addr st := n)) (ws[i := St_pop (Po_val (m (top_addr st))) ops got])"
  unfolding advances_def
  by (metis spec_push_step [OF assms] stack_ok_pushed [OF assms] r_into_rtranclp)
    (metis spec_pop_step [OF assms] stack_ok_popped [OF assms] r_into_rtranclp)

lemma push_step:
  assumes "stack_ok st N A ks m ws" and "stack_layout st N" and "i < length ws" and "ws ! i = St_push v pc ops got"
  shows "advances st N m ws (snd (flat_stack st d (ws ! i) m)) (ws[i := fst (flat_stack st d (ws ! i) m)])"
proof -
  have tm: "thread_mem m (ws ! i)" using stack_okD(6) [OF assms(1,3)] by (simp add: thread_ok_def)
  note own = advances_own [OF assms]
  note read = advances_read [OF assms(1-3)]
  show ?thesis
  proof (cases pc)
    case Pu_alloc
    with advances_alloc [OF assms(1-3)] assms(4) show ?thesis by (simp add: push_next_def)
  next
    case (Pu_val a)
    with own [of a "a + 4" "Pu_read a" v] assms(4) show ?thesis by (simp add: push_next_def)
  next
    case (Pu_read a)
    with read [of "St_push v (Pu_next a (m (top_addr st))) ops got"] tm assms(4) show ?thesis by (simp add: push_next_def)
  next
    case (Pu_next a t)
    with own [of a a "Pu_cas a t" t] tm assms(4) show ?thesis by (simp add: push_next_def)
  next
    case (Pu_cas a t)
    with read [of "St_push v (Pu_read a) ops got"] advances_cas(1) [OF assms(1-3)] tm assms(4)
    show ?thesis by (simp add: push_next_def)
  qed
qed

lemma pop_step:
  assumes "stack_ok st N A ks m ws" and "stack_layout st N" and "i < length ws" and "ws ! i = St_pop pc ops got"
  shows "advances st N m ws (snd (flat_stack st d (ws ! i) m)) (ws[i := fst (flat_stack st d (ws ! i) m)])"
proof -
  note ok = stack_okD [OF assms(1)]
  note read = advances_read [OF assms(1-3)]
  show ?thesis
  proof (cases pc)
    case Po_read
    show ?thesis
    proof (cases "m (top_addr st) = 0")
      case True
      have "stack_ok st N A ks m (ws[i := st_next ops (got @ [None])])"
        by (rule stack_ok_read [OF assms(1,3)]) (use assms(4) Po_read in simp_all)
      with True spec_pop_empty_step [OF assms(1-3)] assms(4) Po_read show ?thesis
        by (auto simp: pop_next_def advances_def)
    next
      case False
      then have "m (top_addr st) \<in> node st ` set ks" using ok(3) by (cases ks) auto
      with False read [of "St_pop (Po_next (m (top_addr st))) ops got"] assms(4) Po_read show ?thesis
        by (simp add: pop_next_def)
    qed
  next
    case (Po_next t)
    with read [of "St_pop (Po_cas t (m t)) ops got"] assms(4) show ?thesis by (simp add: pop_next_def)
  next
    case (Po_cas t n)
    with read [of "St_pop Po_read ops got"] advances_cas(2) [OF assms(1-3)] assms(4)
    show ?thesis by (cases "m (top_addr st) = t") (simp_all add: pop_next_def)
  next
    case (Po_val t)
    with read [of "st_next ops (got @ [Some (m (t + 4))])"] assms(4) show ?thesis by (simp add: pop_next_def)
  qed
qed

lemma stack_step:
  assumes "stack_ok st N A ks m ws" and "stack_layout st N" and "i < length ws"
  shows "advances st N m ws (snd (flat_stack st d (ws ! i) m)) (ws[i := fst (flat_stack st d (ws ! i) m)])"
proof (cases "ws ! i")
  case (St_done got)
  with assms list_update_id [of ws i] show ?thesis by (auto simp: advances_def)
qed (use push_step [OF assms] pop_step [OF assms] in blast)+

section \<open>Every interleaving\<close>

definition stack_ready :: "LockFreeStack \<Rightarrow> nat \<Rightarrow> MesiSystem \<Rightarrow> bool" where
  "stack_ready st N s \<longleftrightarrow> sys_ok s \<and> stack_layout st N \<and> sys_val s (top_addr st) = 0 \<and> sys_val s (alloc_addr st) = 0"

lemma LockFreeStack_init_ready:
  assumes "sys_ok s" and "validate_core s d" and "stack_layout st N"
  shows "\<exists>s'. LockFreeStack_init st d s = Inr s' \<and> stack_ready st N s' \<and> n_cores s' = n_cores s"
proof -
  obtain s1 where s1: "Dut_write d (top_addr st) 0 s = Inr s1" "sys_ok s1" "validate_core s1 = validate_core s"
    "sys_val s1 = (sys_val s)(top_addr st := 0)"
    using Dut_write_ok [OF assms(1,2)] by blast
  obtain s2 where s2: "Dut_write d (alloc_addr st) 0 s1 = Inr s2" "sys_ok s2" "validate_core s2 = validate_core s1"
    "sys_val s2 = (sys_val s1)(alloc_addr st := 0)"
    using Dut_write_ok [OF s1(2), of d] s1(3) assms(2) by auto
  with s1 assms(3) n_cores_eqI [of s2 s] show ?thesis by (simp add: LockFreeStack_init_def stack_ready_def)
qed

lemma stack_pool_refines:
  assumes "(pool_step (stack_act st))\<^sup>*\<^sup>* (s, map (\<lambda>ops. st_next ops []) progs) (s', ws)"
    and "stack_ready st N s" and "n_cores s = int (length progs)" and "N = (\<Sum>p\<leftarrow>progs. pushes p)"
  shows "spec_step\<^sup>*\<^sup>* ([], map (\<lambda>ops. (ops, [])) progs) (spec_state st N (sys_val s') ws)"
proof -
  let ?ws = "map (\<lambda>ops. st_next ops []) progs" and ?P = "\<lambda>m ws. \<exists>A ks. stack_ok st N A ks m ws"
  have r: "sys_ok s" "stack_layout st N" "sys_val s (top_addr st) = 0" "sys_val s (alloc_addr st) = 0"
    using assms(2) by (simp_all add: stack_ready_def)
  have i: "stack_ok st N 0 [] (sys_val s) ?ws" using r(3,4) assms(4) by (simp add: stack_ok_def o_def)
  have f: "flat_pool s (length ?ws) (\<lambda>_. True)" using r(1) assms(3) by (simp add: flat_pool_def validate_core_eq)
  have "spec_step\<^sup>*\<^sup>* (spec_state st N (sys_val s) ?ws) (spec_state st N (sys_val s') ws)"
    by (rule stk.pool_refines [OF assms(1) f, where P = ?P])
      (use i stack_step [OF _ r(2)] in \<open>auto simp: advances_def\<close>)
  then show ?thesis unfolding spec_state_ok [OF i r(2)] by (simp add: o_def)
qed

text \<open>What the specification keeps: every value pushed is on the stack or has been popped, once.\<close>

definition pushed_values :: "stack_op list \<Rightarrow> u32 multiset" where
  "pushed_values ops = mset (concat (map (\<lambda>p. case p of Op_push v \<Rightarrow> [v] | Op_pop \<Rightarrow> []) ops))"

definition popped_values :: "u32 option list \<Rightarrow> u32 multiset" where
  "popped_values got = mset (concat (map (\<lambda>x. case x of Some v \<Rightarrow> [v] | None \<Rightarrow> []) got))"

definition spec_total :: "u32 list \<times> spec_thread list \<Rightarrow> u32 multiset" where
  "spec_total q = mset (fst q) + (\<Sum>t\<leftarrow>snd q. pushed_values (fst t) + popped_values (snd t))"

lemma sum_list_update_mset:
  fixes f :: "'a \<Rightarrow> 'b multiset"
  assumes "i < length xs"
  shows "(\<Sum>x\<leftarrow>xs[i := y]. f x) + f (xs ! i) = (\<Sum>x\<leftarrow>xs. f x) + f y"
  using assms
proof (induction xs arbitrary: i)
  case (Cons x xs)
  then show ?case by (cases i) (auto simp: ac_simps)
qed simp

lemma spec_total_step: "spec_step q q' \<Longrightarrow> spec_total q' = spec_total q"
proof (induction rule: spec_step.induct)
  case (spec_push i ts v ops got xs)
  with sum_list_update_mset [of i ts "\<lambda>t. pushed_values (fst t) + popped_values (snd t)" "(ops, got)"] show ?case
    by (simp add: spec_total_def pushed_values_def)
next
  case (spec_pop i ts ops got v xs)
  with sum_list_update_mset [of i ts "\<lambda>t. pushed_values (fst t) + popped_values (snd t)" "(ops, got @ [Some v])"] show ?case
    by (simp add: spec_total_def pushed_values_def popped_values_def)
next
  case (spec_pop_empty i ts ops got)
  with sum_list_update_mset [of i ts "\<lambda>t. pushed_values (fst t) + popped_values (snd t)" "(ops, got @ [None])"] show ?case
    by (simp add: spec_total_def pushed_values_def popped_values_def)
qed

lemma spec_total_run: "spec_step\<^sup>*\<^sup>* q q' \<Longrightarrow> spec_total q' = spec_total q"
  by (induction rule: rtranclp_induct) (simp_all add: spec_total_step)

end
