(* ===== verification/Hazard_Pointers.thy ===== *)
theory Hazard_Pointers
  imports Flat_Threads
begin

text \<open>
  The hazard pointers of \<^verbatim>\<open>primitives/hazard_ptr.hpp\<close>, and the protocol they are made for: readers that
  protect a shared pointer before they follow it, and a writer that replaces the object, retires the
  old one and frees a retired object once no slot names it (the client of
  \<^verbatim>\<open>sim/tests/test_sync_primitives.cpp\<close>, which poisons a freed object with \<^verbatim>\<open>0xDEAD\<close>). The writer
  takes the addresses of its objects from a list instead of a counter in memory.

  \<^verbatim>\<open>validate_tid\<close> looks at constants only, so the model may test it before every access of
  \<^verbatim>\<open>protect\<close> instead of once on entry.
\<close>

section \<open>The domain\<close>

record HazardDomain =
  hazard_base :: u32
  n_threads :: int

definition HazardDomain_new :: "u32 \<Rightarrow> int \<Rightarrow> exn + HazardDomain" where
  "HazardDomain_new base threads =
     (if threads \<le> 0 then Inl (Invalid_Argument ''HazardDomain needs at least one thread'')
      else Inr \<lparr>hazard_base = base, n_threads = threads\<rparr>)"

definition validate_tid :: "HazardDomain \<Rightarrow> int \<Rightarrow> bool" where
  "validate_tid h tid \<longleftrightarrow> \<not> (tid < 0 \<or> tid \<ge> n_threads h)"

definition tid_error :: exn where
  "tid_error = Out_Of_Range ''hazard-pointer thread id is invalid''"

definition hazard_slot :: "HazardDomain \<Rightarrow> int \<Rightarrow> u32" where
  "hazard_slot h tid = hazard_base h + 4 * of_int tid"

datatype protect_pc = Hp_read | Hp_publish u32 | Hp_fence u32 | Hp_check u32

fun protect_access ::
    "HazardDomain \<Rightarrow> int \<Rightarrow> u32 \<Rightarrow> int \<Rightarrow> protect_pc \<Rightarrow> MesiSystem \<Rightarrow> exn + ((protect_pc + u32) \<times> MesiSystem)" where
  "protect_access h tid ptr_addr d Hp_read s =
     sbind (Dut_read d ptr_addr s) (\<lambda>(p, s). Inr (Inl (Hp_publish p), s))"
| "protect_access h tid ptr_addr d (Hp_publish p) s =
     sbind (Dut_write d (hazard_slot h tid) p s) (\<lambda>s. Inr (Inl (Hp_fence p), s))"
| "protect_access h tid ptr_addr d (Hp_fence p) s =
     sbind (Dut_fence d s) (\<lambda>s. Inr (Inl (Hp_check p), s))"
| "protect_access h tid ptr_addr d (Hp_check p) s =
     sbind (Dut_read d ptr_addr s) (\<lambda>(v, s). Inr (if v = p then Inr p else Inl Hp_read, s))"

definition HazardDomain_protect ::
    "HazardDomain \<Rightarrow> int \<Rightarrow> u32 \<Rightarrow> int \<Rightarrow> protect_pc \<Rightarrow> MesiSystem \<Rightarrow> exn + ((protect_pc + u32) \<times> MesiSystem)" where
  "HazardDomain_protect h tid ptr_addr d pc s =
     (if \<not> validate_tid h tid then Inl tid_error else protect_access h tid ptr_addr d pc s)"

definition HazardDomain_release :: "HazardDomain \<Rightarrow> int \<Rightarrow> int \<Rightarrow> MesiSystem \<Rightarrow> exn + MesiSystem" where
  "HazardDomain_release h tid d s =
     (if \<not> validate_tid h tid then Inl tid_error else Dut_write d (hazard_slot h tid) 0 s)"

text \<open>The scan of the slots from slot \<open>t\<close> on: the test of the loop, and one round of it.\<close>

definition hz_loop :: "HazardDomain \<Rightarrow> nat \<Rightarrow> nat + bool" where
  "hz_loop h t = (if int t < n_threads h then Inl t else Inr False)"

definition HazardDomain_is_hazarded ::
    "HazardDomain \<Rightarrow> u32 \<Rightarrow> int \<Rightarrow> nat \<Rightarrow> MesiSystem \<Rightarrow> exn + ((nat + bool) \<times> MesiSystem)" where
  "HazardDomain_is_hazarded h ptr d t s =
     (if int t < n_threads h
      then sbind (Dut_read d (hazard_slot h (int t)) s)
             (\<lambda>(v, s). Inr (if v = ptr then Inr True else hz_loop h (t + 1), s))
      else Inr (Inr False, s))"

section \<open>Readers and the writer\<close>

datatype hz_reader = Rd_protect protect_pc "u32 list" | Rd_use u32 "u32 list" | Rd_release "u32 list"

definition dead :: u32 where
  "dead = 0xDEAD"

definition rd_next :: "u32 list \<Rightarrow> protect_pc + u32 \<Rightarrow> hz_reader" where
  "rd_next seen r = (case r of
     Inl pc \<Rightarrow> Rd_protect pc seen
   | Inr p \<Rightarrow> if p \<noteq> 0 then Rd_use p seen else Rd_release seen)"

fun reader_act :: "HazardDomain \<Rightarrow> u32 \<Rightarrow> int \<Rightarrow> hz_reader \<Rightarrow> MesiSystem \<Rightarrow> exn + (hz_reader \<times> MesiSystem)" where
  "reader_act h ptr d (Rd_protect pc seen) s =
     sbind (HazardDomain_protect h d ptr d pc s) (\<lambda>(r, s). Inr (rd_next seen r, s))"
| "reader_act h ptr d (Rd_use p seen) s = sbind (Dut_read d p s) (\<lambda>(v, s). Inr (Rd_release (seen @ [v]), s))"
| "reader_act h ptr d (Rd_release seen) s =
     sbind (HazardDomain_release h d d s) (\<lambda>s. Inr (Rd_protect Hp_read seen, s))"

text \<open>
  The writer: objects still to publish, retired objects, and in a scan the objects still to check and
  those that stay retired.
\<close>

datatype hz_writer =
    Wr_next "(u32 \<times> u32) list" "u32 list"
  | Wr_init u32 u32 "(u32 \<times> u32) list" "u32 list" u32
  | Wr_publish u32 "(u32 \<times> u32) list" "u32 list" u32
  | Wr_scan "(u32 \<times> u32) list" u32 "u32 list" "u32 list" nat
  | Wr_free "(u32 \<times> u32) list" u32 "u32 list" "u32 list"

definition wr_scan :: "(u32 \<times> u32) list \<Rightarrow> u32 list \<Rightarrow> u32 list \<Rightarrow> hz_writer" where
  "wr_scan todo rs still = (case rs of [] \<Rightarrow> Wr_next todo still | r # rs \<Rightarrow> Wr_scan todo r rs still 0)"

definition scan_next :: "(u32 \<times> u32) list \<Rightarrow> u32 \<Rightarrow> u32 list \<Rightarrow> u32 list \<Rightarrow> nat + bool \<Rightarrow> hz_writer" where
  "scan_next todo r rs still x = (case x of
     Inl t \<Rightarrow> Wr_scan todo r rs still t
   | Inr hazarded \<Rightarrow> if hazarded then wr_scan todo rs (still @ [r]) else Wr_free todo r rs still)"

fun writer_act :: "HazardDomain \<Rightarrow> u32 \<Rightarrow> int \<Rightarrow> hz_writer \<Rightarrow> MesiSystem \<Rightarrow> exn + (hz_writer \<times> MesiSystem)" where
  "writer_act h ptr d (Wr_next [] retired) s = Inr (Wr_next [] retired, s)"
| "writer_act h ptr d (Wr_next ((a, v) # todo) retired) s =
     sbind (Dut_read d ptr s) (\<lambda>(old, s). Inr (Wr_init a v todo retired old, s))"
| "writer_act h ptr d (Wr_init a v todo retired old) s =
     sbind (Dut_write d a v s) (\<lambda>s. Inr (Wr_publish a todo retired old, s))"
| "writer_act h ptr d (Wr_publish a todo retired old) s =
     sbind (Dut_write d ptr a s) (\<lambda>s. Inr (wr_scan todo (retired @ [old]) [], s))"
| "writer_act h ptr d (Wr_scan todo r rs still t) s =
     sbind (HazardDomain_is_hazarded h r d t s) (\<lambda>(x, s). Inr (scan_next todo r rs still x, s))"
| "writer_act h ptr d (Wr_free todo r rs still) s =
     sbind (Dut_write d r dead s) (\<lambda>s. Inr (wr_scan todo rs still, s))"

datatype hz_thread = Hz_writer hz_writer | Hz_reader hz_reader

fun hz_act :: "HazardDomain \<Rightarrow> u32 \<Rightarrow> int \<Rightarrow> hz_thread \<Rightarrow> MesiSystem \<Rightarrow> exn + (hz_thread \<times> MesiSystem)" where
  "hz_act h ptr d (Hz_writer w) s = sbind (writer_act h ptr d w s) (\<lambda>(w, s). Inr (Hz_writer w, s))"
| "hz_act h ptr d (Hz_reader r) s = sbind (reader_act h ptr d r s) (\<lambda>(r, s). Inr (Hz_reader r, s))"

lemmas [exec_simps] = HazardDomain_new_def validate_tid_def tid_error_def hazard_slot_def HazardDomain_protect_def
  HazardDomain_release_def hz_loop_def HazardDomain_is_hazarded_def rd_next_def wr_scan_def scan_next_def dead_def

section \<open>Steps on the flat memory\<close>

fun flat_protect :: "HazardDomain \<Rightarrow> int \<Rightarrow> u32 \<Rightarrow> protect_pc \<Rightarrow> flat_mem \<Rightarrow> (protect_pc + u32) \<times> flat_mem" where
  "flat_protect h tid ptr Hp_read m = (Inl (Hp_publish (m ptr)), m)"
| "flat_protect h tid ptr (Hp_publish p) m = (Inl (Hp_fence p), m(hazard_slot h tid := p))"
| "flat_protect h tid ptr (Hp_fence p) m = (Inl (Hp_check p), m)"
| "flat_protect h tid ptr (Hp_check p) m = (if m ptr = p then Inr p else Inl Hp_read, m)"

fun flat_reader :: "HazardDomain \<Rightarrow> u32 \<Rightarrow> int \<Rightarrow> hz_reader \<Rightarrow> flat_mem \<Rightarrow> hz_reader \<times> flat_mem" where
  "flat_reader h ptr d (Rd_protect pc seen) m =
     (rd_next seen (fst (flat_protect h d ptr pc m)), snd (flat_protect h d ptr pc m))"
| "flat_reader h ptr d (Rd_use p seen) m = (Rd_release (seen @ [m p]), m)"
| "flat_reader h ptr d (Rd_release seen) m = (Rd_protect Hp_read seen, m(hazard_slot h d := 0))"

definition flat_hazarded :: "HazardDomain \<Rightarrow> u32 \<Rightarrow> nat \<Rightarrow> flat_mem \<Rightarrow> nat + bool" where
  "flat_hazarded h r t m = (if int t < n_threads h
     then if m (hazard_slot h (int t)) = r then Inr True else hz_loop h (t + 1) else Inr False)"

fun flat_writer :: "HazardDomain \<Rightarrow> u32 \<Rightarrow> hz_writer \<Rightarrow> flat_mem \<Rightarrow> hz_writer \<times> flat_mem" where
  "flat_writer h ptr (Wr_next [] retired) m = (Wr_next [] retired, m)"
| "flat_writer h ptr (Wr_next ((a, v) # todo) retired) m = (Wr_init a v todo retired (m ptr), m)"
| "flat_writer h ptr (Wr_init a v todo retired old) m = (Wr_publish a todo retired old, m(a := v))"
| "flat_writer h ptr (Wr_publish a todo retired old) m = (wr_scan todo (retired @ [old]) [], m(ptr := a))"
| "flat_writer h ptr (Wr_scan todo r rs still t) m = (scan_next todo r rs still (flat_hazarded h r t m), m)"
| "flat_writer h ptr (Wr_free todo r rs still) m = (wr_scan todo rs still, m(r := dead))"

fun flat_hz :: "HazardDomain \<Rightarrow> u32 \<Rightarrow> int \<Rightarrow> hz_thread \<Rightarrow> flat_mem \<Rightarrow> hz_thread \<times> flat_mem" where
  "flat_hz h ptr d (Hz_writer w) m = (Hz_writer (fst (flat_writer h ptr w m)), snd (flat_writer h ptr w m))"
| "flat_hz h ptr d (Hz_reader r) m = (Hz_reader (fst (flat_reader h ptr d r m)), snd (flat_reader h ptr d r m))"

lemma protect_flat:
  assumes "sys_ok s" and "validate_core s d" and "validate_tid h tid"
  shows "acts_as (HazardDomain_protect h tid ptr d pc s) s (flat_protect h tid ptr pc (sys_val s))"
  by (cases pc) (simp_all add: HazardDomain_protect_def flat_simps assms)

lemma is_hazarded_flat:
  assumes "sys_ok s" and "validate_core s d"
  shows "acts_as (HazardDomain_is_hazarded h r d t s) s (flat_hazarded h r t (sys_val s), sys_val s)"
  by (auto simp: HazardDomain_is_hazarded_def flat_hazarded_def flat_simps assms)

lemma reader_flat:
  assumes "sys_ok s" and "validate_core s d" and "validate_tid h d"
  shows "acts_as (reader_act h ptr d r s) s (flat_reader h ptr d r (sys_val s))"
  using acts_as_wrap [OF protect_flat [OF assms]]
  by (cases "(h, ptr, d, r, sys_val s)" rule: flat_reader.cases)
    (fastforce simp: flat_simps HazardDomain_release_def assms)+

lemma writer_flat:
  assumes "sys_ok s" and "validate_core s d"
  shows "acts_as (writer_act h ptr d w s) s (flat_writer h ptr w (sys_val s))"
  using acts_as_wrap [OF is_hazarded_flat [OF assms]]
  by (cases "(h, ptr, w, sys_val s)" rule: flat_writer.cases) (fastforce simp: flat_simps assms)+

interpretation haz: flat_threads "hz_act h ptr" "flat_hz h ptr" "validate_tid h" for h ptr
proof
  fix s c w
  assume "sys_ok s" "validate_core s c" "validate_tid h c"
  then show "acts_as (hz_act h ptr c w s) s (flat_hz h ptr c w (sys_val s))"
    using acts_as_wrap [OF reader_flat] acts_as_wrap [OF writer_flat] by (cases w) fastforce+
qed

section \<open>The invariant\<close>

text \<open>\<open>objs\<close> are the addresses of objects, apart from each other, from the pointer and from the slots.\<close>

definition hz_layout :: "HazardDomain \<Rightarrow> u32 \<Rightarrow> u32 set \<Rightarrow> bool" where
  "hz_layout h ptr objs \<longleftrightarrow> n_threads h \<le> 2 ^ 30 \<and> ptr \<notin> objs
     \<and> (\<forall>i < nat (n_threads h). hazard_slot h (int i) \<noteq> ptr \<and> hazard_slot h (int i) \<notin> objs)"

lemma hazard_slot_inj:
  assumes "i < 2 ^ 30" and "j < 2 ^ 30"
  shows "hazard_slot h (int i) = hazard_slot h (int j) \<longleftrightarrow> i = j"
proof -
  have "of_nat (4 * i) = (of_nat (4 * j) :: u32) \<longleftrightarrow> i = j" using assms by (subst of_nat_small_eq) simp_all
  then show ?thesis by (simp add: hazard_slot_def)
qed

text \<open>Objects to come, objects retired and not freed, and the object whose slots are being read.\<close>

fun wr_todo :: "hz_writer \<Rightarrow> (u32 \<times> u32) list" where
  "wr_todo (Wr_next todo ret) = todo"
| "wr_todo (Wr_init a v todo ret old) = (a, v) # todo"
| "wr_todo (Wr_publish a todo ret old) = (a, 0) # todo"
| "wr_todo (Wr_scan todo r rs still t) = todo"
| "wr_todo (Wr_free todo r rs still) = todo"

fun wr_retired :: "hz_writer \<Rightarrow> u32 list" where
  "wr_retired (Wr_next todo ret) = ret"
| "wr_retired (Wr_init a v todo ret old) = ret"
| "wr_retired (Wr_publish a todo ret old) = ret"
| "wr_retired (Wr_scan todo r rs still t) = r # rs @ still"
| "wr_retired (Wr_free todo r rs still) = r # rs @ still"

fun wr_scanning :: "HazardDomain \<Rightarrow> hz_writer \<Rightarrow> (u32 \<times> nat) option" where
  "wr_scanning h (Wr_scan todo r rs still t) = Some (r, t)"
| "wr_scanning h (Wr_free todo r rs still) = Some (r, nat (n_threads h))"
| "wr_scanning h _ = None"

fun wr_mem :: "u32 \<Rightarrow> flat_mem \<Rightarrow> hz_writer \<Rightarrow> bool" where
  "wr_mem ptr m (Wr_init a v todo ret old) \<longleftrightarrow> old = m ptr"
| "wr_mem ptr m (Wr_publish a todo ret old) \<longleftrightarrow> old = m ptr \<and> m a \<noteq> dead"
| "wr_mem ptr m _ \<longleftrightarrow> True"

definition hz_writer_ok :: "u32 set \<Rightarrow> u32 \<Rightarrow> flat_mem \<Rightarrow> hz_writer \<Rightarrow> bool" where
  "hz_writer_ok objs ptr m w \<longleftrightarrow> wr_mem ptr m w
     \<and> distinct (m ptr # map fst (wr_todo w) @ wr_retired w)
     \<and> set (m ptr # map fst (wr_todo w) @ wr_retired w) \<subseteq> objs
     \<and> (\<forall>v \<in> snd ` set (wr_todo w). v \<noteq> dead)
     \<and> (\<forall>p \<in> insert (m ptr) (set (wr_retired w)). m p \<noteq> dead)"

fun rd_published :: "hz_reader \<Rightarrow> u32 option" where
  "rd_published (Rd_protect (Hp_fence p) seen) = Some p"
| "rd_published (Rd_protect (Hp_check p) seen) = Some p"
| "rd_published (Rd_use p seen) = Some p"
| "rd_published _ = None"

fun rd_using :: "hz_reader \<Rightarrow> u32 option" where
  "rd_using (Rd_use p seen) = Some p"
| "rd_using _ = None"

fun rd_seen :: "hz_reader \<Rightarrow> u32 list" where
  "rd_seen (Rd_protect pc seen) = seen"
| "rd_seen (Rd_use p seen) = seen"
| "rd_seen (Rd_release seen) = seen"

text \<open>A reader that uses an object has its slot set, and the scan has not passed the slot.\<close>

definition hz_reader_ok :: "HazardDomain \<Rightarrow> u32 \<Rightarrow> flat_mem \<Rightarrow> hz_writer \<Rightarrow> nat \<Rightarrow> hz_reader \<Rightarrow> bool" where
  "hz_reader_ok h ptr m w i r \<longleftrightarrow> dead \<notin> set (rd_seen r)
     \<and> (\<forall>p. rd_published r = Some p \<longrightarrow> m (hazard_slot h (int i)) = p)
     \<and> (\<forall>p. rd_using r = Some p \<longrightarrow> p \<in> insert (m ptr) (set (wr_retired w))
          \<and> (\<forall>t. wr_scanning h w = Some (p, t) \<longrightarrow> t \<le> i))"

lemma wr_scan_simps [simp]:
  "wr_todo (wr_scan todo rs still) = todo" "wr_mem ptr m (wr_scan todo rs still)"
  "set (wr_retired (wr_scan todo rs still)) = set rs \<union> set still"
  "distinct (wr_retired (wr_scan todo rs still)) \<longleftrightarrow> distinct (rs @ still)"
  by (cases rs; auto simp: wr_scan_def)+

lemma wr_scan_start [dest!]: "wr_scanning h (wr_scan todo rs still) = Some (p, t) \<Longrightarrow> t = 0"
  by (cases rs) (auto simp: wr_scan_def)

lemma dead_nonzero [simp]: "dead \<noteq> 0" "0 \<noteq> dead"
  by (simp_all add: dead_def)

text \<open>The writer's steps: its own invariant.\<close>

lemma writer_ok_step:
  assumes "hz_writer_ok objs ptr m w" and "hz_layout h ptr objs"
  shows "hz_writer_ok objs ptr (snd (flat_writer h ptr w m)) (fst (flat_writer h ptr w m))"
proof (cases "(h, ptr, w, m)" rule: flat_writer.cases)
  case (5 h ptr todo r rs still t m)
  then show ?thesis using assms(1)
    by (cases "flat_hazarded h r t m") (auto simp: hz_writer_ok_def scan_next_def)
qed (use assms in \<open>auto simp: hz_writer_ok_def hz_layout_def\<close>)

text \<open>The writer's steps: what a reader relies on.\<close>

lemma writer_reader_step:
  assumes "hz_writer_ok objs ptr m w" and "hz_layout h ptr objs" and "i < nat (n_threads h)"
    and "hz_reader_ok h ptr m w i r"
  shows "hz_reader_ok h ptr (snd (flat_writer h ptr w m)) (fst (flat_writer h ptr w m)) i r"
proof (cases "(h, ptr, w, m)" rule: flat_writer.cases)
  case (5 h' ptr' todo r' rs still t m')
  then have w: "w = Wr_scan todo r' rs still t" by simp
  have "flat_hazarded h r' t m = Inr True"
    if "rd_using r = Some r'" "\<not> Suc t \<le> i"
  proof -
    have "rd_published r = Some r'" "t \<le> i" using that assms(4) w by (cases r; auto simp: hz_reader_ok_def)+
    with that assms(3,4) show ?thesis by (auto simp: flat_hazarded_def hz_reader_ok_def le_Suc_eq dest: le_antisym)
  qed
  then have "rd_using r \<noteq> Some r' \<or> Suc t \<le> i \<or> flat_hazarded h r' t m = Inr True" by blast
  with w assms(3,4) show ?thesis
    by (cases "flat_hazarded h r' t m") (auto simp: hz_reader_ok_def scan_next_def flat_hazarded_def hz_loop_def split: if_splits)
qed (use assms in \<open>auto simp: hz_reader_ok_def hz_writer_ok_def hz_layout_def\<close>)

text \<open>A reader's step writes its own slot only.\<close>

lemma flat_reader_frame:
  "a \<noteq> hazard_slot h d \<Longrightarrow> snd (flat_reader h ptr d r m) a = m a"
  by (cases "(h, ptr, d, r, m)" rule: flat_reader.cases; cases "(h, d, ptr, case r of Rd_protect pc _ \<Rightarrow> pc | _ \<Rightarrow> Hp_read, m)"
      rule: flat_protect.cases) auto

lemma reader_writer_ok:
  assumes "hz_writer_ok objs ptr m w" and "hz_layout h ptr objs" and "i < nat (n_threads h)"
  shows "hz_writer_ok objs ptr (snd (flat_reader h ptr (int i) r m)) w"
proof -
  let ?m = "snd (flat_reader h ptr (int i) r m)"
  have o: "?m p = m p" if "p \<in> insert ptr objs" for p
    by (rule flat_reader_frame) (use that assms(2,3) in \<open>auto simp: hz_layout_def\<close>)
  have "wr_mem ptr ?m w"
    using assms(1) o by (cases "(ptr, m, w)" rule: wr_mem.cases) (auto simp: hz_writer_ok_def)
  with assms(1) o show ?thesis by (auto simp: hz_writer_ok_def subset_iff)
qed

lemma reader_other_ok:
  assumes "hz_reader_ok h ptr m w j r'" and "hz_layout h ptr objs" and "i < nat (n_threads h)" and "j < nat (n_threads h)"
    and "i \<noteq> j"
  shows "hz_reader_ok h ptr (snd (flat_reader h ptr (int i) r m)) w j r'"
proof -
  have "n_threads h \<le> 2 ^ 30" using assms(2) by (simp add: hz_layout_def)
  then have "nat (n_threads h) \<le> 2 ^ 30" by simp
  then have "j < 2 ^ 30" "i < 2 ^ 30" using assms(3,4) by (meson less_le_trans)+
  then have "hazard_slot h (int j) \<noteq> hazard_slot h (int i)" using assms(5) by (simp add: hazard_slot_inj)
  moreover have "ptr \<noteq> hazard_slot h (int i)" using assms(2,3) by (auto simp: hz_layout_def)
  ultimately show ?thesis using assms(1) by (simp add: hz_reader_ok_def flat_reader_frame)
qed

lemma reader_ok_step:
  assumes "hz_reader_ok h ptr m w i r" and "hz_writer_ok objs ptr m w" and "hz_layout h ptr objs" and "i < nat (n_threads h)"
    and "\<forall>t. wr_scanning h w \<noteq> Some (m ptr, t)"
  shows "hz_reader_ok h ptr (snd (flat_reader h ptr (int i) r m)) w i (fst (flat_reader h ptr (int i) r m))"
proof (cases r)
  case (Rd_protect pc seen)
  with assms show ?thesis by (cases pc) (auto simp: hz_reader_ok_def rd_next_def)
qed (use assms in \<open>auto simp: hz_reader_ok_def hz_writer_ok_def\<close>)

lemma current_not_scanned: "hz_writer_ok objs ptr m w \<Longrightarrow> \<forall>t. wr_scanning h w \<noteq> Some (m ptr, t)"
  by (cases w) (auto simp: hz_writer_ok_def)

section \<open>Every interleaving\<close>

definition hz_inv :: "HazardDomain \<Rightarrow> u32 \<Rightarrow> u32 set \<Rightarrow> flat_mem \<Rightarrow> hz_thread list \<Rightarrow> bool" where
  "hz_inv h ptr objs m ws \<longleftrightarrow> (\<exists>w rs. ws = Hz_writer w # map Hz_reader rs \<and> n_threads h = int (length ws)
     \<and> hz_writer_ok objs ptr m w \<and> (\<forall>i < length rs. hz_reader_ok h ptr m w (Suc i) (rs ! i)))"

lemma hz_inv_step:
  assumes "hz_inv h ptr objs m ws" and "hz_layout h ptr objs" and "k < length ws"
  shows "hz_inv h ptr objs (snd (flat_hz h ptr (int k) (ws ! k) m)) (ws[k := fst (flat_hz h ptr (int k) (ws ! k) m)])"
proof -
  obtain w rs where w: "ws = Hz_writer w # map Hz_reader rs" "n_threads h = int (length ws)" "hz_writer_ok objs ptr m w"
    "\<And>i. i < length rs \<Longrightarrow> hz_reader_ok h ptr m w (Suc i) (rs ! i)"
    using assms(1) by (auto simp: hz_inv_def)
  have n: "Suc i < nat (n_threads h)" if "i < length rs" for i using that w(1,2) by simp
  show ?thesis
  proof (cases k)
    case 0
    with w writer_ok_step [OF w(3) assms(2)] writer_reader_step [OF w(3) assms(2) n w(4)] show ?thesis
      unfolding hz_inv_def by (intro exI [of _ "fst (flat_writer h ptr w m)"] exI [of _ rs]) auto
  next
    case (Suc i)
    then have i: "i < length rs" "ws ! k = Hz_reader (rs ! i)" using assms(3) w(1) by simp_all
    let ?r = "flat_reader h ptr (int (Suc i)) (rs ! i) m"
    have "hz_reader_ok h ptr (snd ?r) w (Suc j) (rs[i := fst ?r] ! j)" if "j < length rs" for j
      using that reader_ok_step [OF w(4) [OF i(1)] w(3) assms(2) n [OF i(1)] current_not_scanned [OF w(3)]]
        reader_other_ok [OF w(4) [OF that] assms(2) n [OF i(1)] n [OF that]] by (auto simp: nth_list_update_if)
    with w Suc i reader_writer_ok [OF w(3) assms(2) n [OF i(1)]] show ?thesis
      unfolding hz_inv_def by (intro exI [of _ w] exI [of _ "rs[i := fst ?r]"]) (auto simp: map_update)
  qed
qed

text \<open>The pointer names an object, the writer has fresh ones, and the readers have not begun.\<close>

lemma hz_pool_inv:
  assumes "(pool_step (hz_act h ptr))\<^sup>*\<^sup>* (s, Hz_writer (Wr_next todo []) # replicate n (Hz_reader (Rd_protect Hp_read []))) (s', ws)"
    and "sys_ok s" and "n_cores s = int (Suc n)" and "n_threads h = int (Suc n)"
    and "hz_layout h ptr (insert (sys_val s ptr) (fst ` set todo))" and "distinct (sys_val s ptr # map fst todo)"
    and "sys_val s (sys_val s ptr) \<noteq> dead" and "\<forall>v \<in> snd ` set todo. v \<noteq> dead"
  shows "hz_inv h ptr (insert (sys_val s ptr) (fst ` set todo)) (sys_val s') ws"
proof -
  let ?ws = "Hz_writer (Wr_next todo []) # replicate n (Hz_reader (Rd_protect Hp_read []))"
    and ?objs = "insert (sys_val s ptr) (fst ` set todo)"
  have i: "hz_inv h ptr ?objs (sys_val s) ?ws"
    unfolding hz_inv_def using assms(4,6-8)
    by (intro exI [of _ "Wr_next todo []"] exI [of _ "replicate n (Rd_protect Hp_read [])"])
      (auto simp: hz_writer_ok_def hz_reader_ok_def)
  have f: "flat_pool s (length ?ws) (validate_tid h)"
    using assms(2-4) by (auto simp: flat_pool_def validate_core_eq validate_tid_def)
  from haz.pool_invariant [OF assms(1) f, of "hz_inv h ptr ?objs", OF i] hz_inv_step [OF _ assms(5)]
  show ?thesis by simp
qed

lemma hz_inv_seen: "hz_inv h ptr objs m ws \<Longrightarrow> Hz_reader r \<in> set ws \<Longrightarrow> dead \<notin> set (rd_seen r)"
  unfolding hz_inv_def hz_reader_ok_def by (auto simp: set_conv_nth [of "_ :: hz_reader list"])

end
