(* ===== verification/Bus_Traffic.thy ===== *)
theory Bus_Traffic
  imports Mesi_System
begin

text \<open>
  What the operations add to the counters of \<^verbatim>\<open>model/perf.hpp\<close>, as a function of the states of the
  line they touch, and how they move these states.
\<close>

section \<open>Counters of a broadcast\<close>

text \<open>The scalar counters: BusRd, BusRdX, BusUpgr, write backs, busy cycles.\<close>

record traffic =
  t_rd :: u64
  t_rdx :: u64
  t_upgr :: u64
  t_wb :: u64
  t_busy :: u64

definition traffic_of :: "PerfCounters \<Rightarrow> traffic" where
  "traffic_of p = \<lparr>t_rd = bus_rd_count p, t_rdx = bus_rdx_count p, t_upgr = bus_upgr_count p,
     t_wb = bus_wb_count p, t_busy = bus_cycles_busy p\<rparr>"

definition bus_traffic :: "SnoopingBus \<Rightarrow> traffic" where
  "bus_traffic b = traffic_of (b_perf b)"

definition add_wb :: "nat \<Rightarrow> traffic \<Rightarrow> traffic" where
  "add_wb n t = t\<lparr>t_wb := t_wb t + of_nat n, t_busy := t_busy t + of_nat n\<rparr>"

definition add_rd :: "traffic \<Rightarrow> traffic" where
  "add_rd t = t\<lparr>t_rd := t_rd t + 1, t_busy := t_busy t + 1\<rparr>"

definition add_rdx :: "traffic \<Rightarrow> traffic" where
  "add_rdx t = t\<lparr>t_rdx := t_rdx t + 1, t_busy := t_busy t + 1\<rparr>"

definition add_upgr :: "traffic \<Rightarrow> traffic" where
  "add_upgr t = t\<lparr>t_upgr := t_upgr t + 1, t_busy := t_busy t + 1\<rparr>"

lemmas traffic_defs = add_wb_def add_rd_def add_rdx_def add_upgr_def

lemma fold_snoop_perf_traffic:
  "traffic_of (fold (\<lambda>i. snoop_perf txn (st i) i) order p)
   = add_wb (length (filter (\<lambda>i. flushes txn (st i)) order)) (traffic_of p)"
  by (induction order arbitrary: p) (auto simp: traffic_of_def add_wb_def snoop_perf_def)

lemma broadcast_perf:
  assumes "bus_wf b"
  shows "b_perf (snd (broadcast txn addr i b))
   = fold (\<lambda>k. snoop_perf txn (lstate b k (line_of addr)) k) (fst (visit_order i b)) (b_perf b)"
  using visit_peers(1) [OF assms, of i]
  by (simp add: broadcast_def case_prod_beta snoop_all_perf frame_simps)

text \<open>Whether some peer of \<open>i\<close> holds the line dirty.\<close>

definition dirty_peer :: "SnoopingBus \<Rightarrow> nat \<Rightarrow> u32 \<Rightarrow> bool" where
  "dirty_peer b i l \<longleftrightarrow> (\<exists>k < bus_n_cores b. k \<noteq> i \<and> lstate b k l = State_M)"

lemma flushers:
  assumes "coherent b"
  shows "length (filter (\<lambda>k. flushes txn (lstate b k (line_of addr))) (fst (visit_order i b)))
    = of_bool (dirty_peer b i (line_of addr) \<and> (txn = BusRd \<or> txn = BusRdX))"
proof -
  let ?F = "filter (\<lambda>k. flushes txn (lstate b k (line_of addr))) (fst (visit_order i b))"
  note p = visit_peers [OF coherentD(1) [OF assms], of i]
  have d: "distinct ?F" using p(1) by (simp add: peers_ok_def)
  have F: "set ?F = {k. k < bus_n_cores b \<and> k \<noteq> i \<and> lstate b k (line_of addr) = State_M
      \<and> (txn = BusRd \<or> txn = BusRdX)}"
    using p(2) by (auto simp: flushes_def)
  have one: "x = y" if "x \<in> set ?F" "y \<in> set ?F" for x y
    using that single_writerD(1) [OF coherent_lineD(1) [OF coherentD(2) [OF assms]]]
    unfolding F by (metis (mono_tags, lifting) State.distinct(5) mem_Collect_eq)
  have "set ?F \<noteq> {} \<longleftrightarrow> dirty_peer b i (line_of addr) \<and> (txn = BusRd \<or> txn = BusRdX)"
    unfolding F dirty_peer_def by blast
  with length_at_most_one [OF d one] show ?thesis by (simp only:)
qed

lemma broadcast_traffic:
  assumes "coherent b"
  shows "bus_traffic (snd (broadcast txn addr i b))
   = add_wb (of_bool (dirty_peer b i (line_of addr) \<and> (txn = BusRd \<or> txn = BusRdX))) (bus_traffic b)"
  by (simp add: bus_traffic_def broadcast_perf [OF coherentD(1) [OF assms]] fold_snoop_perf_traffic
      flushers [OF assms])

lemma traffic_frame [frame_simps]:
  "bus_traffic (on_controller i f b) = bus_traffic b"
  "bus_traffic (register_addr a b) = bus_traffic b"
  "bus_traffic (fill_line i l b) = bus_traffic b"
  "bus_traffic (count_hit i b) = bus_traffic b"
  "bus_traffic (on_perf (\<lambda>p. p\<lparr>l1_miss := inc_at i (l1_miss p)\<rparr>) b) = bus_traffic b"
  "bus_traffic (count_stall i b) = bus_traffic b"
  by (simp_all add: bus_traffic_def frame_simps fill_line_eq traffic_of_def on_perf_def)

lemma traffic_account:
  "bus_traffic (account BusRd b) = add_rd (bus_traffic b)"
  "bus_traffic (account BusRdX b) = add_rdx (bus_traffic b)"
  "bus_traffic (account BusUpgr b) = add_upgr (bus_traffic b)"
  by (simp_all add: bus_traffic_def bus_perf_account traffic_of_def traffic_defs)

lemma dirty_peer_frame [frame_simps]:
  "dirty_peer (register_addr a b) i l = dirty_peer b i l"
  "dirty_peer (on_perf f b) i l = dirty_peer b i l"
  by (simp_all add: dirty_peer_def frame_simps)

section \<open>Traffic of the operations\<close>

lemma processor_read_traffic:
  assumes "coherent b"
  shows "bus_traffic (snd (processor_read i a b)) =
    (if lstate b i (line_of a) \<noteq> State_I then bus_traffic b
     else add_rd (add_wb (of_bool (dirty_peer b i (line_of a))) (bus_traffic b)))"
  using broadcast_traffic [OF coherent_prepared(2) [OF assms, of i a], of BusRd a i]
  by (simp add: processor_read_hit processor_read_miss read_filled_def frame_simps traffic_account Let_def)

lemma acquire_exclusive_traffic:
  assumes "coherent b"
  shows "bus_traffic (snd (acquire_exclusive i a b)) =
    (case lstate b i (line_of a) of
       State_M \<Rightarrow> bus_traffic b
     | State_E \<Rightarrow> bus_traffic b
     | State_S \<Rightarrow> add_upgr (bus_traffic b)
     | State_I \<Rightarrow> add_rdx (add_wb (of_bool (dirty_peer b i (line_of a))) (bus_traffic b)))"
  using broadcast_traffic [OF coherent_prepared(2) [OF assms, of i a], of BusRdX a i]
    broadcast_traffic [OF coherent_prepared(3) [OF assms, of i a], of BusUpgr a i]
  by (cases "lstate b i (line_of a)")
    (simp_all add: acquire_M acquire_E acquire_S acquire_I write_filled_def
      upgraded_def frame_simps traffic_account Let_def add_wb_def)

lemma processor_write_traffic: "bus_traffic (processor_write i a v b) = bus_traffic (snd (acquire_exclusive i a b))"
  by (simp add: processor_write_eq frame_simps)

section \<open>Invalidations\<close>

text \<open>The invalidations counted for core \<open>k\<close>. Taking a line for writing counts one for every other core
  that holds it, whichever transaction does it: a line held Modified or Exclusive has no other holder.\<close>

definition bus_inv :: "SnoopingBus \<Rightarrow> nat \<Rightarrow> u64" where
  "bus_inv b k = inv_count (b_perf b) ! k"

lemma fold_snoop_perf_inv:
  assumes "distinct order" and "k < length (inv_count p)"
  shows "inv_count (fold (\<lambda>i. snoop_perf txn (st i) i) order p) ! k
    = inv_count p ! k + of_bool (k \<in> set order \<and> invalidates txn (st k))"
  using assms
  by (induction order arbitrary: p) (auto simp: snoop_perf_def nth_inc_at)

lemma broadcast_inv:
  assumes "coherent b" and "k < bus_n_cores b"
  shows "bus_inv (snd (broadcast txn addr i b)) k
    = bus_inv b k + of_bool (k \<noteq> i \<and> invalidates txn (lstate b k (line_of addr)))"
proof -
  note wf = coherentD(1) [OF assms(1)]
  have "k < length (inv_count (b_perf b))" using wf assms(2) by (simp add: bus_wf_def perf_sized_def)
  with visit_peers [OF wf, of i] assms(2) show ?thesis
    by (simp add: bus_inv_def broadcast_perf [OF wf] fold_snoop_perf_inv peers_ok_def)
qed

lemma inv_frame [frame_simps]:
  "bus_inv (on_controller i f b) = bus_inv b"
  "bus_inv (register_addr a b) = bus_inv b"
  "bus_inv (fill_line i l b) = bus_inv b"
  "bus_inv (count_hit i b) = bus_inv b"
  "bus_inv (on_perf (\<lambda>p. p\<lparr>l1_miss := inc_at i (l1_miss p)\<rparr>) b) = bus_inv b"
  "bus_inv (count_stall i b) = bus_inv b"
  "bus_inv (account txn b) = bus_inv b"
  by (cases txn; simp add: fun_eq_iff bus_inv_def frame_simps fill_line_eq on_perf_def bus_perf_account Let_def)+

section \<open>Hits and misses\<close>

text \<open>The per-core counters that an operation moves: its own hit or miss, the invalidations of the others.\<close>

record core_counts =
  n_hit :: u64
  n_miss :: u64
  n_inv :: u64

definition add_access :: "bool \<Rightarrow> core_counts \<Rightarrow> core_counts" where
  "add_access hit n = (if hit then n\<lparr>n_hit := n_hit n + 1\<rparr> else n\<lparr>n_miss := n_miss n + 1\<rparr>)"

definition add_inv :: "bool \<Rightarrow> core_counts \<Rightarrow> core_counts" where
  "add_inv lost n = (if lost then n\<lparr>n_inv := n_inv n + 1\<rparr> else n)"

definition bus_counts :: "SnoopingBus \<Rightarrow> nat \<Rightarrow> core_counts" where
  "bus_counts b k = \<lparr>n_hit = l1_hit (b_perf b) ! k, n_miss = l1_miss (b_perf b) ! k, n_inv = bus_inv b k\<rparr>"

lemma fold_snoop_perf_hits:
  "l1_hit (fold (\<lambda>i. snoop_perf txn (st i) i) order p) = l1_hit p"
  "l1_miss (fold (\<lambda>i. snoop_perf txn (st i) i) order p) = l1_miss p"
  by (induction order arbitrary: p) (simp_all add: snoop_perf_def)

lemma broadcast_counts:
  assumes "coherent b" and "k < bus_n_cores b"
  shows "bus_counts (snd (broadcast txn addr i b)) k
    = add_inv (k \<noteq> i \<and> invalidates txn (lstate b k (line_of addr))) (bus_counts b k)"
  using broadcast_inv [OF assms]
  by (simp add: bus_counts_def add_inv_def broadcast_perf [OF coherentD(1) [OF assms(1)]] fold_snoop_perf_hits)

lemma counts_frame [frame_simps]:
  "bus_counts (on_controller i f b) = bus_counts b"
  "bus_counts (register_addr a b) = bus_counts b"
  "bus_counts (fill_line i l b) = bus_counts b"
  "bus_counts (count_stall i b) = bus_counts b"
  "bus_counts (account txn b) = bus_counts b"
  by (cases txn; simp add: fun_eq_iff bus_counts_def frame_simps fill_line_eq on_perf_def bus_perf_account Let_def bus_inv_def)+

lemma counts_access:
  assumes "coherent b" and "k < bus_n_cores b"
  shows "bus_counts (count_hit i b) k = (if k = i then add_access True (bus_counts b k) else bus_counts b k)"
    and "bus_counts (on_perf (\<lambda>p. p\<lparr>l1_miss := inc_at i (l1_miss p)\<rparr>) b) k
      = (if k = i then add_access False (bus_counts b k) else bus_counts b k)"
proof -
  have "k < length (l1_hit (b_perf b))" "k < length (l1_miss (b_perf b))"
    using coherentD(1) [OF assms(1)] assms(2) by (simp_all add: bus_wf_def perf_sized_def)
  then show "bus_counts (count_hit i b) k = (if k = i then add_access True (bus_counts b k) else bus_counts b k)"
    "bus_counts (on_perf (\<lambda>p. p\<lparr>l1_miss := inc_at i (l1_miss p)\<rparr>) b) k
      = (if k = i then add_access False (bus_counts b k) else bus_counts b k)"
    by (auto simp: bus_counts_def add_access_def on_perf_def bus_inv_def nth_inc_at)
qed

lemma processor_read_counts:
  assumes "coherent b" and "k < bus_n_cores b"
  shows "bus_counts (snd (processor_read i a b)) k =
    (if k = i then add_access (lstate b i (line_of a) \<noteq> State_I) (bus_counts b k) else bus_counts b k)"
  using counts_access [OF coherent_register [OF assms(1), of a], of k i] assms(2)
    broadcast_counts [OF coherent_prepared(2) [OF assms(1), of i a], of k BusRd a i]
  by (cases "lstate b i (line_of a) = State_I")
    (simp_all add: processor_read_hit processor_read_miss read_filled_def frame_simps Let_def add_inv_def invalidates_def)

lemma acquire_exclusive_counts:
  assumes "coherent b" and "i < bus_n_cores b" and "k < bus_n_cores b"
  shows "bus_counts (snd (acquire_exclusive i a b)) k =
    (if k = i then add_access (lstate b i (line_of a) \<noteq> State_I) (bus_counts b k)
     else add_inv (lstate b k (line_of a) \<noteq> State_I) (bus_counts b k))"
proof -
  note one = single_writerD [OF coherent_lineD(1) [OF coherentD(2) [OF assms(1)]] assms(2,3), of "line_of a"]
  from one assms(3) counts_access [OF coherent_register [OF assms(1), of a], of k i]
    broadcast_counts [OF coherent_prepared(2) [OF assms(1), of i a], of k BusRdX a i]
    broadcast_counts [OF coherent_prepared(3) [OF assms(1), of i a], of k BusUpgr a i]
  show ?thesis
    by (cases "lstate b i (line_of a)")
      (auto simp: acquire_M acquire_E acquire_S acquire_I write_filled_def upgraded_def frame_simps
        invalidates_def add_inv_def Let_def)
qed

lemma acquire_exclusive_inv:
  assumes "coherent b" and "i < bus_n_cores b" and "k < bus_n_cores b"
  shows "bus_inv (snd (acquire_exclusive i a b)) k
    = bus_inv b k + of_bool (k \<noteq> i \<and> lstate b k (line_of a) \<noteq> State_I)"
  using arg_cong [OF acquire_exclusive_counts [OF assms, of a], of n_inv]
  by (simp add: bus_counts_def add_access_def add_inv_def split: if_splits)

section \<open>State transitions of the operations\<close>

definition other_copy :: "SnoopingBus \<Rightarrow> nat \<Rightarrow> u32 \<Rightarrow> bool" where
  "other_copy b i l \<longleftrightarrow> (\<exists>k < bus_n_cores b. k \<noteq> i \<and> lstate b k l \<noteq> State_I)"

lemma processor_read_states:
  assumes "coherent b" and "i < bus_n_cores b" and "j < bus_n_cores b"
  shows "lstate (snd (processor_read i a b)) j l =
    (if l \<noteq> line_of a \<or> lstate b i l \<noteq> State_I then lstate b j l
     else if j = i then (if other_copy b i l then State_S else State_E)
     else if lstate b j l = State_I then State_I else State_S)"
proof (cases "lstate b i (line_of a) = State_I")
  case False
  then show ?thesis by (auto simp: processor_read_hit frame_simps)
next
  case True
  let ?b = "count_miss i (register_addr a b)"
  note wf = coherentD(1) [OF coherent_prepared(2) [OF assms(1), of i a]]
  have f: "fill_state ?b i a = (if other_copy b i (line_of a) then State_S else State_E)"
    using fill_state_alone [OF wf, of i a] fill_state_cases [of ?b i a]
    by (auto simp: other_copy_def frame_simps)
  show ?thesis
    using True assms(3) read_filled_controller [OF wf, of j i a]
    by (auto simp: processor_read_miss Let_def frame_simps f line_state_snooped)
qed

lemma acquire_exclusive_states:
  assumes "coherent b" and "i < bus_n_cores b" and "j < bus_n_cores b"
  shows "lstate (snd (acquire_exclusive i a b)) j l =
    (if l \<noteq> line_of a then lstate b j l else if j = i then State_M else State_I)"
proof (cases "l = line_of a")
  case True
  note c = acquire_exclusive_coherent [OF assms(1,2), of a]
  from True c(3,4) single_writerD(1) [OF coherent_lineD(1) [OF coherentD(2) [OF c(1)]], of i j l] assms(2,3)
  show ?thesis by auto
next
  case False
  note wf = coherentD(1) [OF coherent_prepared(2) [OF assms(1), of i a]]
    and wf' = coherentD(1) [OF coherent_prepared(3) [OF assms(1), of i a]]
  from False assms(2,3) write_filled_controller [OF wf, of j i a] upgraded_controller [OF wf', of j i a]
  show ?thesis
    by (cases "lstate b i (line_of a)")
      (simp_all add: acquire_M acquire_E acquire_S acquire_I Let_def frame_simps
        controller_on_controller line_state_snooped)
qed

lemma processor_write_states:
  assumes "coherent b" and "i < bus_n_cores b" and "j < bus_n_cores b"
  shows "lstate (processor_write i a v b) j l =
    (if l \<noteq> line_of a then lstate b j l else if j = i then State_M else State_I)"
  using acquire_exclusive_states [OF assms, of a l] acquire_exclusive_coherent(3) [OF assms(1,2), of a] assms(3)
  by (auto simp: processor_write_eq controller_on_controller split: if_splits)

text \<open>An operation of core \<open>i\<close> never raises the state another core has.\<close>

lemma peers_never_rise:
  assumes "coherent b" and "i < bus_n_cores b" and "j < bus_n_cores b" and "i \<noteq> j"
  shows "lstate (snd (processor_read i a b)) j l \<le> lstate b j l"
    and "lstate (snd (acquire_exclusive i a b)) j l \<le> lstate b j l"
  using assms(4) processor_read_states [OF assms(1-3)] acquire_exclusive_states [OF assms(1-3)]
  by (auto simp: State_S_le_iff)

section \<open>The facade\<close>

definition sys_traffic :: "MesiSystem \<Rightarrow> traffic" where
  "sys_traffic s = bus_traffic (s_bus s)"

definition sys_state :: "MesiSystem \<Rightarrow> nat \<Rightarrow> u32 \<Rightarrow> State" where
  "sys_state s i l = lstate (s_bus s) i l"

lemma MesiSystem_write_effect:
  assumes "sys_ok s" and "validate_core s c"
  shows "\<exists>s'. MesiSystem_write c a v s = Inr s' \<and> sys_ok s' \<and> validate_core s' = validate_core s
    \<and> sys_val s' = (sys_val s)(a := v)
    \<and> sys_traffic s' =
        (case sys_state s (nat c) (line_of a) of
           State_M \<Rightarrow> sys_traffic s
         | State_E \<Rightarrow> sys_traffic s
         | State_S \<Rightarrow> add_upgr (sys_traffic s)
         | State_I \<Rightarrow> add_rdx (add_wb (of_bool (dirty_peer (s_bus s) (nat c) (line_of a))) (sys_traffic s)))
    \<and> (\<forall>j l. validate_core s (int j) \<longrightarrow> sys_state s' j l =
        (if l \<noteq> line_of a then sys_state s j l else if j = nat c then State_M else State_I))"
proof -
  obtain s' where s': "MesiSystem_write c a v s = Inr s'" "sys_ok s'" "validate_core s' = validate_core s"
    "sys_val s' = (sys_val s)(a := v)"
    using MesiSystem_write_ok [OF assms] by blast
  then have b: "s_bus s' = processor_write (nat c) a v (s_bus s)"
    using assms(2) by (auto simp: MesiSystem_write_def Let_def frame_simps)
  have "sys_traffic s' = bus_traffic (snd (acquire_exclusive (nat c) a (s_bus s)))"
    by (simp only: sys_traffic_def b processor_write_traffic)
  note tr = this [unfolded acquire_exclusive_traffic [OF sys_okD(1) [OF assms]], folded sys_traffic_def sys_state_def]
  have "sys_state s' j l = (if l \<noteq> line_of a then sys_state s j l else if j = nat c then State_M else State_I)"
    if "validate_core s (int j)" for j l
    unfolding sys_state_def b
    by (rule processor_write_states [OF sys_okD [OF assms]]) (use that in \<open>simp add: validate_core_nat\<close>)
  with s' tr show ?thesis by blast
qed

lemma MesiSystem_read_effect:
  assumes "sys_ok s" and "validate_core s c"
  shows "\<exists>s'. MesiSystem_read c a s = Inr (sys_val s a, s') \<and> sys_ok s' \<and> validate_core s' = validate_core s
    \<and> sys_val s' = sys_val s
    \<and> sys_traffic s' =
        (if sys_state s (nat c) (line_of a) \<noteq> State_I then sys_traffic s
         else add_rd (add_wb (of_bool (dirty_peer (s_bus s) (nat c) (line_of a))) (sys_traffic s)))
    \<and> (\<forall>j l. validate_core s (int j) \<longrightarrow> sys_state s' j l =
        (if l \<noteq> line_of a \<or> sys_state s (nat c) l \<noteq> State_I then sys_state s j l
         else if j = nat c then (if other_copy (s_bus s) (nat c) l then State_S else State_E)
         else if sys_state s j l = State_I then State_I else State_S))"
proof -
  obtain s' where s': "MesiSystem_read c a s = Inr (sys_val s a, s')" "sys_ok s'" "validate_core s' = validate_core s"
    "sys_val s' = sys_val s"
    using MesiSystem_read_ok [OF assms] by blast
  then have b: "s_bus s' = snd (processor_read (nat c) a (s_bus s))"
    using assms(2) by (auto simp: MesiSystem_read_def Let_def case_prod_beta frame_simps)
  have "sys_traffic s' = bus_traffic (snd (processor_read (nat c) a (s_bus s)))"
    by (simp only: sys_traffic_def b)
  note tr = this [unfolded processor_read_traffic [OF sys_okD(1) [OF assms]], folded sys_traffic_def sys_state_def]
  have "sys_state s' j l =
        (if l \<noteq> line_of a \<or> sys_state s (nat c) l \<noteq> State_I then sys_state s j l
         else if j = nat c then (if other_copy (s_bus s) (nat c) l then State_S else State_E)
         else if sys_state s j l = State_I then State_I else State_S)"
    if "validate_core s (int j)" for j l
    unfolding sys_state_def b
    by (rule processor_read_states [OF sys_okD [OF assms]]) (use that in \<open>simp add: validate_core_nat\<close>)
  with s' tr show ?thesis by blast
qed

definition sys_inv :: "MesiSystem \<Rightarrow> nat \<Rightarrow> u64" where
  "sys_inv s k = bus_inv (s_bus s) k"

lemma MesiSystem_write_inv:
  assumes "sys_ok s" and "validate_core s c" and "validate_core s (int k)" and "MesiSystem_write c a v s = Inr s'"
  shows "sys_inv s' k = sys_inv s k + of_bool (k \<noteq> nat c \<and> sys_state s k (line_of a) \<noteq> State_I)"
proof -
  have "s_bus s' = processor_write (nat c) a v (s_bus s)"
    using assms(2,4) by (auto simp: MesiSystem_write_def Let_def frame_simps)
  with acquire_exclusive_inv [OF sys_okD [OF assms(1,2)], of k a] assms(3) show ?thesis
    by (simp add: sys_inv_def sys_state_def processor_write_eq frame_simps validate_core_nat)
qed

definition sys_counts :: "MesiSystem \<Rightarrow> nat \<Rightarrow> core_counts" where
  "sys_counts s k = bus_counts (s_bus s) k"

lemma MesiSystem_counts:
  assumes "sys_ok s" and "validate_core s c" and "validate_core s (int k)"
  shows "MesiSystem_read c a s = Inr (v, s') \<Longrightarrow> sys_counts s' k =
      (if k = nat c then add_access (sys_state s k (line_of a) \<noteq> State_I) (sys_counts s k) else sys_counts s k)"
    and "MesiSystem_write c a v s = Inr s' \<Longrightarrow> sys_counts s' k =
      (if k = nat c then add_access (sys_state s k (line_of a) \<noteq> State_I) (sys_counts s k)
       else add_inv (sys_state s k (line_of a) \<noteq> State_I) (sys_counts s k))"
proof -
  note c = sys_okD [OF assms(1,2)]
  have k: "k < bus_n_cores (s_bus s)" using assms(3) by (simp add: validate_core_nat)
  show "sys_counts s' k =
      (if k = nat c then add_access (sys_state s k (line_of a) \<noteq> State_I) (sys_counts s k) else sys_counts s k)"
    if "MesiSystem_read c a s = Inr (v, s')"
  proof -
    have "s_bus s' = snd (processor_read (nat c) a (s_bus s))"
      using assms(2) that by (auto simp: MesiSystem_read_def Let_def case_prod_beta frame_simps)
    with processor_read_counts [OF c(1) k] show ?thesis by (simp add: sys_counts_def sys_state_def)
  qed
  show "sys_counts s' k =
      (if k = nat c then add_access (sys_state s k (line_of a) \<noteq> State_I) (sys_counts s k)
       else add_inv (sys_state s k (line_of a) \<noteq> State_I) (sys_counts s k))"
    if "MesiSystem_write c a v s = Inr s'"
  proof -
    have "s_bus s' = processor_write (nat c) a v (s_bus s)"
      using assms(2) that by (auto simp: MesiSystem_write_def Let_def frame_simps)
    with acquire_exclusive_counts [OF c k, of a] show ?thesis
      by (simp add: sys_counts_def sys_state_def processor_write_eq frame_simps)
  qed
qed

section \<open>Every transaction occupies the bus for one cycle\<close>

definition balanced :: "traffic \<Rightarrow> bool" where
  "balanced t \<longleftrightarrow> t_busy t = t_rd t + t_rdx t + t_upgr t + t_wb t"

lemma balanced_add:
  "balanced t \<Longrightarrow> balanced (add_wb n t)" "balanced t \<Longrightarrow> balanced (add_rd t)"
  "balanced t \<Longrightarrow> balanced (add_rdx t)" "balanced t \<Longrightarrow> balanced (add_upgr t)"
  by (simp_all add: balanced_def traffic_defs)

lemma balanced_read: "coherent b \<Longrightarrow> balanced (bus_traffic b) \<Longrightarrow> balanced (bus_traffic (snd (processor_read i a b)))"
  by (simp add: processor_read_traffic balanced_add)

lemma balanced_acquire:
  "coherent b \<Longrightarrow> balanced (bus_traffic b) \<Longrightarrow> balanced (bus_traffic (snd (acquire_exclusive i a b)))"
  by (simp add: acquire_exclusive_traffic balanced_add split: State.split)

lemma sys_traffic_frame [simp]:
  "sys_traffic (MesiSystem_log c t a v s) = sys_traffic s"
  "sys_traffic (s\<lparr>s_bus := b\<rparr>) = bus_traffic b"
  "sys_traffic (s\<lparr>s_tracing := on\<rparr>) = sys_traffic s"
  "sys_traffic (clear_trace s) = sys_traffic s"
  by (simp_all add: sys_traffic_def frame_simps clear_trace_def)

lemma traffic_of_race [simp]: "bus_traffic (b\<lparr>b_race := r, b_rng := g\<rparr>) = bus_traffic b"
  by (simp add: bus_traffic_def)

lemma balanced_call:
  assumes "sys_ok s" and "balanced (sys_traffic s)"
  shows "balanced (sys_traffic (snd (exec_call c s)))"
proof -
  have c: "coherent (s_bus s)" and b: "balanced (bus_traffic (s_bus s))"
    using assms by (simp_all add: sys_ok_def sys_traffic_def)
  show ?thesis
    using balanced_read [OF c b] balanced_acquire [OF c b] assms(2) b
    by (cases c)
      (simp_all add: lift_value_def lift_unit_def lift_cas_def MesiSystem_read_def MesiSystem_write_def
        MesiSystem_cas_def MesiSystem_fetch_and_add_def MesiSystem_fence_def enable_tracing_def
        MesiSystem_enable_race_injection_def SnoopingBus_enable_race_injection_def MesiSystem_register_def
        processor_write_eq case_prod_beta Let_def frame_simps)
qed

lemma balanced_reachable: "reachable n s \<Longrightarrow> balanced (sys_traffic s)"
proof (induction rule: reachable.induct)
  case (reach_new s)
  then have "s_bus s = SnoopingBus_new (nat n)"
    by (auto simp: MesiSystem_new_def checked_core_count_def split: if_splits)
  then show ?case
    by (simp add: balanced_def sys_traffic_def bus_traffic_def SnoopingBus_new_def traffic_of_def
        PerfCounters_resize_def PerfCounters_new_def)
next
  case (reach_call s c r s')
  with balanced_call [of s c] reachable_ok [of n s] show ?case by simp
qed

end
