(* ===== verification/Workloads.thy ===== *)
theory Workloads
  imports Bus_Traffic
begin

text \<open>
  The coherence workloads of \<^verbatim>\<open>sim/workloads.hpp\<close>, and the traffic they cause on a new system. A loop
  whose bound is a negative \<^verbatim>\<open>int\<close> does not run (\<open>nat\<close> of a negative number is \<open>0\<close>). \<^verbatim>\<open>2 * i\<close>, \<^verbatim>\<open>2 * i + 1\<close> and
  \<^verbatim>\<open>4 * i\<close> are \<^verbatim>\<open>int\<close> expressions; where they overflow the result is \<open>Inl Signed_Overflow\<close>.
\<close>

section \<open>The workloads\<close>

definition ping_pong :: "u32 \<Rightarrow> int \<Rightarrow> MesiSystem \<Rightarrow> exn + MesiSystem" where
  "ping_pong addr iters s =
     for_each (\<lambda>i s.
       sbind (int_mul 2 (int i)) (\<lambda>x.
       sbind (MesiSystem_write 0 addr (of_int x) s) (\<lambda>s.
       sbind (int_mul 2 (int i)) (\<lambda>x.
       sbind (int_add x 1) (\<lambda>y.
       MesiSystem_write 1 addr (of_int y) s))))) [0..<nat iters] s"

definition false_sharing :: "u32 \<Rightarrow> u32 \<Rightarrow> int \<Rightarrow> MesiSystem \<Rightarrow> exn + MesiSystem" where
  "false_sharing a0 a1 iters s =
     for_each (\<lambda>i s. sbind (MesiSystem_write 0 a0 (of_nat i) s)
                (MesiSystem_write 1 a1 (of_nat i))) [0..<nat iters] s"

definition producer_consumer ::
    "u32 \<Rightarrow> int \<Rightarrow> u32 \<Rightarrow> MesiSystem \<Rightarrow> exn + (u32 list \<times> MesiSystem)" where
  "producer_consumer buf_base words flag_addr s =
     sbind (for_each (\<lambda>i s. sbind (int_mul 4 (int i)) (\<lambda>k.
                MesiSystem_write 0 (buf_base + of_int k) (0xC0DE0000 + of_nat i) s)) [0..<nat words] s) (\<lambda>s.
     sbind (MesiSystem_write 0 flag_addr 1 s) (\<lambda>s.
     sbind (MesiSystem_read 1 flag_addr s) (\<lambda>(_, s).
     for_each (\<lambda>i (out, s). sbind (int_mul 4 (int i)) (\<lambda>k.
                sbind (MesiSystem_read 1 (buf_base + of_int k) s)
                (\<lambda>(v, s). Inr (out @ [v], s)))) [0..<nat words] ([], s))))"

definition reader_storm :: "u32 \<Rightarrow> MesiSystem \<Rightarrow> exn + MesiSystem" where
  "reader_storm addr s =
     for_each (\<lambda>c s. sbind (MesiSystem_read (int c) addr s) (\<lambda>(_, s). Inr s)) [0..<nat (n_cores s)] s"

lemmas [exec_simps] = ping_pong_def false_sharing_def producer_consumer_def reader_storm_def

section \<open>Who owns a line\<close>

definition line_owner :: "MesiSystem \<Rightarrow> u32 \<Rightarrow> nat option \<Rightarrow> bool" where
  "line_owner s l k \<longleftrightarrow>
     (\<forall>j. validate_core s (int j) \<longrightarrow> sys_state s j l = (if k = Some j then State_M else State_I))
     \<and> (\<forall>j. k = Some j \<longrightarrow> validate_core s (int j))"

definition rdx_traffic :: "nat \<Rightarrow> nat \<Rightarrow> traffic" where
  "rdx_traffic r w = \<lparr>t_rd = 0, t_rdx = of_nat r, t_upgr = 0, t_wb = of_nat w, t_busy = of_nat (r + w)\<rparr>"

lemma rdx_traffic_add: "add_rdx (add_wb n (rdx_traffic r w)) = rdx_traffic (Suc r) (w + n)"
  by (simp add: rdx_traffic_def traffic_defs)

lemma line_owner_dirty:
  assumes "line_owner s l k" and "sys_ok s" and "validate_core s (int i)"
  shows "dirty_peer (s_bus s) i l \<longleftrightarrow> k \<noteq> None \<and> k \<noteq> Some i"
proof -
  have st: "lstate (s_bus s) j l = (if k = Some j then State_M else State_I)" if "j < bus_n_cores (s_bus s)" for j
    using assms(1) that by (simp add: line_owner_def sys_state_def validate_core_nat)
  have k: "j < bus_n_cores (s_bus s)" if "k = Some j" for j
    using assms(1) that by (simp add: line_owner_def validate_core_nat)
  show ?thesis using st k by (cases k) (auto simp: dirty_peer_def)
qed

lemma write_owned:
  assumes "sys_ok s" and "validate_core s (int c)" and "line_owner s (line_of a) k"
  shows "\<exists>s'. MesiSystem_write (int c) a v s = Inr s' \<and> sys_ok s' \<and> validate_core s' = validate_core s
    \<and> line_owner s' (line_of a) (Some c)
    \<and> (\<forall>l k'. l \<noteq> line_of a \<longrightarrow> line_owner s l k' \<longrightarrow> line_owner s' l k')
    \<and> sys_traffic s' = (if k = Some c then sys_traffic s
        else add_rdx (add_wb (of_bool (k \<noteq> None)) (sys_traffic s)))
    \<and> (\<forall>j. validate_core s (int j) \<longrightarrow> sys_inv s' j = sys_inv s j + of_bool (j \<noteq> c \<and> k = Some j))"
proof -
  have st: "sys_state s c (line_of a) = (if k = Some c then State_M else State_I)"
    using assms(2,3) by (simp add: line_owner_def)
  from MesiSystem_write_effect [OF assms(1,2), of a v] obtain s' where
    s': "MesiSystem_write (int c) a v s = Inr s'" "sys_ok s'" "validate_core s' = validate_core s"
    "sys_traffic s' = (case sys_state s c (line_of a) of
           State_M \<Rightarrow> sys_traffic s
         | State_E \<Rightarrow> sys_traffic s
         | State_S \<Rightarrow> add_upgr (sys_traffic s)
         | State_I \<Rightarrow> add_rdx (add_wb (of_bool (dirty_peer (s_bus s) c (line_of a))) (sys_traffic s)))"
    "\<And>j l. validate_core s (int j) \<Longrightarrow> sys_state s' j l =
        (if l \<noteq> line_of a then sys_state s j l else if j = c then State_M else State_I)"
    by auto
  have "line_owner s' (line_of a) (Some c)" using s'(3,5) assms(2) by (simp add: line_owner_def)
  moreover have "line_owner s' l k'" if "l \<noteq> line_of a" "line_owner s l k'" for l k'
    using that s'(3,5) by (simp add: line_owner_def)
  moreover have "sys_traffic s' = (if k = Some c then sys_traffic s
        else add_rdx (add_wb (of_bool (k \<noteq> None)) (sys_traffic s)))"
    using s'(4) st line_owner_dirty [OF assms(3,1,2)] by (cases k) auto
  moreover have "sys_inv s' j = sys_inv s j + of_bool (j \<noteq> c \<and> k = Some j)" if "validate_core s (int j)" for j
    using MesiSystem_write_inv [OF assms(1,2) that s'(1)] assms(3) that by (auto simp: line_owner_def)
  ultimately show ?thesis using s'(1-3) by blast
qed

lemma write_ownedE:
  assumes "sys_ok s" and "validate_core s (int c)" and "line_owner s (line_of a) k"
  obtains s' where "MesiSystem_write (int c) a v s = Inr s'" "sys_ok s'" "validate_core s' = validate_core s"
    "line_owner s' (line_of a) (Some c)" "\<And>l k'. l \<noteq> line_of a \<Longrightarrow> line_owner s l k' \<Longrightarrow> line_owner s' l k'"
    "sys_traffic s' = (if k = Some c then sys_traffic s
        else add_rdx (add_wb (of_bool (k \<noteq> None)) (sys_traffic s)))"
    "\<And>j. validate_core s (int j) \<Longrightarrow> sys_inv s' j = sys_inv s j + of_bool (j \<noteq> c \<and> k = Some j)"
  using write_owned [OF assms, of v] by blast

lemma new_owner:
  assumes "MesiSystem_new n = Inr s"
  shows "line_owner s l None" "sys_traffic s = rdx_traffic 0 0" "int k < n \<Longrightarrow> sys_inv s k = 0"
proof -
  have b: "s_bus s = SnoopingBus_new (nat n)"
    using assms by (auto simp: MesiSystem_new_def checked_core_count_def split: if_splits)
  show "line_owner s l None" by (auto simp: line_owner_def validate_core_nat sys_state_def b)
  show "sys_traffic s = rdx_traffic 0 0"
    by (simp add: sys_traffic_def bus_traffic_def b SnoopingBus_new_def traffic_of_def rdx_traffic_def
        PerfCounters_resize_def PerfCounters_new_def)
  show "sys_inv s k = 0" if "int k < n"
    using that by (simp add: sys_inv_def bus_inv_def b SnoopingBus_new_def PerfCounters_resize_def)
qed

section \<open>Two cores that write the same line\<close>

definition contended :: "u32 \<Rightarrow> nat \<Rightarrow> MesiSystem \<Rightarrow> bool" where
  "contended l i s \<longleftrightarrow> sys_ok s \<and> validate_core s 0 \<and> validate_core s 1
     \<and> line_owner s l (if i = 0 then None else Some 1)
     \<and> sys_traffic s = rdx_traffic (2 * i) (2 * i - 1) \<and> sys_inv s 0 + sys_inv s 1 = of_nat (2 * i - 1)"

lemma contended_round:
  assumes "contended (line_of a0) i s" and "line_of a1 = line_of a0"
  shows "\<exists>s'. sbind (MesiSystem_write 0 a0 v0 s) (MesiSystem_write 1 a1 v1) = Inr s'
    \<and> contended (line_of a0) (Suc i) s'"
proof -
  have c: "sys_ok s" "validate_core s (int 0)" "validate_core s (int 1)"
    "line_owner s (line_of a0) (if i = 0 then None else Some 1)"
    "sys_traffic s = rdx_traffic (2 * i) (2 * i - 1)" "sys_inv s 0 + sys_inv s 1 = of_nat (2 * i - 1)"
    using assms(1) by (simp_all add: contended_def)
  obtain s1 where s1: "MesiSystem_write (int 0) a0 v0 s = Inr s1" "sys_ok s1" "validate_core s1 = validate_core s"
      "line_owner s1 (line_of a1) (Some 0)" "sys_traffic s1 = rdx_traffic (Suc (2 * i)) (2 * i)"
      "sys_inv s1 0 + sys_inv s1 1 = of_nat (2 * i)"
  proof (rule write_ownedE [OF c(1,2,4), of v0])
    fix s1
    assume s1: "MesiSystem_write (int 0) a0 v0 s = Inr s1" "sys_ok s1" "validate_core s1 = validate_core s"
      "line_owner s1 (line_of a0) (Some 0)"
      "sys_traffic s1 = (if (if i = 0 then None else Some 1) = Some (0 :: nat) then sys_traffic s
        else add_rdx (add_wb (of_bool ((if i = 0 then None else Some 1) \<noteq> (None :: nat option))) (sys_traffic s)))"
      "\<And>j. validate_core s (int j) \<Longrightarrow>
         sys_inv s1 j = sys_inv s j + of_bool (j \<noteq> 0 \<and> (if i = 0 then None else Some 1) = Some j)"
    have "sys_traffic s1 = rdx_traffic (Suc (2 * i)) (2 * i)"
      using s1(5) c(5) by (cases i) (simp_all add: rdx_traffic_add)
    moreover have "sys_inv s1 0 + sys_inv s1 1 = of_nat (2 * i)"
      using s1(6) [OF c(2)] s1(6) [OF c(3)] c(6) by (cases i) (simp_all add: ac_simps)
    ultimately show thesis using that s1(1-4) assms(2) by simp
  qed
  have v1: "validate_core s1 (int 0)" "validate_core s1 (int 1)" using c(2,3) s1(3) by simp_all
  show ?thesis
  proof (rule write_ownedE [OF s1(2) v1(2) s1(4), of v1])
    fix s2
    assume s2: "MesiSystem_write (int 1) a1 v1 s1 = Inr s2" "sys_ok s2" "validate_core s2 = validate_core s1"
      "line_owner s2 (line_of a1) (Some 1)"
      "sys_traffic s2 = (if Some 0 = Some (1 :: nat) then sys_traffic s1
        else add_rdx (add_wb (of_bool (Some 0 \<noteq> (None :: nat option))) (sys_traffic s1)))"
      "\<And>j. validate_core s1 (int j) \<Longrightarrow> sys_inv s2 j = sys_inv s1 j + of_bool (j \<noteq> 1 \<and> Some 0 = Some j)"
    have "sys_traffic s2 = rdx_traffic (2 * Suc i) (2 * Suc i - 1)"
      using s2(5) s1(5) by (simp add: rdx_traffic_add)
    moreover have "sys_inv s2 0 + sys_inv s2 1 = of_nat (2 * Suc i - 1)"
      using s2(6) [OF v1(1)] s2(6) [OF v1(2)] s1(6) by (simp add: ac_simps)
    ultimately show ?thesis using s1(1,3) s2(1-4) c(2,3) assms(2) by (simp add: contended_def)
  qed
qed

lemma contended_new:
  assumes "MesiSystem_new n = Inr s" and "2 \<le> n"
  shows "contended l 0 s"
  using MesiSystem_newD [OF assms(1)] new_owner [OF assms(1)] assms(2)
  by (simp add: contended_def validate_core_eq)

section \<open>Two cores that write different lines\<close>

definition padded :: "u32 \<Rightarrow> u32 \<Rightarrow> nat \<Rightarrow> MesiSystem \<Rightarrow> bool" where
  "padded l0 l1 i s \<longleftrightarrow> sys_ok s \<and> validate_core s 0 \<and> validate_core s 1
     \<and> line_owner s l0 (if i = 0 then None else Some 0) \<and> line_owner s l1 (if i = 0 then None else Some 1)
     \<and> sys_traffic s = rdx_traffic (if i = 0 then 0 else 2) 0 \<and> sys_inv s 0 + sys_inv s 1 = 0"

lemma padded_round:
  assumes "padded (line_of a0) (line_of a1) i s" and "line_of a1 \<noteq> line_of a0"
  shows "\<exists>s'. sbind (MesiSystem_write 0 a0 v0 s) (MesiSystem_write 1 a1 v1) = Inr s'
    \<and> padded (line_of a0) (line_of a1) (Suc i) s'"
proof -
  have c: "sys_ok s" "validate_core s (int 0)" "validate_core s (int 1)"
    "line_owner s (line_of a0) (if i = 0 then None else Some 0)"
    "line_owner s (line_of a1) (if i = 0 then None else Some 1)"
    "sys_traffic s = rdx_traffic (if i = 0 then 0 else 2) 0" "sys_inv s 0 + sys_inv s 1 = 0"
    using assms(1) by (simp_all add: padded_def)
  obtain s1 where s1: "MesiSystem_write (int 0) a0 v0 s = Inr s1" "sys_ok s1" "validate_core s1 = validate_core s"
      "line_owner s1 (line_of a0) (Some 0)" "line_owner s1 (line_of a1) (if i = 0 then None else Some 1)"
      "sys_traffic s1 = rdx_traffic (if i = 0 then 1 else 2) 0" "sys_inv s1 0 + sys_inv s1 1 = 0"
  proof (rule write_ownedE [OF c(1,2,4), of v0])
    fix s1
    assume s1: "MesiSystem_write (int 0) a0 v0 s = Inr s1" "sys_ok s1" "validate_core s1 = validate_core s"
      "line_owner s1 (line_of a0) (Some 0)" "\<And>l k'. l \<noteq> line_of a0 \<Longrightarrow> line_owner s l k' \<Longrightarrow> line_owner s1 l k'"
      "sys_traffic s1 = (if (if i = 0 then None else Some 0) = Some (0 :: nat) then sys_traffic s
        else add_rdx (add_wb (of_bool ((if i = 0 then None else Some 0) \<noteq> (None :: nat option))) (sys_traffic s)))"
      "\<And>j. validate_core s (int j) \<Longrightarrow>
         sys_inv s1 j = sys_inv s j + of_bool (j \<noteq> 0 \<and> (if i = 0 then None else Some 0) = Some j)"
    have "sys_traffic s1 = rdx_traffic (if i = 0 then 1 else 2) 0"
      using s1(6) c(6) by (cases i) (simp_all add: rdx_traffic_add)
    moreover have "sys_inv s1 0 + sys_inv s1 1 = 0"
      using s1(7) [OF c(2)] s1(7) [OF c(3)] c(7) by (cases i) simp_all
    ultimately show thesis using that s1(1-4) s1(5) [OF assms(2) c(5)] by simp
  qed
  have v1: "validate_core s1 (int 0)" "validate_core s1 (int 1)" using c(2,3) s1(3) by simp_all
  show ?thesis
  proof (rule write_ownedE [OF s1(2) v1(2) s1(5), of v1])
    fix s2
    assume s2: "MesiSystem_write (int 1) a1 v1 s1 = Inr s2" "sys_ok s2" "validate_core s2 = validate_core s1"
      "line_owner s2 (line_of a1) (Some 1)" "\<And>l k'. l \<noteq> line_of a1 \<Longrightarrow> line_owner s1 l k' \<Longrightarrow> line_owner s2 l k'"
      "sys_traffic s2 = (if (if i = 0 then None else Some 1) = Some (1 :: nat) then sys_traffic s1
        else add_rdx (add_wb (of_bool ((if i = 0 then None else Some 1) \<noteq> (None :: nat option))) (sys_traffic s1)))"
      "\<And>j. validate_core s1 (int j) \<Longrightarrow>
         sys_inv s2 j = sys_inv s1 j + of_bool (j \<noteq> 1 \<and> (if i = 0 then None else Some 1) = Some j)"
    have "sys_traffic s2 = rdx_traffic 2 0"
      using s2(6) s1(6) by (cases i) (simp_all add: rdx_traffic_add numeral_2_eq_2)
    moreover have "sys_inv s2 0 + sys_inv s2 1 = 0"
      using s2(7) [OF v1(1)] s2(7) [OF v1(2)] s1(7) by (cases i) simp_all
    ultimately show ?thesis
      using s1(1,3) s2(1-4) s2(5) [OF assms(2) [symmetric] s1(4)] c(2,3) by (simp add: padded_def)
  qed
qed

lemma padded_new:
  assumes "MesiSystem_new n = Inr s" and "2 \<le> n"
  shows "padded l0 l1 0 s"
  using MesiSystem_newD [OF assms(1)] new_owner [OF assms(1)] assms(2)
  by (simp add: padded_def validate_core_eq)

section \<open>Traffic of the workloads\<close>

lemma ping_pong_run:
  assumes "MesiSystem_new n = Inr s" and "2 \<le> n" and "iters \<le> 2 ^ 30"
  shows "\<exists>s'. ping_pong a iters s = Inr s' \<and> contended (line_of a) (nat iters) s'"
  unfolding ping_pong_def
proof (rule for_each_upt [where P = "contended (line_of a)", OF contended_new [OF assms(1,2)]])
  fix i s assume i: "i < nat iters" and c: "contended (line_of a) i s"
  then have "int_mul 2 (int i) = Inr (2 * int i)" "int_add (2 * int i) 1 = Inr (2 * int i + 1)"
    using assms(3) by (simp_all add: int_mul_index int_arith_defs)
  with contended_round [OF c refl, of "of_int (2 * int i)" "of_int (2 * int i + 1)"]
  show "\<exists>s'. sbind (int_mul 2 (int i)) (\<lambda>x. sbind (MesiSystem_write 0 a (of_int x) s) (\<lambda>s.
      sbind (int_mul 2 (int i)) (\<lambda>x. sbind (int_add x 1) (\<lambda>y. MesiSystem_write 1 a (of_int y) s)))) = Inr s'
    \<and> contended (line_of a) (Suc i) s'" by simp
qed

text \<open>The round after them computes \<^verbatim>\<open>2 * i\<close> with \<^verbatim>\<open>i\<close> equal to \<open>2 ^ 30\<close>.\<close>

lemma ping_pong_overflow:
  assumes "MesiSystem_new n = Inr s" and "2 \<le> n" and "2 ^ 30 < iters"
  shows "ping_pong a iters s = Inl Signed_Overflow"
proof -
  obtain k :: nat where k: "int k = 2 ^ 30" by (metis nat_0_le zero_le_numeral zero_le_power)
  obtain s' where "ping_pong a (int k) s = Inr s'" using ping_pong_run [OF assms(1,2), of "int k" a] k by auto
  then have "for_each (\<lambda>i s. sbind (int_mul 2 (int i)) (\<lambda>x. sbind (MesiSystem_write 0 a (of_int x) s) (\<lambda>s.
      sbind (int_mul 2 (int i)) (\<lambda>x. sbind (int_add x 1) (\<lambda>y. MesiSystem_write 1 a (of_int y) s))))) [0..<k] s = Inr s'"
    by (simp add: ping_pong_def)
  moreover have "int_mul 2 (int k) = Inl Signed_Overflow" by (simp add: k int_arith_defs)
  moreover have "k < nat iters" using assms(3) k by linarith
  ultimately show ?thesis unfolding ping_pong_def by (intro for_each_breaks [of k]) simp_all
qed

lemma false_sharing_same_line:
  assumes "MesiSystem_new n = Inr s" and "2 \<le> n" and "line_of a1 = line_of a0"
  shows "\<exists>s'. false_sharing a0 a1 iters s = Inr s' \<and> contended (line_of a0) (nat iters) s'"
  unfolding false_sharing_def
  by (rule for_each_upt [where P = "contended (line_of a0)", OF contended_new [OF assms(1,2)]])
    (rule contended_round; simp add: assms(3))

lemma false_sharing_padded:
  assumes "MesiSystem_new n = Inr s" and "2 \<le> n" and "line_of a1 \<noteq> line_of a0"
  shows "\<exists>s'. false_sharing a0 a1 iters s = Inr s' \<and> padded (line_of a0) (line_of a1) (nat iters) s'"
  unfolding false_sharing_def
  by (rule for_each_upt [where P = "padded (line_of a0) (line_of a1)", OF padded_new [OF assms(1,2)]])
    (rule padded_round; simp add: assms(3))

section \<open>Reader storm\<close>

definition stormed :: "int \<Rightarrow> u32 \<Rightarrow> nat \<Rightarrow> MesiSystem \<Rightarrow> bool" where
  "stormed n l i s \<longleftrightarrow> sys_ok s \<and> n_cores s = n
     \<and> (\<forall>j. int j < n \<longrightarrow> sys_state s j l =
          (if j < i then (if i = 1 then State_E else State_S) else State_I))
     \<and> sys_traffic s = \<lparr>t_rd = of_nat i, t_rdx = 0, t_upgr = 0, t_wb = 0, t_busy = of_nat i\<rparr>"

lemma stormed_round:
  assumes "stormed n (line_of a) i s" and "i < nat n"
  shows "\<exists>s'. sbind (MesiSystem_read (int i) a s) (\<lambda>(_, s). Inr s) = Inr s' \<and> stormed n (line_of a) (Suc i) s'"
proof -
  let ?l = "line_of a"
  have ok: "sys_ok s" "n_cores s = n"
    and st: "\<And>j. int j < n \<Longrightarrow> sys_state s j ?l = (if j < i then (if i = 1 then State_E else State_S) else State_I)"
    and tr: "sys_traffic s = \<lparr>t_rd = of_nat i, t_rdx = 0, t_upgr = 0, t_wb = 0, t_busy = of_nat i\<rparr>"
    using assms(1) by (auto simp: stormed_def)
  have v: "validate_core s (int i)" using assms(2) ok by (simp add: validate_core_eq)
  have n: "int (bus_n_cores (s_bus s)) = n" using ok(2) by (simp add: n_cores_def)
  have d: "\<not> dirty_peer (s_bus s) i ?l"
    using st n by (force simp: dirty_peer_def sys_state_def split: if_splits)
  have o: "other_copy (s_bus s) i ?l \<longleftrightarrow> 0 < i"
  proof
    show "0 < i" if "other_copy (s_bus s) i ?l"
      using that st n by (force simp: other_copy_def sys_state_def split: if_splits)
    show "other_copy (s_bus s) i ?l" if "0 < i"
      using that st [of 0] n assms(2) unfolding other_copy_def sys_state_def
      by (intro exI [of _ 0]) (auto split: if_splits)
  qed
  obtain s' where s': "MesiSystem_read (int i) a s = Inr (sys_val s a, s')" "sys_ok s'"
    "validate_core s' = validate_core s"
    "sys_traffic s' = (if sys_state s i ?l \<noteq> State_I then sys_traffic s
         else add_rd (add_wb (of_bool (dirty_peer (s_bus s) i ?l)) (sys_traffic s)))"
    "\<And>j l. validate_core s (int j) \<Longrightarrow> sys_state s' j l =
        (if l \<noteq> ?l \<or> sys_state s i l \<noteq> State_I then sys_state s j l
         else if j = i then (if other_copy (s_bus s) i l then State_S else State_E)
         else if sys_state s j l = State_I then State_I else State_S)"
    using MesiSystem_read_effect [OF ok(1) v, of a] by auto
  have i: "sys_state s i ?l = State_I" using st [of i] assms(2) by simp
  have "sys_traffic s' = \<lparr>t_rd = of_nat (Suc i), t_rdx = 0, t_upgr = 0, t_wb = 0, t_busy = of_nat (Suc i)\<rparr>"
    using s'(4) i d by (simp add: tr add_rd_def add_wb_def)
  moreover have "sys_state s' j ?l = (if j < Suc i then (if Suc i = 1 then State_E else State_S) else State_I)"
    if "int j < n" for j
    using s'(5) [of j ?l] that st [OF that] o ok(2) i by (auto simp: validate_core_eq less_Suc_eq)
  ultimately show ?thesis
    using s'(1,2) n_cores_eqI [OF s'(3)] ok(2) by (simp add: stormed_def)
qed

lemma stormed_new: "MesiSystem_new n = Inr s \<Longrightarrow> stormed n l 0 s"
  using MesiSystem_newD [of n s] new_owner(1) [of n s l] new_owner(2) [of n s]
  by (simp add: stormed_def line_owner_def validate_core_eq rdx_traffic_def)

lemma stormed_register: "stormed n l i s \<Longrightarrow> stormed n l i (MesiSystem_register a s)"
  using exec_call_refines [of s "Call_register a"]
  by (auto simp: stormed_def MesiSystem_register_def sys_state_def sys_traffic_def frame_simps)

lemma reader_storm_run:
  assumes "stormed n (line_of a) 0 s"
  shows "\<exists>s'. reader_storm a s = Inr s' \<and> stormed n (line_of a) (nat n) s'"
proof -
  have "n_cores s = n" using assms by (simp add: stormed_def)
  with assms show ?thesis
    unfolding reader_storm_def
    by (simp add: for_each_upt [where P = "stormed n (line_of a)"] stormed_round)
qed

section \<open>Producer and consumer\<close>

lemma word_offset_eq:
  assumes "i < 2 ^ 30" and "j < 2 ^ 30"
  shows "b + 4 * of_nat i = b + 4 * (of_nat j :: u32) \<longleftrightarrow> i = j"
proof -
  have u: "unat (4 * of_nat k :: u32) = 4 * k" if "k < 2 ^ 30" for k
    using that by (simp add: unat_word_ariths unat_of_nat take_bit_nat_eq_self)
  have "4 * of_nat i = (4 * of_nat j :: u32) \<Longrightarrow> i = j"
    using u [OF assms(1)] u [OF assms(2)] by (metis mult_left_cancel zero_neq_numeral)
  then show ?thesis by auto
qed

definition produced :: "u32 \<Rightarrow> nat \<Rightarrow> MesiSystem \<Rightarrow> bool" where
  "produced base i s \<longleftrightarrow> sys_ok s \<and> validate_core s 0 \<and> validate_core s 1
     \<and> (\<forall>k < i. sys_val s (base + 4 * of_nat k) = 0xC0DE0000 + of_nat k)"

lemma produced_round:
  assumes "produced base i s" and "i < 2 ^ 29"
  shows "\<exists>s'. MesiSystem_write 0 (base + 4 * of_nat i) (0xC0DE0000 + of_nat i) s = Inr s' \<and> produced base (Suc i) s'"
proof -
  have c: "sys_ok s" "validate_core s 0" "validate_core s 1"
    "\<And>k. k < i \<Longrightarrow> sys_val s (base + 4 * of_nat k) = 0xC0DE0000 + of_nat k"
    using assms(1) by (simp_all add: produced_def)
  obtain s' where s': "MesiSystem_write 0 (base + 4 * of_nat i) (0xC0DE0000 + of_nat i) s = Inr s'" "sys_ok s'"
    "sys_val s' = (sys_val s)(base + 4 * of_nat i := 0xC0DE0000 + of_nat i)" "validate_core s' = validate_core s"
    using MesiSystem_write_ok [OF c(1,2)] by blast
  have "sys_val s' (base + 4 * of_nat k) = 0xC0DE0000 + of_nat k" if "k < Suc i" for k
    using that s'(3) c(4) [of k] word_offset_eq [of k i base] assms(2) by (auto simp: less_Suc_eq)
  with s' c show ?thesis by (simp add: produced_def)
qed

definition consumed :: "u32 \<Rightarrow> nat \<Rightarrow> nat \<Rightarrow> u32 list \<times> MesiSystem \<Rightarrow> bool" where
  "consumed base w i os \<longleftrightarrow> produced base w (snd os) \<and> fst os = map (\<lambda>k. 0xC0DE0000 + of_nat k) [0..<i]"

lemma consumed_round:
  assumes "consumed base w i os" and "i < w"
  shows "\<exists>os'. (\<lambda>(out, s). sbind (MesiSystem_read 1 (base + 4 * of_nat i) s) (\<lambda>(v, s). Inr (out @ [v], s))) os
      = Inr os' \<and> consumed base w (Suc i) os'"
proof -
  obtain out s where os: "os = (out, s)" by (cases os)
  have c: "sys_ok s" "validate_core s 1" using assms(1) by (simp_all add: consumed_def produced_def os)
  from MesiSystem_read_ok [OF c, of "base + 4 * of_nat i"] assms show ?thesis
    by (auto simp: consumed_def produced_def os)
qed

lemma producer_consumer_run:
  assumes "sys_ok s" and "2 \<le> n_cores s" and "nat words \<le> 2 ^ 29"
    and "\<forall>k < nat words. flag_addr \<noteq> buf_base + 4 * of_nat k"
  shows "\<exists>s'. producer_consumer buf_base words flag_addr s
     = Inr (map (\<lambda>k. 0xC0DE0000 + of_nat k) [0..<nat words], s') \<and> produced buf_base (nat words) s'"
proof -
  let ?w = "nat words"
  have "produced buf_base 0 s" using assms(1,2) by (simp add: produced_def validate_core_eq)
  then have "\<exists>s'. for_each (\<lambda>i s. MesiSystem_write 0 (buf_base + 4 * of_nat i) (0xC0DE0000 + of_nat i) s)
      [0..<?w] s = Inr s' \<and> produced buf_base ?w s'"
    by (rule for_each_upt [where P = "produced buf_base"]) (rule produced_round; use assms(3) in simp)
  then obtain s1 where s1: "for_each (\<lambda>i s. MesiSystem_write 0 (buf_base + 4 * of_nat i) (0xC0DE0000 + of_nat i) s)
      [0..<?w] s = Inr s1" "produced buf_base ?w s1" by blast
  then obtain s2 where s2: "MesiSystem_write 0 flag_addr 1 s1 = Inr s2" "sys_ok s2"
    "sys_val s2 = (sys_val s1)(flag_addr := 1)" "validate_core s2 = validate_core s1"
    using MesiSystem_write_ok [of s1 0 flag_addr 1] by (auto simp: produced_def)
  have p2: "produced buf_base ?w s2" using s1(2) s2 assms(4) by (auto simp: produced_def)
  then obtain s3 where s3: "MesiSystem_read 1 flag_addr s2 = Inr (sys_val s2 flag_addr, s3)" "sys_ok s3"
    "sys_val s3 = sys_val s2" "validate_core s3 = validate_core s2"
    using MesiSystem_read_ok [of s2 1 flag_addr] by (auto simp: produced_def)
  have "consumed buf_base ?w 0 ([], s3)" using p2 s3 by (simp add: consumed_def produced_def)
  then have "\<exists>os. for_each (\<lambda>i (out, s). sbind (MesiSystem_read 1 (buf_base + 4 * of_nat i) s)
      (\<lambda>(v, s). Inr (out @ [v], s))) [0..<?w] ([], s3) = Inr os \<and> consumed buf_base ?w ?w os"
    by (rule for_each_upt [where P = "consumed buf_base ?w"]) (rule consumed_round)
  then obtain out s' where s4: "for_each (\<lambda>i (out, s). sbind (MesiSystem_read 1 (buf_base + 4 * of_nat i) s)
      (\<lambda>(v, s). Inr (out @ [v], s))) [0..<?w] ([], s3) = Inr (out, s')" "consumed buf_base ?w ?w (out, s')" by auto
  have k: "int_mul 4 (int i) = Inr (4 * int i)" if "i \<in> set [0..<?w]" for i
    using that assms(3) by (intro int_mul_index) auto
  have "for_each (\<lambda>i s. sbind (int_mul 4 (int i)) (\<lambda>k. MesiSystem_write 0 (buf_base + of_int k) (0xC0DE0000 + of_nat i) s))
      [0..<?w] s = Inr s1"
    unfolding s1(1) [symmetric] by (rule for_each_cong) (simp add: k)
  moreover have "for_each (\<lambda>i (out, s). sbind (int_mul 4 (int i)) (\<lambda>k. sbind (MesiSystem_read 1 (buf_base + of_int k) s)
      (\<lambda>(v, s). Inr (out @ [v], s)))) [0..<?w] ([], s3) = Inr (out, s')"
    unfolding s4(1) [symmetric] by (rule for_each_cong) (simp add: k)
  ultimately show ?thesis using s2(1) s3(1) s4(2) by (simp add: producer_consumer_def consumed_def)
qed

end
