(* ===== verification/Store_Buffer.thy ===== *)
theory Store_Buffer
  imports Mesi_System
begin

text \<open>
  The store buffer of \<^verbatim>\<open>model/tso.hpp\<close>. A member \<^verbatim>\<open>x_\<close> is the field \<open>sb_x\<close>; the pointer \<^verbatim>\<open>sys_\<close>
  is the system state every method takes and returns. A buffer is used by its owning core only, and
  each of its accesses to the system holds the mutex of the system; between them other cores may run,
  which \<open>Tso_Machine\<close> models as steps.

  The engine \<^verbatim>\<open>std::mt19937_64 rng_\<close> is the sequence of the numbers it will draw. A write of a buffer
  whose core id is valid does not throw, so \<open>Inl\<close> never leaves \<open>drain_one\<close> or \<open>mfence\<close>: the constructor
  checks the core id.
\<close>

section \<open>The class StoreBuffer\<close>

datatype DrainMode = FIFO | RELAXED

record SBEntry =
  e_addr :: u32
  e_val :: u32

record StoreBuffer =
  sb_core :: int
  sb_depth :: int
  sb_mode :: DrainMode
  sb_rng :: "nat \<Rightarrow> u64"
  sb_buf :: "SBEntry list"
  sb_hits :: u64
  sb_drained :: u64

definition StoreBuffer_new ::
    "MesiSystem option \<Rightarrow> int \<Rightarrow> int \<Rightarrow> DrainMode \<Rightarrow> (nat \<Rightarrow> u64) \<Rightarrow> exn + StoreBuffer" where
  "StoreBuffer_new sys core depth mode rng =
     (case sys of
        None \<Rightarrow> Inl (Invalid_Argument ''StoreBuffer needs a MESI system'')
      | Some s \<Rightarrow>
          if core < 0 \<or> core \<ge> n_cores s then Inl (Out_Of_Range ''store-buffer core id is invalid'')
          else if depth \<le> 0 then Inl (Invalid_Argument ''store-buffer depth must be positive'')
          else Inr \<lparr>sb_core = core, sb_depth = depth, sb_mode = mode, sb_rng = rng, sb_buf = [],
                    sb_hits = 0, sb_drained = 0\<rparr>)"

definition sb_size :: "StoreBuffer \<Rightarrow> nat" where
  "sb_size sb = length (sb_buf sb)"

definition sb_empty :: "StoreBuffer \<Rightarrow> bool" where
  "sb_empty sb \<longleftrightarrow> sb_buf sb = []"

text \<open>\<^verbatim>\<open>(int)buf_.size()\<close>: the size narrowed to a 32-bit signed integer.\<close>

definition int_of_size :: "nat \<Rightarrow> int" where
  "int_of_size n = sint (of_nat n :: 32 word)"

text \<open>The index of the entry to drain, and the engine after the draw, if there is one.\<close>

definition drain_index :: "StoreBuffer \<Rightarrow> nat \<times> StoreBuffer" where
  "drain_index sb =
     (if sb_mode sb = RELAXED \<and> sb_size sb > 1
      then (unat (sb_rng sb 0) mod sb_size sb, sb\<lparr>sb_rng := \<lambda>k. sb_rng sb (Suc k)\<rparr>)
      else (0, sb))"

definition erase_at :: "nat \<Rightarrow> 'a list \<Rightarrow> 'a list" where
  "erase_at i xs = take i xs @ drop (Suc i) xs"

definition drain_one :: "StoreBuffer \<Rightarrow> MesiSystem \<Rightarrow> exn + (StoreBuffer \<times> MesiSystem)" where
  "drain_one sb s =
     (if sb_empty sb then Inr (sb, s)
      else
        let (idx, sb) = drain_index sb;
            e = sb_buf sb ! idx;
            sb = sb\<lparr>sb_buf := erase_at idx (sb_buf sb)\<rparr>
        in case MesiSystem_write (sb_core sb) (e_addr e) (e_val e) s of
             Inl x \<Rightarrow> Inl x
           | Inr s \<Rightarrow> Inr (sb\<lparr>sb_drained := sb_drained sb + 1\<rparr>, s))"

definition StoreBuffer_store ::
    "u32 \<Rightarrow> u32 \<Rightarrow> StoreBuffer \<Rightarrow> MesiSystem \<Rightarrow> exn + (StoreBuffer \<times> MesiSystem)" where
  "StoreBuffer_store addr val sb s =
     (let sb = sb\<lparr>sb_buf := sb_buf sb @ [\<lparr>e_addr = addr, e_val = val\<rparr>]\<rparr>
      in if int_of_size (sb_size sb) > sb_depth sb then drain_one sb s else Inr (sb, s))"

text \<open>The scan from the newest entry to the oldest.\<close>

fun scan :: "u32 \<Rightarrow> SBEntry list \<Rightarrow> u32 option" where
  "scan addr [] = None"
| "scan addr (e # es) = (if e_addr e = addr then Some (e_val e) else scan addr es)"

definition StoreBuffer_load ::
    "u32 \<Rightarrow> StoreBuffer \<Rightarrow> MesiSystem \<Rightarrow> exn + (u32 \<times> StoreBuffer \<times> MesiSystem)" where
  "StoreBuffer_load addr sb s =
     (case scan addr (rev (sb_buf sb)) of
        Some v \<Rightarrow> Inr (v, sb\<lparr>sb_hits := sb_hits sb + 1\<rparr>, s)
      | None \<Rightarrow>
          (case MesiSystem_read (sb_core sb) addr s of
             Inl x \<Rightarrow> Inl x
           | Inr (v, s) \<Rightarrow> Inr (v, sb, s)))"

definition count_drain :: "int \<Rightarrow> MesiSystem \<Rightarrow> MesiSystem" where
  "count_drain core s = s\<lparr>s_bus := on_perf
     (\<lambda>p. p\<lparr>sb_drain_cycles := inc_at (nat core) (sb_drain_cycles p)\<rparr>) (s_bus s)\<rparr>"

text \<open>The body of the loop of \<^verbatim>\<open>mfence\<close>.\<close>

definition mfence_iter :: "StoreBuffer \<Rightarrow> MesiSystem \<Rightarrow> exn + (StoreBuffer \<times> MesiSystem)" where
  "mfence_iter sb s =
     (let e = hd (sb_buf sb);
          sb = sb\<lparr>sb_buf := tl (sb_buf sb)\<rparr>
      in case MesiSystem_write (sb_core sb) (e_addr e) (e_val e) s of
           Inl x \<Rightarrow> Inl x
         | Inr s \<Rightarrow>
             Inr (sb\<lparr>sb_drained := sb_drained sb + 1\<rparr>, count_drain (sb_core sb) s))"

lemma mfence_iter_shrinks: "mfence_iter sb s = Inr (sb', s') \<Longrightarrow> sb_buf sb' = tl (sb_buf sb)"
  by (auto simp: mfence_iter_def Let_def split: sum.splits)

function mfence :: "StoreBuffer \<Rightarrow> MesiSystem \<Rightarrow> exn + (StoreBuffer \<times> MesiSystem)" where
  "mfence sb s =
     (if sb_empty sb then Inr (sb, s)
      else
        case mfence_iter sb s of
          Inl x \<Rightarrow> Inl x
        | Inr (sb', s') \<Rightarrow> mfence sb' s')"
  by pat_completeness auto
termination
  by (relation "measure (\<lambda>(sb, s). length (sb_buf sb))")
    (auto simp: sb_empty_def dest!: mfence_iter_shrinks)

declare mfence.simps [simp del]

lemma length_erase_at: "i < length xs \<Longrightarrow> length (erase_at i xs) = length xs - 1"
  by (simp add: erase_at_def)

lemma drain_index_less: "sb_buf sb \<noteq> [] \<Longrightarrow> fst (drain_index sb) < length (sb_buf sb)"
  by (auto simp: drain_index_def sb_size_def)

lemma drain_index_frame [simp]:
  "sb_buf (snd (drain_index sb)) = sb_buf sb" "sb_core (snd (drain_index sb)) = sb_core sb"
  "sb_depth (snd (drain_index sb)) = sb_depth sb" "sb_mode (snd (drain_index sb)) = sb_mode sb"
  "sb_drained (snd (drain_index sb)) = sb_drained sb" "sb_hits (snd (drain_index sb)) = sb_hits sb"
  by (simp_all add: drain_index_def)

lemma drain_one_shrinks:
  assumes "drain_one sb s = Inr (sb', s')"
  shows "length (sb_buf sb') = length (sb_buf sb) - 1"
  using assms drain_index_less [of sb]
  by (auto simp: drain_one_def sb_empty_def case_prod_beta Let_def length_erase_at split: sum.splits if_splits)

function drain_all :: "StoreBuffer \<Rightarrow> MesiSystem \<Rightarrow> exn + (StoreBuffer \<times> MesiSystem)" where
  "drain_all sb s =
     (if sb_empty sb then Inr (sb, s)
      else
        case drain_one sb s of
          Inl x \<Rightarrow> Inl x
        | Inr (sb', s') \<Rightarrow> drain_all sb' s')"
  by pat_completeness auto
termination
  by (relation "measure (\<lambda>(sb, s). length (sb_buf sb))")
    (auto simp: sb_empty_def dest!: drain_one_shrinks)

declare drain_all.simps [simp del]

lemmas [exec_simps] = StoreBuffer_new_def sb_size_def sb_empty_def int_of_size_def drain_index_def
  erase_at_def drain_one_def StoreBuffer_store_def StoreBuffer_load_def count_drain_def mfence_iter_def
  mfence.simps   drain_all.simps

section \<open>TSODut\<close>

text \<open>The per-core handle: the buffer and the system it points to. Its member \<^verbatim>\<open>core\<close> is not used.\<close>

type_synonym TSODut = "StoreBuffer \<times> MesiSystem"

definition TSODut_store :: "u32 \<Rightarrow> u32 \<Rightarrow> TSODut \<Rightarrow> exn + TSODut" where
  "TSODut_store addr val d = (case d of (sb, s) \<Rightarrow> StoreBuffer_store addr val sb s)"

definition TSODut_load :: "u32 \<Rightarrow> TSODut \<Rightarrow> exn + (u32 \<times> TSODut)" where
  "TSODut_load addr d = (case d of (sb, s) \<Rightarrow> StoreBuffer_load addr sb s)"

definition TSODut_mfence :: "TSODut \<Rightarrow> exn + TSODut" where
  "TSODut_mfence d = (case d of (sb, s) \<Rightarrow> mfence sb s)"

lemmas [exec_simps] = TSODut_store_def TSODut_load_def TSODut_mfence_def

section \<open>Buffered stores as a function on memories\<close>

definition apply_stores :: "SBEntry list \<Rightarrow> (u32 \<Rightarrow> u32) \<Rightarrow> u32 \<Rightarrow> u32" where
  "apply_stores es m = fold (\<lambda>e m. m(e_addr e := e_val e)) es m"

lemma apply_stores_simps [simp]:
  "apply_stores [] m = m"
  "apply_stores (e # es) m = apply_stores es (m(e_addr e := e_val e))"
  "apply_stores (es @ [e]) m = (apply_stores es m)(e_addr e := e_val e)"
  by (simp_all add: apply_stores_def)

lemma apply_stores_append: "apply_stores (xs @ ys) m = apply_stores ys (apply_stores xs m)"
  by (simp add: apply_stores_def)

text \<open>The scan finds what applying the stores would leave at the address.\<close>

lemma apply_stores_scan:
  "apply_stores es m a = (case scan a (rev es) of None \<Rightarrow> m a | Some v \<Rightarrow> v)"
  by (induction es rule: rev_induct) auto

text \<open>What the owner sees: the memory with its own buffered stores applied, in order.\<close>

definition owner_view :: "TSODut \<Rightarrow> u32 \<Rightarrow> u32" where
  "owner_view d = apply_stores (sb_buf (fst d)) (sys_val (snd d))"

definition sb_ok :: "TSODut \<Rightarrow> bool" where
  "sb_ok d \<longleftrightarrow> sys_ok (snd d) \<and> validate_core (snd d) (sb_core (fst d))"

lemma count_drain_ok [simp]:
  "sys_ok s \<Longrightarrow> sys_ok (count_drain c s)" "sys_val (count_drain c s) = sys_val s"
  "validate_core (count_drain c s) = validate_core s"
  by (auto simp: count_drain_def sys_ok_def sys_val_def validate_core_nat frame_simps coherent_on_perf fun_eq_iff)

section \<open>Effects of the operations\<close>

lemma int_of_size: "n < 2 ^ 31 \<Longrightarrow> int_of_size n = int n"
  by (simp add: int_of_size_def sint_uint unsigned_of_nat take_bit_nat_eq_self signed_take_bit_int_eq_self)

text \<open>The write of a drained entry.\<close>

definition put_entry :: "int \<Rightarrow> SBEntry \<Rightarrow> MesiSystem \<Rightarrow> exn + MesiSystem" where
  "put_entry c e s = MesiSystem_write c (e_addr e) (e_val e) s"

lemma drain_one_ok:
  assumes "sb_ok (sb, s)" and "sb_buf sb \<noteq> []"
  shows "\<exists>sb' s' i. drain_one sb s = Inr (sb', s') \<and> sb_ok (sb', s') \<and> i < length (sb_buf sb)
    \<and> sb_buf sb' = erase_at i (sb_buf sb)
    \<and> put_entry (sb_core sb) (sb_buf sb ! i) s = Inr s'
    \<and> sys_val s' = (sys_val s)(e_addr (sb_buf sb ! i) := e_val (sb_buf sb ! i))
    \<and> (sb_mode sb = FIFO \<longrightarrow> i = 0)
    \<and> sb_core sb' = sb_core sb \<and> sb_depth sb' = sb_depth sb \<and> sb_mode sb' = sb_mode sb
    \<and> sb_hits sb' = sb_hits sb \<and> sb_drained sb' = sb_drained sb + 1
    \<and> validate_core s' = validate_core s"
proof -
  let ?i = "fst (drain_index sb)" let ?e = "sb_buf sb ! ?i"
  have v: "sys_ok s" "validate_core s (sb_core sb)" using assms(1) by (simp_all add: sb_ok_def)
  obtain s' where s': "MesiSystem_write (sb_core sb) (e_addr ?e) (e_val ?e) s = Inr s'" "sys_ok s'"
    "sys_val s' = (sys_val s)(e_addr ?e := e_val ?e)" "validate_core s' = validate_core s"
    using MesiSystem_write_ok [OF v] by blast
  have "sb_mode sb = FIFO \<longrightarrow> ?i = 0" by (simp add: drain_index_def)
  with s' v assms(2) drain_index_less [OF assms(2)] show ?thesis
    by (simp add: drain_one_def sb_empty_def case_prod_beta Let_def sb_ok_def put_entry_def) blast
qed

lemma drain_one_fifo:
  assumes "sb_ok (sb, s)" and "sb_mode sb = FIFO" and "sb_buf sb = e # es"
  shows "\<exists>s'. drain_one sb s = Inr (sb\<lparr>sb_buf := es, sb_drained := sb_drained sb + 1\<rparr>, s')
    \<and> sys_ok s' \<and> sys_val s' = (sys_val s)(e_addr e := e_val e) \<and> validate_core s' = validate_core s"
proof -
  have v: "sys_ok s" "validate_core s (sb_core sb)" using assms(1) by (simp_all add: sb_ok_def)
  from MesiSystem_write_ok [OF v, of "e_addr e" "e_val e"] assms(2,3) show ?thesis
    by (auto simp: drain_one_def sb_empty_def drain_index_def erase_at_def)
qed

lemma StoreBuffer_load_ok:
  assumes "sb_ok (sb, s)"
  shows "\<exists>s'. StoreBuffer_load a sb s = Inr (owner_view (sb, s) a,
      if scan a (rev (sb_buf sb)) = None then sb else sb\<lparr>sb_hits := sb_hits sb + 1\<rparr>, s')
    \<and> sys_ok s' \<and> sys_val s' = sys_val s \<and> validate_core s' = validate_core s"
proof -
  have v: "sys_ok s" "validate_core s (sb_core sb)" using assms by (simp_all add: sb_ok_def)
  show ?thesis
  proof (cases "scan a (rev (sb_buf sb))")
    case None
    with MesiSystem_read_ok [OF v, of a] show ?thesis
      by (auto simp: StoreBuffer_load_def owner_view_def apply_stores_scan)
  next
    case (Some x)
    with v show ?thesis by (auto simp: StoreBuffer_load_def owner_view_def apply_stores_scan)
  qed
qed

lemma mfence_iter_ok:
  assumes "sb_ok (sb, s)" and "sb_buf sb = e # es"
  shows "\<exists>s'. mfence_iter sb s = Inr (sb\<lparr>sb_buf := es, sb_drained := sb_drained sb + 1\<rparr>, s')
    \<and> sys_ok s' \<and> sys_val s' = (sys_val s)(e_addr e := e_val e) \<and> validate_core s' = validate_core s"
proof -
  have v: "sys_ok s" "validate_core s (sb_core sb)" using assms(1) by (simp_all add: sb_ok_def)
  from MesiSystem_write_ok [OF v, of "e_addr e" "e_val e"] assms(2) show ?thesis
    by (auto simp: mfence_iter_def)
qed

lemma mfence_ok:
  assumes "sb_ok (sb, s)"
  shows "\<exists>s'. mfence sb s =
      Inr (sb\<lparr>sb_buf := [], sb_drained := sb_drained sb + of_nat (length (sb_buf sb))\<rparr>, s')
    \<and> sys_ok s' \<and> sys_val s' = owner_view (sb, s) \<and> validate_core s' = validate_core s"
  using assms
proof (induction "sb_buf sb" arbitrary: sb s)
  case Nil
  then show ?case by (auto simp: mfence.simps [of sb] owner_view_def sb_ok_def sb_empty_def)
next
  case (Cons e es)
  let ?sb = "sb\<lparr>sb_buf := es, sb_drained := sb_drained sb + 1\<rparr>"
  obtain s1 where s1: "mfence_iter sb s = Inr (?sb, s1)" "sys_ok s1"
    "sys_val s1 = (sys_val s)(e_addr e := e_val e)" "validate_core s1 = validate_core s"
    using mfence_iter_ok [OF Cons.prems Cons.hyps(2) [symmetric]] by blast
  have "sb_ok (?sb, s1)" using s1 Cons.prems by (simp add: sb_ok_def)
  from Cons.hyps(1) [OF _ this] obtain s2 where "mfence ?sb s1 =
      Inr (sb\<lparr>sb_buf := [], sb_drained := sb_drained sb + 1 + of_nat (length es)\<rparr>, s2)"
    "sys_ok s2" "sys_val s2 = owner_view (?sb, s1)" "validate_core s2 = validate_core s1"
    by auto
  with s1 Cons.hyps(2) [symmetric] show ?case
    by (simp add: mfence.simps [of sb] owner_view_def add.assoc sb_empty_def)
qed

section \<open>Draining everything\<close>

lemma mset_erase_at: "i < length xs \<Longrightarrow> mset xs = add_mset (xs ! i) (mset (erase_at i xs))"
  by (subst id_take_nth_drop [of i xs]) (simp_all add: erase_at_def)

text \<open>In any mode the drain ends, empties the buffer and performs every store once.\<close>

lemma drain_all_ok:
  assumes "sb_ok (sb, s)"
  shows "\<exists>sb' s' es. drain_all sb s = Inr (sb', s') \<and> sb_ok (sb', s') \<and> sb_buf sb' = [] \<and> sb_depth sb' = sb_depth sb
    \<and> sb_drained sb' = sb_drained sb + of_nat (length (sb_buf sb))
    \<and> mset es = mset (sb_buf sb) \<and> for_each (put_entry (sb_core sb)) es s = Inr s'
    \<and> sys_val s' = apply_stores es (sys_val s) \<and> (sb_mode sb = FIFO \<longrightarrow> es = sb_buf sb)
    \<and> sb_core sb' = sb_core sb \<and> sb_mode sb' = sb_mode sb"
  using assms
proof (induction "length (sb_buf sb)" arbitrary: sb s)
  case 0
  then show ?case by (auto simp: drain_all.simps [of sb] sb_empty_def)
next
  case (Suc n)
  then have ne: "sb_buf sb \<noteq> []" by auto
  obtain sb1 s1 i where one: "drain_one sb s = Inr (sb1, s1)" "sb_ok (sb1, s1)" "i < length (sb_buf sb)"
    "sb_buf sb1 = erase_at i (sb_buf sb)"
    "sys_val s1 = (sys_val s)(e_addr (sb_buf sb ! i) := e_val (sb_buf sb ! i))"
    "sb_mode sb = FIFO \<longrightarrow> i = 0" "sb_mode sb1 = sb_mode sb" "sb_drained sb1 = sb_drained sb + 1"
    "sb_depth sb1 = sb_depth sb" "put_entry (sb_core sb) (sb_buf sb ! i) s = Inr s1" "sb_core sb1 = sb_core sb"
    using drain_one_ok [OF Suc.prems ne] by blast
  have n: "length (sb_buf sb1) = n" using one(3,4) Suc.hyps(2) by (simp add: length_erase_at)
  from Suc.hyps(1) [OF n [symmetric] one(2)] obtain sb2 s2 es where
    rest: "drain_all sb1 s1 = Inr (sb2, s2)" "sb_ok (sb2, s2)" "sb_buf sb2 = []"
    "sb_drained sb2 = sb_drained sb1 + of_nat n" "mset es = mset (sb_buf sb1)"
    "sys_val s2 = apply_stores es (sys_val s1)" "sb_mode sb1 = FIFO \<longrightarrow> es = sb_buf sb1" "sb_depth sb2 = sb_depth sb1"
    "for_each (put_entry (sb_core sb1)) es s1 = Inr s2" "sb_core sb2 = sb_core sb1" "sb_mode sb2 = sb_mode sb1"
    using n by blast
  let ?es = "sb_buf sb ! i # es"
  have "drain_all sb s = Inr (sb2, s2)" using one(1) rest(1) ne by (simp add: drain_all.simps [of sb] sb_empty_def)
  moreover have "sb_drained sb2 = sb_drained sb + of_nat (length (sb_buf sb))"
    using rest(4) one(8) by (simp flip: Suc.hyps(2))
  moreover have "mset ?es = mset (sb_buf sb)" using mset_erase_at [OF one(3)] rest(5) one(4) by simp
  moreover have "sys_val s2 = apply_stores ?es (sys_val s)" using rest(6) one(5) by simp
  moreover have "sb_mode sb = FIFO \<longrightarrow> ?es = sb_buf sb"
    using one(4,6,7) rest(7) ne by (cases "sb_buf sb") (auto simp: erase_at_def)
  moreover have "for_each (put_entry (sb_core sb)) ?es s = Inr s2" using one(10,11) rest(9) by simp
  moreover have "sb_depth sb2 = sb_depth sb" "sb_core sb2 = sb_core sb" "sb_mode sb2 = sb_mode sb"
    using rest(8,10,11) one(7,9,11) by simp_all
  ultimately show ?case using rest(2,3) by blast
qed

text \<open>Two entries in relaxed mode: the first draw alone decides the order of the writes.\<close>

lemma drain_one_relaxed:
  assumes "sb_ok (sb, s)" and "sb_buf sb = [e, f]" and "sb_mode sb = RELAXED"
  shows "\<exists>sb' s'. drain_one sb s = Inr (sb', s') \<and> sb_ok (sb', s')
    \<and> sb_buf sb' = (if odd (unat (sb_rng sb 0)) then [e] else [f])
    \<and> sys_val s' = (if odd (unat (sb_rng sb 0)) then (sys_val s)(e_addr f := e_val f) else (sys_val s)(e_addr e := e_val e))"
proof -
  let ?x = "if odd (unat (sb_rng sb 0)) then f else e"
  have v: "sys_ok s" "validate_core s (sb_core sb)" using assms(1) by (simp_all add: sb_ok_def)
  obtain s' where "MesiSystem_write (sb_core sb) (e_addr ?x) (e_val ?x) s = Inr s'" "sys_ok s'"
    "sys_val s' = (sys_val s)(e_addr ?x := e_val ?x)" "validate_core s' = validate_core s"
    using MesiSystem_write_ok [OF v] by blast
  moreover have "fst (drain_index sb) = (if odd (unat (sb_rng sb 0)) then 1 else 0)"
    using assms(2,3) mod_2_eq_odd [of "unat (sb_rng sb 0)"] by (simp add: drain_index_def sb_size_def numeral_2_eq_2)
  ultimately show ?thesis using v assms(2)
    by (cases "odd (unat (sb_rng sb 0))") (simp_all add: drain_one_def sb_empty_def case_prod_beta Let_def erase_at_def sb_ok_def)
qed

lemma drain_all_relaxed:
  assumes "sb_ok (sb, s)" and "sb_buf sb = [e, f]" and "sb_mode sb = RELAXED"
  shows "\<exists>sb' s'. drain_all sb s = Inr (sb', s') \<and> sb_ok (sb', s') \<and> sb_buf sb' = []
    \<and> sys_val s' = apply_stores (if odd (unat (sb_rng sb 0)) then [f, e] else [e, f]) (sys_val s)"
proof -
  obtain sb1 s1 where one: "drain_one sb s = Inr (sb1, s1)" "sb_ok (sb1, s1)"
    "sb_buf sb1 = (if odd (unat (sb_rng sb 0)) then [e] else [f])"
    "sys_val s1 = (if odd (unat (sb_rng sb 0)) then (sys_val s)(e_addr f := e_val f) else (sys_val s)(e_addr e := e_val e))"
    using drain_one_relaxed [OF assms] by blast
  obtain sb2 s2 es where "drain_all sb1 s1 = Inr (sb2, s2)" "sb_ok (sb2, s2)" "sb_buf sb2 = []"
    and es: "mset es = mset (sb_buf sb1)" and "sys_val s2 = apply_stores es (sys_val s1)" using drain_all_ok [OF one(2)] by blast
  moreover have "es = sb_buf sb1" using es one(3) by (auto split: if_splits)
  moreover have "drain_all sb s = drain_all sb1 s1" using one(1) assms(2) by (simp add: drain_all.simps [of sb] sb_empty_def)
  ultimately show ?thesis using one(3,4) by (auto split: if_splits)
qed

lemma drain_all_pair:
  assumes "sb_ok (sb, s)" and "sb_buf sb = [\<lparr>e_addr = a, e_val = v\<rparr>, \<lparr>e_addr = a, e_val = w\<rparr>]"
  shows "\<exists>sb' s'. drain_all sb s = Inr (sb', s') \<and> sb_ok (sb', s') \<and> sb_buf sb' = []
    \<and> sys_val s' a = (if sb_mode sb = RELAXED \<and> odd (unat (sb_rng sb 0)) then v else w)"
proof (cases "sb_mode sb")
  case FIFO
  with drain_all_ok [OF assms(1)] assms(2) show ?thesis by fastforce
next
  case RELAXED
  with drain_all_relaxed [OF assms RELAXED] show ?thesis by fastforce
qed

text \<open>Stores to different addresses may reach the memory in any order.\<close>

lemma apply_stores_fresh:
  assumes "a \<notin> e_addr ` set es"
  shows "apply_stores es (m(a := v)) = (apply_stores es m)(a := v)"
  using assms
proof (induction es arbitrary: m)
  case (Cons e es)
  then have "m(a := v, e_addr e := e_val e) = m(e_addr e := e_val e, a := v)"
    by (intro fun_upd_twist) auto
  moreover have "apply_stores es (m(e_addr e := e_val e, a := v))
      = (apply_stores es (m(e_addr e := e_val e)))(a := v)"
    by (rule Cons.IH) (use Cons.prems in simp)
  ultimately show ?case by (simp only: apply_stores_simps)
qed simp

lemma apply_stores_perm:
  assumes "mset es = mset fs" and "distinct (map e_addr fs)"
  shows "apply_stores es m = apply_stores fs m"
  using assms
proof (induction es arbitrary: fs m)
  case (Cons e es)
  then have "e \<in> set fs" by (metis list.set_intros(1) mset_eq_setD)
  then obtain xs ys where fs: "fs = xs @ e # ys" by (meson split_list)
  with Cons.prems have es: "mset es = mset (xs @ ys)" "distinct (map e_addr (xs @ ys))" and
    e: "e_addr e \<notin> e_addr ` set xs" by auto
  have "apply_stores fs m = apply_stores ys (apply_stores xs (m(e_addr e := e_val e)))"
    using apply_stores_fresh [OF e] by (simp add: fs apply_stores_append)
  moreover have "apply_stores es (m(e_addr e := e_val e)) = apply_stores (xs @ ys) (m(e_addr e := e_val e))"
    by (rule Cons.IH [OF es])
  ultimately show ?case by (simp add: apply_stores_append)
qed simp

section \<open>The interface of a buffered memory\<close>

text \<open>
  What the owner of a buffer relies on: it sees its own stores at once and in order, whatever has
  reached the memory; a fence makes the memory agree with what it sees.
\<close>

locale buffered_memory =
  fixes inv :: "'d \<Rightarrow> bool"
    and view :: "'d \<Rightarrow> u32 \<Rightarrow> u32"
    and mem :: "'d \<Rightarrow> u32 \<Rightarrow> u32"
    and st :: "u32 \<Rightarrow> u32 \<Rightarrow> 'd \<Rightarrow> exn + 'd"
    and ld :: "u32 \<Rightarrow> 'd \<Rightarrow> exn + (u32 \<times> 'd)"
    and fence :: "'d \<Rightarrow> exn + 'd"
  assumes st_ok: "inv d \<Longrightarrow> \<exists>d'. st a v d = Inr d' \<and> inv d' \<and> view d' = (view d)(a := v)"
    and ld_ok: "inv d \<Longrightarrow> \<exists>d'. ld a d = Inr (view d a, d') \<and> inv d' \<and> view d' = view d \<and> mem d' = mem d"
    and fence_ok: "inv d \<Longrightarrow> \<exists>d'. fence d = Inr d' \<and> inv d' \<and> view d' = view d \<and> mem d' = view d"
begin

lemma st_all_ok:
  assumes "inv d"
  shows "\<exists>d'. for_each (\<lambda>(a, v). st a v) es d = Inr d' \<and> inv d' \<and> view d' = fold (\<lambda>(a, v). flat_write a v) es (view d)"
  using assms
proof (induction es arbitrary: d)
  case (Cons e es)
  obtain a v where e: "e = (a, v)" by (cases e)
  obtain d1 where "st a v d = Inr d1" "inv d1" "view d1 = (view d)(a := v)"
    using st_ok [OF Cons.prems] by blast
  with Cons.IH [of d1] show ?case by (auto simp: e flat_write_def)
qed simp

text \<open>Program order of the owner: a load after any stores returns the last of them to its address.\<close>

lemma ld_after_st_all:
  assumes "inv d" and "for_each (\<lambda>(a, v). st a v) es d = Inr d'" and "ld a d' = Inr (w, d'')"
  shows "w = (case map_of (rev es) a of None \<Rightarrow> view d a | Some v \<Rightarrow> v)"
proof -
  have d': "inv d'" "view d' = fold (\<lambda>(a, v). flat_write a v) es (view d)"
    using st_all_ok [OF assms(1), of es] assms(2) by auto
  with ld_ok [OF d'(1), of a] assms(3) flat.rd_fold_stores [of es "view d" a] show ?thesis by simp
qed

text \<open>After a fence everybody sees what the owner stored.\<close>

lemma fence_publishes:
  assumes "inv d" and "for_each (\<lambda>(a, v). st a v) es d = Inr d'" and "fence d' = Inr d''"
  shows "mem d'' a = (case map_of (rev es) a of None \<Rightarrow> view d a | Some v \<Rightarrow> v)"
proof -
  have d': "inv d'" "view d' = fold (\<lambda>(a, v). flat_write a v) es (view d)"
    using st_all_ok [OF assms(1), of es] assms(2) by auto
  with fence_ok [OF d'(1)] assms(3) flat.rd_fold_stores [of es "view d" a] show ?thesis by simp
qed

end

section \<open>A FIFO store buffer is a buffered memory\<close>

text \<open>The largest depth is excluded: with \<^verbatim>\<open>depth_ == INT_MAX\<close> the narrowed size never exceeds it.\<close>

definition fifo_ok :: "TSODut \<Rightarrow> bool" where
  "fifo_ok d \<longleftrightarrow> sb_ok d \<and> sb_mode (fst d) = FIFO \<and> int (sb_size (fst d)) \<le> sb_depth (fst d)
     \<and> sb_depth (fst d) < 2 ^ 31 - 1"

lemma overflow_iff:
  assumes "int (length xs) \<le> n" and "n < 2 ^ 31 - 1"
  shows "int_of_size (Suc (length xs)) > n \<longleftrightarrow> int (length xs) = n"
  using assms by (subst int_of_size) auto

lemma TSODut_store_fifo:
  assumes "fifo_ok d"
  shows "\<exists>d'. TSODut_store a v d = Inr d' \<and> fifo_ok d' \<and> owner_view d' = (owner_view d)(a := v)"
proof -
  obtain sb s where d: "d = (sb, s)" by (cases d)
  let ?sb = "sb\<lparr>sb_buf := sb_buf sb @ [\<lparr>e_addr = a, e_val = v\<rparr>]\<rparr>"
  have ok: "sb_ok (?sb, s)" "sb_mode ?sb = FIFO" using assms by (simp_all add: d fifo_ok_def sb_ok_def)
  obtain e es where es: "sb_buf ?sb = e # es" by (cases "sb_buf ?sb") auto
  have "int_of_size (sb_size ?sb) > sb_depth sb \<longleftrightarrow> int (sb_size sb) = sb_depth sb"
    using overflow_iff [of "sb_buf sb" "sb_depth sb"] assms by (simp add: d fifo_ok_def sb_size_def)
  moreover have "owner_view (?sb, s) = (owner_view d)(a := v)" by (simp add: d owner_view_def)
  moreover have "Suc (length es) = Suc (sb_size sb)"
    using arg_cong [OF es, of length] by (simp add: sb_size_def)
  ultimately show ?thesis
    using drain_one_fifo [OF ok es] assms ok(1) es
    by (auto simp: TSODut_store_def d StoreBuffer_store_def Let_def fifo_ok_def sb_ok_def sb_size_def
        owner_view_def)
qed

lemma TSODut_load_fifo:
  assumes "fifo_ok d"
  shows "\<exists>d'. TSODut_load a d = Inr (owner_view d a, d') \<and> fifo_ok d' \<and> owner_view d' = owner_view d
    \<and> sys_val (snd d') = sys_val (snd d)"
proof -
  obtain sb s where d: "d = (sb, s)" by (cases d)
  have ok: "sb_ok (sb, s)" using assms by (simp add: d fifo_ok_def)
  from StoreBuffer_load_ok [OF ok, of a] assms show ?thesis
    by (auto simp: TSODut_load_def d fifo_ok_def sb_ok_def sb_size_def owner_view_def split: if_splits)
qed

lemma TSODut_mfence_fifo:
  assumes "fifo_ok d"
  shows "\<exists>d'. TSODut_mfence d = Inr d' \<and> fifo_ok d' \<and> owner_view d' = owner_view d
    \<and> sys_val (snd d') = owner_view d"
proof -
  obtain sb s where d: "d = (sb, s)" by (cases d)
  have ok: "sb_ok (sb, s)" using assms by (simp add: d fifo_ok_def)
  from mfence_ok [OF ok] assms show ?thesis
    by (auto simp: TSODut_mfence_def d fifo_ok_def sb_ok_def sb_size_def owner_view_def)
qed

interpretation fifo: buffered_memory fifo_ok owner_view "\<lambda>d. sys_val (snd d)" TSODut_store TSODut_load
  TSODut_mfence
  by unfold_locales (rule TSODut_store_fifo TSODut_load_fifo TSODut_mfence_fifo; assumption)+

section \<open>The life of a buffer\<close>

text \<open>The calls a client may make on its buffer, in either mode.\<close>

datatype sb_call = Sb_store u32 u32 | Sb_load u32 | Sb_drain_one | Sb_drain_all | Sb_mfence

fun exec_sb :: "sb_call \<Rightarrow> TSODut \<Rightarrow> exn + TSODut" where
  "exec_sb (Sb_store a v) (sb, s) = StoreBuffer_store a v sb s"
| "exec_sb (Sb_load a) (sb, s) = sbind (StoreBuffer_load a sb s) (\<lambda>(v, d). Inr d)"
| "exec_sb Sb_drain_one (sb, s) = drain_one sb s"
| "exec_sb Sb_drain_all (sb, s) = drain_all sb s"
| "exec_sb Sb_mfence (sb, s) = mfence sb s"

text \<open>The stores of a sequence of calls.\<close>

fun stores_of :: "sb_call list \<Rightarrow> SBEntry list" where
  "stores_of [] = []"
| "stores_of (Sb_store a v # cs) = \<lparr>e_addr = a, e_val = v\<rparr> # stores_of cs"
| "stores_of (_ # cs) = stores_of cs"

text \<open>What a buffer does to the system: reads that miss it, writes of its entries, the counter of a fence.\<close>

datatype sb_access = Acc_read u32 | Acc_write SBEntry | Acc_count

fun do_access :: "int \<Rightarrow> sb_access \<Rightarrow> MesiSystem \<Rightarrow> exn + MesiSystem" where
  "do_access c (Acc_read a) s = sbind (MesiSystem_read c a s) (\<lambda>(v, s). Inr s)"
| "do_access c (Acc_write e) s = put_entry c e s"
| "do_access c Acc_count s = Inr (count_drain c s)"

fun writes_of :: "sb_access list \<Rightarrow> SBEntry list" where
  "writes_of [] = []"
| "writes_of (Acc_write e # xs) = e # writes_of xs"
| "writes_of (_ # xs) = writes_of xs"

lemma writes_of_append [simp]: "writes_of (xs @ ys) = writes_of xs @ writes_of ys"
  by (induction xs rule: writes_of.induct) simp_all

lemma writes_of_map [simp]: "writes_of (map Acc_write es) = es"
  by (induction es) simp_all

lemma for_each_writes: "for_each (do_access c) (map Acc_write es) s = for_each (put_entry c) es s"
  by (induction es arbitrary: s) (auto simp: sbind_def split: sum.splits)

text \<open>
  From \<open>d\<close> to \<open>d'\<close> with the new stores \<open>es\<close>: the system has done the accesses \<open>xs\<close>, and the entries they wrote
  and the entries left are those that were there and the new ones, in FIFO mode also in this order.
\<close>

definition sb_moves :: "SBEntry list \<Rightarrow> sb_access list \<Rightarrow> TSODut \<Rightarrow> TSODut \<Rightarrow> bool" where
  "sb_moves es xs d d' \<longleftrightarrow> sb_ok d' \<and> for_each (do_access (sb_core (fst d))) xs (snd d) = Inr (snd d')
     \<and> mset (writes_of xs) + mset (sb_buf (fst d')) = mset (sb_buf (fst d)) + mset es
     \<and> (sb_mode (fst d) = FIFO \<longrightarrow> writes_of xs @ sb_buf (fst d') = sb_buf (fst d) @ es)
     \<and> sb_drained (fst d') = sb_drained (fst d) + of_nat (length (writes_of xs))
     \<and> sb_core (fst d') = sb_core (fst d) \<and> sb_depth (fst d') = sb_depth (fst d) \<and> sb_mode (fst d') = sb_mode (fst d)"

lemma sb_moves_none: "sb_ok d \<Longrightarrow> sb_moves [] [] d d"
  by (simp add: sb_moves_def)

lemma sb_moves_trans:
  assumes "sb_moves es xs d d1" and "sb_moves fs ys d1 d2"
  shows "sb_moves (es @ fs) (xs @ ys) d d2"
proof -
  have "mset (writes_of xs) + mset (writes_of ys) + mset (sb_buf (fst d2)) = mset (sb_buf (fst d)) + mset es + mset fs"
    using assms by (simp add: sb_moves_def add.assoc [symmetric]) (metis add.assoc)
  with assms show ?thesis by (auto simp: sb_moves_def for_each_append add.assoc)
qed

lemma drain_one_moves:
  assumes "sb_ok (sb, s)" and "sb_buf sb \<noteq> []"
  shows "\<exists>e sb' s'. drain_one sb s = Inr (sb', s') \<and> sb_moves [] [Acc_write e] (sb, s) (sb', s') \<and> Suc (sb_size sb') = sb_size sb"
proof -
  obtain sb' s' i where r: "drain_one sb s = Inr (sb', s')" "sb_ok (sb', s')" "i < length (sb_buf sb)"
    "sb_buf sb' = erase_at i (sb_buf sb)" "put_entry (sb_core sb) (sb_buf sb ! i) s = Inr s'" "sb_mode sb = FIFO \<longrightarrow> i = 0"
    "sb_core sb' = sb_core sb" "sb_depth sb' = sb_depth sb" "sb_mode sb' = sb_mode sb" "sb_drained sb' = sb_drained sb + 1"
    using drain_one_ok [OF assms] by blast
  have "sb_mode sb = FIFO \<longrightarrow> sb_buf sb ! i # sb_buf sb' = sb_buf sb"
    using r(4,6) assms(2) by (cases "sb_buf sb") (auto simp: erase_at_def)
  moreover have "Suc (sb_size sb') = sb_size sb" using r(3,4) by (simp add: sb_size_def length_erase_at)
  ultimately have "sb_moves [] [Acc_write (sb_buf sb ! i)] (sb, s) (sb', s') \<and> Suc (sb_size sb') = sb_size sb"
    using r mset_erase_at [OF r(3)] by (simp add: sb_moves_def)
  with r(1) show ?thesis by blast
qed

lemma store_moves:
  assumes "sb_ok (sb, s)" and "int (sb_size sb) \<le> sb_depth sb" and "sb_depth sb < 2 ^ 31 - 1"
  shows "\<exists>xs d. StoreBuffer_store a v sb s = Inr d \<and> sb_moves [\<lparr>e_addr = a, e_val = v\<rparr>] xs (sb, s) d
    \<and> int (sb_size (fst d)) \<le> sb_depth sb"
proof -
  let ?e = "\<lparr>e_addr = a, e_val = v\<rparr>" let ?sb = "sb\<lparr>sb_buf := sb_buf sb @ [?e]\<rparr>"
  have ok: "sb_ok (?sb, s)" using assms(1) by (simp add: sb_ok_def)
  have push: "sb_moves [?e] [] (sb, s) (?sb, s)" using ok by (simp add: sb_moves_def)
  have sz: "sb_size ?sb = Suc (sb_size sb)" by (simp add: sb_size_def)
  have ov: "int_of_size (sb_size ?sb) > sb_depth sb \<longleftrightarrow> int (sb_size sb) = sb_depth sb"
    using overflow_iff [of "sb_buf sb" "sb_depth sb"] assms(2,3) by (simp add: sb_size_def)
  show ?thesis
  proof (cases "int (sb_size sb) = sb_depth sb")
    case True
    obtain x sb' s' where r: "drain_one ?sb s = Inr (sb', s')" "sb_moves [] [Acc_write x] (?sb, s) (sb', s')" "Suc (sb_size sb') = sb_size ?sb"
      using drain_one_moves [OF ok] by auto
    have "StoreBuffer_store a v sb s = Inr (sb', s')" using True ov r(1) by (simp add: StoreBuffer_store_def Let_def)
    moreover have "sb_moves [?e] [Acc_write x] (sb, s) (sb', s')" using sb_moves_trans [OF push r(2)] by simp
    moreover have "int (sb_size sb') \<le> sb_depth sb" using r(3) sz assms(2) by simp
    ultimately show ?thesis by auto
  next
    case False
    then have "StoreBuffer_store a v sb s = Inr (?sb, s)" using ov by (simp add: StoreBuffer_store_def Let_def)
    with push False sz assms(2) show ?thesis by (intro exI [of _ "[]"] exI [of _ "(?sb, s)"]) simp
  qed
qed

lemma load_moves:
  assumes "sb_ok (sb, s)"
  shows "\<exists>v xs sb' s'. StoreBuffer_load a sb s = Inr (v, sb', s') \<and> sb_moves [] xs (sb, s) (sb', s') \<and> sb_size sb' = sb_size sb"
proof (cases "scan a (rev (sb_buf sb))")
  case None
  obtain s' where s': "MesiSystem_read (sb_core sb) a s = Inr (sys_val s a, s')" "sys_ok s'" "validate_core s' = validate_core s"
    using MesiSystem_read_ok [of s "sb_core sb" a] assms by (auto simp: sb_ok_def)
  then have "sb_moves [] [Acc_read a] (sb, s) (sb, s')" using assms by (simp add: sb_moves_def sb_ok_def)
  with s'(1) None show ?thesis by (auto simp: StoreBuffer_load_def)
next
  case (Some v)
  then have "sb_moves [] [] (sb, s) (sb\<lparr>sb_hits := sb_hits sb + 1\<rparr>, s)" using assms by (simp add: sb_moves_def sb_ok_def)
  with Some show ?thesis by (auto simp: StoreBuffer_load_def sb_size_def)
qed

lemma mfence_moves:
  assumes "sb_ok (sb, s)"
  shows "\<exists>xs sb' s'. mfence sb s = Inr (sb', s') \<and> sb_moves [] xs (sb, s) (sb', s') \<and> sb_buf sb' = []"
  using assms
proof (induction "sb_buf sb" arbitrary: sb s)
  case Nil
  then show ?case using sb_moves_none [OF Nil.prems] by (auto simp: mfence.simps [of sb] sb_empty_def)
next
  case (Cons e es)
  let ?sb = "sb\<lparr>sb_buf := es, sb_drained := sb_drained sb + 1\<rparr>"
  note b = Cons.hyps(2) [symmetric]
  obtain s1 where s1: "put_entry (sb_core sb) e s = Inr s1" "sys_ok s1" "validate_core s1 = validate_core s"
    using MesiSystem_write_ok [of s "sb_core sb" "e_addr e" "e_val e"] Cons.prems by (auto simp: sb_ok_def put_entry_def)
  let ?s1 = "count_drain (sb_core sb) s1"
  have i: "mfence_iter sb s = Inr (?sb, ?s1)" using s1(1) b by (simp add: mfence_iter_def put_entry_def)
  have m: "sb_moves [] [Acc_write e, Acc_count] (sb, s) (?sb, ?s1)"
    using s1 Cons.prems b by (simp add: sb_moves_def sb_ok_def)
  then have "sb_ok (?sb, ?s1)" by (simp add: sb_moves_def)
  from Cons.hyps(1) [OF _ this] obtain xs sb' s' where
    "mfence ?sb ?s1 = Inr (sb', s')" "sb_moves [] xs (?sb, ?s1) (sb', s')" "sb_buf sb' = []" by auto
  moreover from this(2) have "sb_moves [] ([Acc_write e, Acc_count] @ xs) (sb, s) (sb', s')" using sb_moves_trans [OF m] by fastforce
  ultimately show ?case using i b by (auto simp: mfence.simps [of sb] sb_empty_def)
qed

lemma drain_all_moves:
  assumes "sb_ok (sb, s)"
  shows "\<exists>xs sb' s'. drain_all sb s = Inr (sb', s') \<and> sb_moves [] xs (sb, s) (sb', s') \<and> sb_buf sb' = []"
proof -
  obtain sb' s' es where r: "drain_all sb s = Inr (sb', s')" "sb_ok (sb', s')" "sb_buf sb' = []" "sb_depth sb' = sb_depth sb"
    "sb_drained sb' = sb_drained sb + of_nat (length (sb_buf sb))" "mset es = mset (sb_buf sb)"
    "for_each (put_entry (sb_core sb)) es s = Inr s'" "sb_mode sb = FIFO \<longrightarrow> es = sb_buf sb"
    "sb_core sb' = sb_core sb" "sb_mode sb' = sb_mode sb" using drain_all_ok [OF assms] by blast
  have "length es = length (sb_buf sb)" using mset_eq_length [OF r(6)] .
  with r have "sb_moves [] (map Acc_write es) (sb, s) (sb', s')" by (simp add: sb_moves_def for_each_writes)
  with r(1,3) show ?thesis by blast
qed

lemma exec_sb_moves:
  assumes "sb_ok d" and "int (sb_size (fst d)) \<le> sb_depth (fst d)" and "sb_depth (fst d) < 2 ^ 31 - 1"
  shows "\<exists>xs d'. exec_sb c d = Inr d' \<and> sb_moves (stores_of [c]) xs d d' \<and> int (sb_size (fst d')) \<le> sb_depth (fst d)"
proof -
  obtain sb s where d: "d = (sb, s)" by (cases d)
  have ok: "sb_ok (sb, s)" and l: "int (sb_size sb) \<le> sb_depth sb" "sb_depth sb < 2 ^ 31 - 1" using assms by (simp_all add: d)
  have p: "0 \<le> sb_depth sb" using l(1) by simp
  show ?thesis
  proof (cases c)
    case (Sb_store a v)
    with store_moves [OF ok l, of a v] show ?thesis by (auto simp: d)
  next
    case (Sb_load a)
    with load_moves [OF ok, of a] l show ?thesis by (auto simp: d)
  next
    case Sb_drain_one
    show ?thesis
    proof (cases "sb_buf sb = []")
      case True
      then have "drain_one sb s = Inr (sb, s)" by (simp add: drain_one_def sb_empty_def)
      with Sb_drain_one l sb_moves_none [OF ok] show ?thesis by (auto simp: d)
    next
      case False
      with Sb_drain_one drain_one_moves [OF ok False] l show ?thesis by (fastforce simp: d)
    qed
  next
    case Sb_drain_all
    with drain_all_moves [OF ok] p show ?thesis by (fastforce simp: d sb_size_def)
  next
    case Sb_mfence
    with mfence_moves [OF ok] p show ?thesis by (fastforce simp: d sb_size_def)
  qed
qed

lemma stores_of_Cons: "stores_of (c # cs) = stores_of [c] @ stores_of cs"
  by (cases c) simp_all

lemma run_sb_moves:
  assumes "sb_ok d" and "int (sb_size (fst d)) \<le> sb_depth (fst d)" and "sb_depth (fst d) < 2 ^ 31 - 1"
  shows "\<exists>xs d'. for_each exec_sb cs d = Inr d' \<and> sb_moves (stores_of cs) xs d d' \<and> int (sb_size (fst d')) \<le> sb_depth (fst d)"
  using assms
proof (induction cs arbitrary: d)
  case Nil
  then show ?case using sb_moves_none [OF Nil(1)] by auto
next
  case (Cons c cs)
  obtain xs d1 where d1: "exec_sb c d = Inr d1" "sb_moves (stores_of [c]) xs d d1" "int (sb_size (fst d1)) \<le> sb_depth (fst d)"
    using exec_sb_moves [OF Cons.prems, of c] by blast
  then have k: "sb_ok d1" "sb_depth (fst d1) = sb_depth (fst d)" by (simp_all add: sb_moves_def)
  from Cons.IH [of d1] k d1(3) Cons.prems(3) obtain ys d2 where "for_each exec_sb cs d1 = Inr d2" "sb_moves (stores_of cs) ys d1 d2"
    "int (sb_size (fst d2)) \<le> sb_depth (fst d)" by auto
  moreover from sb_moves_trans [OF d1(2) this(2)] have "sb_moves (stores_of (c # cs)) (xs @ ys) d d2"
    by (simp only: stores_of_Cons [of c cs])
  ultimately show ?case using d1(1) by (auto simp del: stores_of.simps)
qed

lemma StoreBuffer_newD:
  assumes "StoreBuffer_new (Some s) c depth mode rng = Inr sb" and "sys_ok s"
  shows "sb = \<lparr>sb_core = c, sb_depth = depth, sb_mode = mode, sb_rng = rng, sb_buf = [], sb_hits = 0, sb_drained = 0\<rparr>"
    "sb_ok (sb, s)" "0 < depth"
  using assms by (auto simp: StoreBuffer_new_def sb_ok_def validate_core_eq split: if_splits)

end
