(* ===== verification/Tso_Machine.thy ===== *)
theory Tso_Machine
  imports Store_Buffer
begin

text \<open>
  Cores that run programs through the store buffers of \<^verbatim>\<open>model/tso.hpp\<close>, as the threads of the litmus
  runs in \<^verbatim>\<open>model/model_main.cpp\<close> do, and the abstract total-store-order machine they implement. A
  step of a core holds the mutex of the system once, so an execution is a sequence of steps. A fence
  takes one step per entry it drains, because the loop of \<^verbatim>\<open>mfence\<close> releases the mutex in between.
\<close>

section \<open>The machine\<close>

datatype instr = I_store u32 u32 | I_load u32 | I_fence

record thread =
  th_prog :: "instr list"
  th_regs :: "u32 list"
  th_sb :: StoreBuffer

record machine =
  m_sys :: MesiSystem
  m_threads :: "thread list"

abbreviation dut_of :: "nat \<Rightarrow> machine \<Rightarrow> TSODut" where
  "dut_of k m \<equiv> (th_sb (m_threads m ! k), m_sys m)"

definition put_thread :: "nat \<Rightarrow> instr list \<Rightarrow> u32 list \<Rightarrow> TSODut \<Rightarrow> machine \<Rightarrow> machine" where
  "put_thread k p rs d m = m\<lparr>m_sys := snd d,
     m_threads := (m_threads m)[k := \<lparr>th_prog = p, th_regs = rs, th_sb = fst d\<rparr>]\<rparr>"

inductive mach_step :: "machine \<Rightarrow> machine \<Rightarrow> bool" where
  mach_store: "k < length (m_threads m) \<Longrightarrow> th_prog (m_threads m ! k) = I_store a v # p
    \<Longrightarrow> TSODut_store a v (dut_of k m) = Inr d
    \<Longrightarrow> mach_step m (put_thread k p (th_regs (m_threads m ! k)) d m)"
| mach_load: "k < length (m_threads m) \<Longrightarrow> th_prog (m_threads m ! k) = I_load a # p
    \<Longrightarrow> TSODut_load a (dut_of k m) = Inr (v, d)
    \<Longrightarrow> mach_step m (put_thread k p (th_regs (m_threads m ! k) @ [v]) d m)"
| mach_fence_iter: "k < length (m_threads m) \<Longrightarrow> th_prog (m_threads m ! k) = I_fence # p
    \<Longrightarrow> \<not> sb_empty (th_sb (m_threads m ! k))
    \<Longrightarrow> mfence_iter (th_sb (m_threads m ! k)) (m_sys m) = Inr d
    \<Longrightarrow> mach_step m (put_thread k (I_fence # p) (th_regs (m_threads m ! k)) d m)"
| mach_fence_done: "k < length (m_threads m) \<Longrightarrow> th_prog (m_threads m ! k) = I_fence # p
    \<Longrightarrow> sb_empty (th_sb (m_threads m ! k))
    \<Longrightarrow> mach_step m (put_thread k p (th_regs (m_threads m ! k)) (dut_of k m) m)"
| mach_drain: "k < length (m_threads m)
    \<Longrightarrow> drain_one (th_sb (m_threads m ! k)) (m_sys m) = Inr d
    \<Longrightarrow> mach_step m (put_thread k (th_prog (m_threads m ! k)) (th_regs (m_threads m ! k)) d m)"

section \<open>Total store order\<close>

text \<open>The specification: a memory and, for every core, its program, the values it has loaded and the
  queue of its stores that have not reached the memory.\<close>

record tso_thread =
  t_prog :: "instr list"
  t_regs :: "u32 list"
  t_buf :: "SBEntry list"

type_synonym tso_state = "(u32 \<Rightarrow> u32) \<times> tso_thread list"

inductive tso_core :: "(u32 \<Rightarrow> u32) \<times> tso_thread \<Rightarrow> (u32 \<Rightarrow> u32) \<times> tso_thread \<Rightarrow> bool" where
  tso_store: "tso_core (m, \<lparr>t_prog = I_store a v # p, t_regs = rs, t_buf = b\<rparr>)
    (m, \<lparr>t_prog = p, t_regs = rs, t_buf = b @ [\<lparr>e_addr = a, e_val = v\<rparr>]\<rparr>)"
| tso_load: "tso_core (m, \<lparr>t_prog = I_load a # p, t_regs = rs, t_buf = b\<rparr>)
    (m, \<lparr>t_prog = p, t_regs = rs @ [apply_stores b m a], t_buf = b\<rparr>)"
| tso_fence: "tso_core (m, \<lparr>t_prog = I_fence # p, t_regs = rs, t_buf = []\<rparr>)
    (m, \<lparr>t_prog = p, t_regs = rs, t_buf = []\<rparr>)"
| tso_drain: "tso_core (m, \<lparr>t_prog = p, t_regs = rs, t_buf = e # b\<rparr>)
    (m(e_addr e := e_val e), \<lparr>t_prog = p, t_regs = rs, t_buf = b\<rparr>)"

inductive tso_step :: "tso_state \<Rightarrow> tso_state \<Rightarrow> bool" where
  tso_one: "k < length ts \<Longrightarrow> ts ! k = t \<Longrightarrow> tso_core (m, t) (m', t') \<Longrightarrow> tso_step (m, ts) (m', ts[k := t'])"

inductive_cases tso_stepE: "tso_step st st'"
inductive_cases tso_coreE: "tso_core (m, t) (m', t')"

definition abs_thread :: "thread \<Rightarrow> tso_thread" where
  "abs_thread t = \<lparr>t_prog = th_prog t, t_regs = th_regs t, t_buf = sb_buf (th_sb t)\<rparr>"

definition abs_machine :: "machine \<Rightarrow> tso_state" where
  "abs_machine m = (sys_val (m_sys m), map abs_thread (m_threads m))"

definition mach_ok :: "machine \<Rightarrow> bool" where
  "mach_ok m \<longleftrightarrow> (\<forall>k < length (m_threads m). fifo_ok (dut_of k m))"

section \<open>The machine implements total store order\<close>

text \<open>A step of core \<open>k\<close> keeps the other cores' buffers as they are; it is enough to look at the
  system and at the buffer it uses.\<close>

lemma abs_put_thread:
  "abs_machine (put_thread k p rs d m)
   = (sys_val (snd d), (map abs_thread (m_threads m))
        [k := \<lparr>t_prog = p, t_regs = rs, t_buf = sb_buf (fst d)\<rparr>])"
  by (simp add: abs_machine_def put_thread_def abs_thread_def map_update)

lemma mach_ok_put_thread:
  assumes "mach_ok m" and "fifo_ok d" and "validate_core (snd d) = validate_core (m_sys m)"
  shows "mach_ok (put_thread k p rs d m)"
  using assms by (auto simp: mach_ok_def put_thread_def fifo_ok_def sb_ok_def nth_list_update_if)

lemma fifo_store_cases:
  assumes "fifo_ok (sb, s)" and "TSODut_store a v (sb, s) = Inr d"
  defines "e \<equiv> \<lparr>e_addr = a, e_val = v\<rparr>"
  shows "fifo_ok d \<and> validate_core (snd d) = validate_core s
    \<and> (sb_buf (fst d) = sb_buf sb @ [e] \<and> sys_val (snd d) = sys_val s
       \<or> (\<exists>x xs. sb_buf sb @ [e] = x # xs \<and> sb_buf (fst d) = xs
            \<and> sys_val (snd d) = (sys_val s)(e_addr x := e_val x)))"
proof -
  let ?sb = "sb\<lparr>sb_buf := sb_buf sb @ [e]\<rparr>"
  have ok: "sb_ok (?sb, s)" "sb_mode ?sb = FIFO" using assms(1) by (simp_all add: fifo_ok_def sb_ok_def)
  obtain x xs where xs: "sb_buf ?sb = x # xs" by (cases "sb_buf ?sb") auto
  have "fifo_ok d" using TSODut_store_fifo [OF assms(1), of a v] assms(2) by auto
  with drain_one_fifo [OF ok xs] assms(2) xs show ?thesis
    by (auto simp: TSODut_store_def StoreBuffer_store_def Let_def e_def split: if_splits)
qed

lemma fifo_load_cases:
  assumes "fifo_ok (sb, s)" and "TSODut_load a (sb, s) = Inr (v, d)"
  shows "fifo_ok d" "validate_core (snd d) = validate_core s" "sb_buf (fst d) = sb_buf sb"
    "sys_val (snd d) = sys_val s" "v = apply_stores (sb_buf sb) (sys_val s) a"
proof -
  have ok: "sb_ok (sb, s)" using assms(1) by (simp add: fifo_ok_def)
  show "fifo_ok d" using TSODut_load_fifo [OF assms(1), of a] assms(2) by auto
  show "validate_core (snd d) = validate_core s" "sb_buf (fst d) = sb_buf sb"
    "sys_val (snd d) = sys_val s" "v = apply_stores (sb_buf sb) (sys_val s) a"
    using StoreBuffer_load_ok [OF ok, of a] assms(2)
    by (auto simp: TSODut_load_def owner_view_def split: if_splits)
qed

lemma fifo_drain_cases:
  assumes "fifo_ok (sb, s)" and "sb_buf sb = e # es"
    and "drain_one sb s = Inr d \<or> mfence_iter sb s = Inr d"
  shows "fifo_ok d" "validate_core (snd d) = validate_core s" "sb_buf (fst d) = es"
    "sys_val (snd d) = (sys_val s)(e_addr e := e_val e)"
proof -
  have ok: "sb_ok (sb, s)" "sb_mode sb = FIFO" using assms(1) by (simp_all add: fifo_ok_def)
  from drain_one_fifo [OF ok assms(2)] mfence_iter_ok [OF ok(1) assms(2)] assms(3)
  obtain s' where d: "d = (sb\<lparr>sb_buf := es, sb_drained := sb_drained sb + 1\<rparr>, s')" "sys_ok s'"
    "sys_val s' = (sys_val s)(e_addr e := e_val e)" "validate_core s' = validate_core s"
    by auto
  with assms(1,2) show "fifo_ok d" "validate_core (snd d) = validate_core s" "sb_buf (fst d) = es"
    "sys_val (snd d) = (sys_val s)(e_addr e := e_val e)"
    by (auto simp: fifo_ok_def sb_ok_def sb_size_def)
qed

lemma mach_okD: "mach_ok m \<Longrightarrow> k < length (m_threads m) \<Longrightarrow> fifo_ok (dut_of k m)"
  by (simp add: mach_ok_def)

lemma abs_nth:
  "k < length (m_threads m) \<Longrightarrow> map abs_thread (m_threads m) ! k
     = \<lparr>t_prog = th_prog (m_threads m ! k), t_regs = th_regs (m_threads m ! k),
        t_buf = sb_buf (th_sb (m_threads m ! k))\<rparr>"
  by (simp add: abs_thread_def)

text \<open>One step of the machine is one step of the specification, or two when a store overflows the
  buffer, or none when there is nothing to drain.\<close>

lemma tso_store_then_drain:
  assumes "k < length ts" and "ts ! k = \<lparr>t_prog = I_store a v # p, t_regs = rs, t_buf = b\<rparr>"
    and "b @ [\<lparr>e_addr = a, e_val = v\<rparr>] = x # xs"
  shows "tso_step\<^sup>*\<^sup>* (m, ts)
    (m(e_addr x := e_val x), ts[k := \<lparr>t_prog = p, t_regs = rs, t_buf = xs\<rparr>])"
proof -
  let ?ts = "ts[k := \<lparr>t_prog = p, t_regs = rs, t_buf = b @ [\<lparr>e_addr = a, e_val = v\<rparr>]\<rparr>]"
  have "tso_step (m, ts) (m, ?ts)" by (rule tso_one [OF assms(1,2) tso_store])
  moreover have "tso_step (m, ?ts) (m(e_addr x := e_val x),
      ?ts[k := \<lparr>t_prog = p, t_regs = rs, t_buf = xs\<rparr>])"
    by (rule tso_one [OF _ _ tso_drain]) (use assms in simp_all)
  ultimately show ?thesis by (auto intro: converse_rtranclp_into_rtranclp)
qed

lemma mach_step_refines:
  assumes "mach_ok m" and "mach_step m m'"
  shows "mach_ok m' \<and> tso_step\<^sup>*\<^sup>* (abs_machine m) (abs_machine m')"
  using assms(2)
proof cases
  case (mach_store k a v p d)
  note ok = mach_okD [OF assms(1) mach_store(2)]
  note c = fifo_store_cases [OF ok mach_store(4)]
  note nth = abs_nth [OF mach_store(2), unfolded mach_store(3)]
  have k: "k < length (map abs_thread (m_threads m))" using mach_store(2) by simp
  have "tso_step\<^sup>*\<^sup>* (abs_machine m) (abs_machine m')"
    using c tso_one [OF k nth tso_store] tso_store_then_drain [OF k nth]
    unfolding mach_store(1) abs_put_thread by (auto simp: abs_machine_def)
  with c mach_ok_put_thread [OF assms(1)] show ?thesis by (auto simp: mach_store(1))
next
  case (mach_load k a p v d)
  note ok = mach_okD [OF assms(1) mach_load(2)]
  note c = fifo_load_cases [OF ok mach_load(4)]
  have "tso_step (abs_machine m) (abs_machine m')"
    unfolding mach_load(1) abs_put_thread c(3-5) abs_machine_def [of m]
    by (rule tso_one [OF _ _ tso_load]) (use mach_load(2,3) in \<open>simp_all add: abs_thread_def\<close>)
  with mach_ok_put_thread [OF assms(1) c(1,2)] show ?thesis by (auto simp: mach_load(1))
next
  case (mach_fence_iter k p d)
  then obtain e es where es: "sb_buf (th_sb (m_threads m ! k)) = e # es"
    by (auto simp: sb_empty_def neq_Nil_conv)
  note ok = mach_okD [OF assms(1) mach_fence_iter(2)]
  note c = fifo_drain_cases [OF ok es disjI2 [OF mach_fence_iter(5)]]
  have "tso_step (abs_machine m) (abs_machine m')"
    unfolding mach_fence_iter(1) abs_put_thread c(3,4) abs_machine_def [of m]
    by (rule tso_one [OF _ _ tso_drain]) (use mach_fence_iter(2,3) es in \<open>simp_all add: abs_thread_def\<close>)
  with mach_ok_put_thread [OF assms(1) c(1,2)] show ?thesis by (auto simp: mach_fence_iter(1))
next
  case (mach_fence_done k p)
  then have empty: "sb_buf (th_sb (m_threads m ! k)) = []" by (simp add: sb_empty_def)
  have "tso_step (abs_machine m) (abs_machine m')"
    unfolding mach_fence_done(1) abs_put_thread fst_conv snd_conv empty abs_machine_def [of m]
    by (rule tso_one [OF _ _ tso_fence]) (use mach_fence_done(2,3) empty in \<open>simp_all add: abs_thread_def\<close>)
  with mach_ok_put_thread [OF assms(1) mach_okD [OF assms(1) mach_fence_done(2)]] show ?thesis
    by (auto simp: mach_fence_done(1))
next
  case (mach_drain k d)
  note ok = mach_okD [OF assms(1) mach_drain(2)]
  show ?thesis
  proof (cases "sb_buf (th_sb (m_threads m ! k))")
    case Nil
    then have d: "d = dut_of k m" using mach_drain(3) by (simp add: drain_one_def sb_empty_def)
    then have "put_thread k (th_prog (m_threads m ! k)) (th_regs (m_threads m ! k)) d m = m"
      by (cases "m_threads m ! k") (simp add: put_thread_def list_update_same_conv mach_drain(2))
    with assms(1) show ?thesis by (simp add: mach_drain(1))
  next
    case (Cons e es)
    note c = fifo_drain_cases [OF ok Cons disjI1 [OF mach_drain(3)]]
    have "tso_step (abs_machine m) (abs_machine m')"
      unfolding mach_drain(1) abs_put_thread c(3,4) abs_machine_def [of m]
      by (rule tso_one [OF _ _ tso_drain]) (use mach_drain(2) Cons in \<open>simp_all add: abs_thread_def\<close>)
    with mach_ok_put_thread [OF assms(1) c(1,2)] show ?thesis by (auto simp: mach_drain(1))
  qed
qed

lemma mach_refines:
  assumes "mach_step\<^sup>*\<^sup>* m m'" and "mach_ok m"
  shows "mach_ok m' \<and> tso_step\<^sup>*\<^sup>* (abs_machine m) (abs_machine m')"
  using assms by (induction rule: rtranclp_induct) (auto dest: mach_step_refines)

section \<open>The litmus programs\<close>

text \<open>Store buffering: each core raises its flag, fences and looks at the other flag.\<close>

definition raise_and_look :: "u32 \<Rightarrow> u32 \<Rightarrow> instr list" where
  "raise_and_look mine other = [I_store mine 1, I_fence, I_load other]"

definition raise_unfenced :: "u32 \<Rightarrow> u32 \<Rightarrow> instr list" where
  "raise_unfenced mine other = [I_store mine 1, I_load other]"

text \<open>Message passing: the producer stores the data before the flag.\<close>

definition publish :: "u32 \<Rightarrow> u32 \<Rightarrow> u32 \<Rightarrow> instr list" where
  "publish data flag v = [I_store data v, I_store flag 1]"

definition consume :: "u32 \<Rightarrow> u32 \<Rightarrow> instr list" where
  "consume data flag = [I_load flag, I_load data]"

definition starts :: "instr list \<Rightarrow> tso_thread" where
  "starts p = \<lparr>t_prog = p, t_regs = [], t_buf = []\<rparr>"

lemma SBEntry_eq_iff:
  "\<lparr>e_addr = a, e_val = v\<rparr> = e \<longleftrightarrow> e_addr e = a \<and> e_val e = v"
  "e = \<lparr>e_addr = a, e_val = v\<rparr> \<longleftrightarrow> e_addr e = a \<and> e_val e = v"
  by (cases e; auto)+

text \<open>What a core of the fenced program may look like when the memory is \<open>m\<close>.\<close>

definition raising :: "(u32 \<Rightarrow> u32) \<Rightarrow> u32 \<Rightarrow> u32 \<Rightarrow> tso_thread \<Rightarrow> bool" where
  "raising m x y t \<longleftrightarrow>
     t = starts (raise_and_look x y)
   \<or> t = \<lparr>t_prog = [I_fence, I_load y], t_regs = [], t_buf = [\<lparr>e_addr = x, e_val = 1\<rparr>]\<rparr>
   \<or> m x = 1 \<and> t_buf t = [] \<and> (t_prog t \<in> {[I_fence, I_load y], [I_load y]} \<and> t_regs t = []
        \<or> t_prog t = [] \<and> length (t_regs t) = 1)"

definition sb_inv :: "u32 \<Rightarrow> u32 \<Rightarrow> tso_state \<Rightarrow> bool" where
  "sb_inv x y st \<longleftrightarrow> (\<exists>m t0 t1. st = (m, [t0, t1]) \<and> raising m x y t0 \<and> raising m y x t1
     \<and> \<not> (t_regs t0 = [0] \<and> t_regs t1 = [0]))"

lemma regs_starts [simp]: "t_regs (starts p) = []"
  by (simp add: starts_def)

lemma raising_start: "raising m x y (starts (raise_and_look x y))"
  by (simp only: raising_def simp_thms)

text \<open>A step of one core: it keeps its own description, changes its own flag only, and what it loads is
  the other flag.\<close>

lemma raising_step:
  assumes "tso_core (m, t) (m', t')" and "raising m x y t" and "x \<noteq> y"
  shows "raising m' x y t' \<and> (m' = m \<or> m' = m(x := 1)) \<and> (t_regs t' = t_regs t \<or> t_regs t' = [m y])"
  using assms(1)
proof cases
  case (tso_store a w p rs b)
  then show ?thesis using assms(2,3) by (auto simp: raising_def starts_def raise_and_look_def)
next
  case (tso_load a p rs b)
  then show ?thesis using assms(2,3) by (auto simp: raising_def starts_def raise_and_look_def)
next
  case (tso_fence p rs)
  then show ?thesis using assms(2,3) by (auto simp: raising_def starts_def raise_and_look_def)
next
  case (tso_drain p rs e b)
  then show ?thesis using assms(2,3) by (auto simp: raising_def starts_def raise_and_look_def)
qed

lemma raising_other: "raising m y x t \<Longrightarrow> m' = m \<or> m' = m(x := 1) \<Longrightarrow> x \<noteq> y \<Longrightarrow> raising m' y x t"
  by (auto simp: raising_def)

lemma raising_loaded: "raising m x y t \<Longrightarrow> t_regs t \<noteq> [] \<Longrightarrow> m x = 1"
  by (auto simp: raising_def starts_def)

lemma sb_inv_step:
  assumes "tso_step st st'" and "sb_inv x y st" and "x \<noteq> y"
  shows "sb_inv x y st'"
proof -
  obtain m t0 t1 where st: "st = (m, [t0, t1])" and r: "raising m x y t0" "raising m y x t1"
    and no: "\<not> (t_regs t0 = [0] \<and> t_regs t1 = [0])"
    using assms(2) by (auto simp: sb_inv_def)
  from assms(1) st consider
      m' t' where "st' = (m', [t', t1])" "tso_core (m, t0) (m', t')"
    | m' t' where "st' = (m', [t0, t'])" "tso_core (m, t1) (m', t')"
    by (auto elim!: tso_stepE simp: less_Suc_eq)
  then show ?thesis
  proof cases
    case 1
    note s = raising_step [OF 1(2) r(1) assms(3)]
    have "\<not> (t_regs t' = [0] \<and> t_regs t1 = [0])" using s no raising_loaded [OF r(2)] by auto
    with s raising_other [OF r(2), of m'] assms(3) show ?thesis by (auto simp: sb_inv_def 1(1))
  next
    case 2
    note s = raising_step [OF 2(2) r(2) not_sym [OF assms(3)]]
    have "\<not> (t_regs t0 = [0] \<and> t_regs t' = [0])" using s no raising_loaded [OF r(1)] by auto
    with s raising_other [OF r(1), of m'] assms(3) show ?thesis by (auto simp: sb_inv_def 2(1))
  qed
qed

lemma sb_inv_init: "sb_inv x y (m, [starts (raise_and_look x y), starts (raise_and_look y x)])"
  using raising_start [of m x y] raising_start [of m y x] by (simp add: sb_inv_def)

text \<open>What producer and consumer may look like.\<close>

definition publishing :: "(u32 \<Rightarrow> u32) \<Rightarrow> u32 \<Rightarrow> u32 \<Rightarrow> u32 \<Rightarrow> tso_thread \<Rightarrow> bool" where
  "publishing m x f v t \<longleftrightarrow>
     m f \<noteq> 1 \<and> (t = starts (publish x f v)
       \<or> t = \<lparr>t_prog = [I_store f 1], t_regs = [], t_buf = [\<lparr>e_addr = x, e_val = v\<rparr>]\<rparr>
       \<or> t = \<lparr>t_prog = [], t_regs = [], t_buf = [\<lparr>e_addr = x, e_val = v\<rparr>, \<lparr>e_addr = f, e_val = 1\<rparr>]\<rparr>)
   \<or> m x = v \<and> (t = \<lparr>t_prog = [I_store f 1], t_regs = [], t_buf = []\<rparr>
       \<or> t_prog t = [] \<and> t_buf t \<in> {[], [\<lparr>e_addr = f, e_val = 1\<rparr>]})"

definition consuming :: "(u32 \<Rightarrow> u32) \<Rightarrow> u32 \<Rightarrow> u32 \<Rightarrow> u32 \<Rightarrow> tso_thread \<Rightarrow> bool" where
  "consuming m x f v t \<longleftrightarrow> t_buf t = []
     \<and> (t = starts (consume x f)
        \<or> t_prog t = [I_load x] \<and> length (t_regs t) = 1 \<and> (t_regs t = [1] \<longrightarrow> m f = 1)
        \<or> t_prog t = [] \<and> (\<forall>w. t_regs t = [1, w] \<longrightarrow> w = v))"

definition mp_inv :: "u32 \<Rightarrow> u32 \<Rightarrow> u32 \<Rightarrow> tso_state \<Rightarrow> bool" where
  "mp_inv x f v st \<longleftrightarrow> (\<exists>m t0 t1. st = (m, [t0, t1]) \<and> publishing m x f v t0 \<and> consuming m x f v t1)"

lemma publishing_start: "m f \<noteq> 1 \<Longrightarrow> publishing m x f v (starts (publish x f v))"
  by (simp only: publishing_def simp_thms)

lemma consuming_start: "consuming m x f v (starts (consume x f))"
  unfolding consuming_def by (simp add: starts_def)

lemma publishing_step:
  assumes "tso_core (m, t) (m', t')" and "publishing m x f v t" and "x \<noteq> f"
  shows "publishing m' x f v t' \<and> (m f = 1 \<longrightarrow> m' f = 1)"
  using assms(1)
proof cases
  case (tso_store a w p rs b)
  then show ?thesis using assms(2,3) unfolding publishing_def starts_def publish_def
    by (elim disjE conjE) simp_all
next
  case (tso_load a p rs b)
  then show ?thesis using assms(2,3) by (simp add: publishing_def starts_def publish_def)
next
  case (tso_fence p rs)
  then show ?thesis using assms(2,3) by (simp add: publishing_def starts_def publish_def)
next
  case (tso_drain p rs e b)
  then show ?thesis using assms(2,3) unfolding publishing_def starts_def publish_def
    by (elim disjE conjE) auto
qed

lemma publishing_flag: "publishing m x f v t \<Longrightarrow> m f = 1 \<Longrightarrow> m x = v"
  by (auto simp: publishing_def)

lemma consuming_step:
  assumes "tso_core (m, t) (m', t')" and "consuming m x f v t" and "m f = 1 \<longrightarrow> m x = v"
  shows "consuming m' x f v t' \<and> m' = m"
  using assms(1)
proof cases
  case (tso_load a p rs b)
  then show ?thesis using assms(2,3) by (auto simp: consuming_def starts_def consume_def length_Suc_conv)
qed (use assms(2) in \<open>auto simp: consuming_def starts_def consume_def\<close>)

lemma mp_inv_step:
  assumes "tso_step st st'" and "mp_inv x f v st" and "x \<noteq> f"
  shows "mp_inv x f v st'"
proof -
  obtain m t0 t1 where st: "st = (m, [t0, t1])" and r: "publishing m x f v t0" "consuming m x f v t1"
    using assms(2) by (auto simp: mp_inv_def)
  from assms(1) st consider
      m' t' where "st' = (m', [t', t1])" "tso_core (m, t0) (m', t')"
    | m' t' where "st' = (m', [t0, t'])" "tso_core (m, t1) (m', t')"
    by (auto elim!: tso_stepE simp: less_Suc_eq)
  then show ?thesis
  proof cases
    case 1
    with publishing_step [OF 1(2) r(1) assms(3)] r(2) show ?thesis
      by (auto simp: mp_inv_def consuming_def)
  next
    case 2
    with consuming_step [OF 2(2) r(2)] r(1) publishing_flag [OF r(1)] show ?thesis
      by (auto simp: mp_inv_def)
  qed
qed

lemma mp_inv_init: "m f \<noteq> 1 \<Longrightarrow> mp_inv x f v (m, [starts (publish x f v), starts (consume x f)])"
  by (simp add: mp_inv_def publishing_start consuming_start)

lemma rtranclp_invariant: "r\<^sup>*\<^sup>* a b \<Longrightarrow> P a \<Longrightarrow> (\<And>x y. r x y \<Longrightarrow> P x \<Longrightarrow> P y) \<Longrightarrow> P b"
  by (induction rule: rtranclp_induct) auto

section \<open>Litmus runs on the machine\<close>

text \<open>Every core has a buffer of the default depth and mode.\<close>

definition fresh_buffer :: "(nat \<Rightarrow> u64) \<Rightarrow> nat \<Rightarrow> StoreBuffer" where
  "fresh_buffer rng k = \<lparr>sb_core = int k, sb_depth = 8, sb_mode = FIFO, sb_rng = rng, sb_buf = [],
     sb_hits = 0, sb_drained = 0\<rparr>"

lemma fresh_buffer_new:
  assumes "validate_core s (int k)"
  shows "StoreBuffer_new (Some s) (int k) 8 FIFO rng = Inr (fresh_buffer rng k)"
  using assms by (simp add: StoreBuffer_new_def fresh_buffer_def validate_core_eq)

definition litmus_machine :: "(nat \<Rightarrow> u64) \<Rightarrow> instr list list \<Rightarrow> MesiSystem \<Rightarrow> machine" where
  "litmus_machine rng progs s = \<lparr>m_sys = s,
     m_threads = map (\<lambda>k. \<lparr>th_prog = progs ! k, th_regs = [], th_sb = fresh_buffer rng k\<rparr>)
       [0..<length progs]\<rparr>"

definition finished :: "machine \<Rightarrow> bool" where
  "finished m \<longleftrightarrow> (\<forall>t \<in> set (m_threads m). th_prog t = [])"

lemma litmus_machine_ok:
  assumes "sys_ok s" and "int (length progs) \<le> n_cores s"
  shows "mach_ok (litmus_machine rng progs s)"
    and "abs_machine (litmus_machine rng progs s) = (sys_val s, map starts progs)"
proof -
  show "mach_ok (litmus_machine rng progs s)"
    using assms by (auto simp: mach_ok_def litmus_machine_def fifo_ok_def sb_ok_def fresh_buffer_def
        validate_core_eq sb_size_def)
  have "map starts progs = map (\<lambda>k. starts (progs ! k)) [0..<length progs]"
    by (rule nth_equalityI) simp_all
  then show "abs_machine (litmus_machine rng progs s) = (sys_val s, map starts progs)"
    by (simp add: abs_machine_def litmus_machine_def abs_thread_def starts_def fresh_buffer_def comp_def)
qed

text \<open>A run of a litmus program is a run of the specification from the same programs.\<close>

lemma litmus_run:
  assumes "mach_step\<^sup>*\<^sup>* (litmus_machine rng progs s) m" and "sys_ok s" and "int (length progs) \<le> n_cores s"
  shows "tso_step\<^sup>*\<^sup>* (sys_val s, map starts progs) (abs_machine m)"
  using mach_refines [OF assms(1) litmus_machine_ok(1) [OF assms(2,3)]] litmus_machine_ok(2) [OF assms(2,3)]
  by simp

lemma litmus_invariant:
  assumes "mach_step\<^sup>*\<^sup>* (litmus_machine rng progs s) m" and "sys_ok s" and "int (length progs) \<le> n_cores s"
    and "P (sys_val s, map starts progs)" and "\<And>st st'. tso_step st st' \<Longrightarrow> P st \<Longrightarrow> P st'"
  shows "P (abs_machine m)"
  by (rule rtranclp_invariant [where P = P, OF litmus_run [OF assms(1-3)] assms(4,5)])

lemma fenced_excludes:
  assumes "mach_step\<^sup>*\<^sup>* (litmus_machine rng [raise_and_look x y, raise_and_look y x] s) m"
    and "sys_ok s" and "2 \<le> n_cores s" and "x \<noteq> y"
  shows "map th_regs (m_threads m) \<noteq> [[0], [0]]"
proof -
  have "sb_inv x y (abs_machine m)"
    by (rule litmus_invariant [OF assms(1,2)]) (use assms(3,4) sb_inv_init sb_inv_step in auto)
  then obtain t0 t1 where "map abs_thread (m_threads m) = [t0, t1]" "\<not> (t_regs t0 = [0] \<and> t_regs t1 = [0])"
    by (auto simp: sb_inv_def abs_machine_def)
  then show ?thesis by (auto simp: abs_thread_def map_eq_Cons_conv)
qed

lemma published_seen:
  assumes "mach_step\<^sup>*\<^sup>* (litmus_machine rng [publish x f v, consume x f] s) m"
    and "sys_ok s" and "2 \<le> n_cores s" and "x \<noteq> f" and "sys_val s f \<noteq> 1"
    and "finished m" and "map th_regs (m_threads m) = [[], [1, w]]"
  shows "w = v"
proof -
  have "mp_inv x f v (abs_machine m)"
    by (rule litmus_invariant [OF assms(1,2)]) (use assms(3-5) mp_inv_init mp_inv_step in auto)
  then obtain t0 t1 mm where "map abs_thread (m_threads m) = [t0, t1]" "consuming mm x f v t1"
    by (auto simp: mp_inv_def abs_machine_def)
  with assms(6,7) show ?thesis
    by (auto simp: abs_thread_def map_eq_Cons_conv consuming_def finished_def starts_def consume_def)
qed

text \<open>Without fences both cores may miss the other's flag: both stores wait in the buffers.\<close>

lemma mach_store_buffered:
  assumes "k < length (m_threads m)" and "th_prog (m_threads m ! k) = I_store a v # p"
    and "sb_buf (th_sb (m_threads m ! k)) = []" and "sb_depth (th_sb (m_threads m ! k)) = 8"
  shows "mach_step m (put_thread k p (th_regs (m_threads m ! k))
     ((th_sb (m_threads m ! k))\<lparr>sb_buf := [\<lparr>e_addr = a, e_val = v\<rparr>]\<rparr>, m_sys m) m)"
  by (rule mach_store [OF assms(1,2)])
    (use assms(3,4) in \<open>simp add: TSODut_store_def StoreBuffer_store_def sb_size_def int_of_size\<close>)

lemma mach_load_view:
  assumes "mach_ok m" and "k < length (m_threads m)" and "th_prog (m_threads m ! k) = I_load a # p"
  shows "\<exists>d. mach_step m (put_thread k p (th_regs (m_threads m ! k) @ [owner_view (dut_of k m) a]) d m)
     \<and> sys_val (snd d) = sys_val (m_sys m)"
proof -
  from TSODut_load_fifo [OF mach_okD [OF assms(1,2)], of a] obtain d where
    d: "TSODut_load a (dut_of k m) = Inr (owner_view (dut_of k m) a, d)" "sys_val (snd d) = sys_val (m_sys m)"
    by auto
  then show ?thesis using mach_load [OF assms(2,3) d(1)] by blast
qed

lemma put_thread_simps [simp]:
  "length (m_threads (put_thread k p rs d m)) = length (m_threads m)"
  "m_sys (put_thread k p rs d m) = snd d"
  "j < length (m_threads m) \<Longrightarrow> m_threads (put_thread k p rs d m) ! j
     = (if j = k then \<lparr>th_prog = p, th_regs = rs, th_sb = fst d\<rparr> else m_threads m ! j)"
  by (auto simp: put_thread_def nth_list_update_if)

lemma unfenced_misses:
  assumes "sys_ok s" and "2 \<le> n_cores s" and "x \<noteq> y" and "sys_val s x = 0" and "sys_val s y = 0"
  shows "\<exists>m. mach_step\<^sup>*\<^sup>* (litmus_machine rng [raise_unfenced x y, raise_unfenced y x] s) m
     \<and> finished m \<and> map th_regs (m_threads m) = [[0], [0]]"
proof -
  define m0 where "m0 = litmus_machine rng [raise_unfenced x y, raise_unfenced y x] s"
  have m0: "length (m_threads m0) = 2" "m_sys m0 = s" "mach_ok m0"
    "m_threads m0 ! 0 = \<lparr>th_prog = [I_store x 1, I_load y], th_regs = [], th_sb = fresh_buffer rng 0\<rparr>"
    "m_threads m0 ! 1 = \<lparr>th_prog = [I_store y 1, I_load x], th_regs = [], th_sb = fresh_buffer rng 1\<rparr>"
    using litmus_machine_ok(1) [OF assms(1), of "[raise_unfenced x y, raise_unfenced y x]"] assms(2)
    by (simp_all add: m0_def litmus_machine_def raise_unfenced_def)
  define m1 where "m1 = put_thread 0 [I_load y] []
     ((fresh_buffer rng 0)\<lparr>sb_buf := [\<lparr>e_addr = x, e_val = 1\<rparr>]\<rparr>, s) m0"
  have s1: "mach_step m0 m1"
    using mach_store_buffered [of 0 m0 x 1 "[I_load y]"] m0 by (simp add: m1_def fresh_buffer_def)
  define m2 where "m2 = put_thread 1 [I_load x] []
     ((fresh_buffer rng 1)\<lparr>sb_buf := [\<lparr>e_addr = y, e_val = 1\<rparr>]\<rparr>, s) m1"
  have s2: "mach_step m1 m2"
    using mach_store_buffered [of 1 m1 y 1 "[I_load x]"] m0 by (simp add: m1_def m2_def fresh_buffer_def)
  have ok: "mach_ok m2" using mach_step_refines [OF m0(3) s1] mach_step_refines [of m1 m2] s2 by blast
  have v2: "owner_view (dut_of 0 m2) y = 0"
    using m0(1) assms(3,5) by (simp add: m1_def m2_def owner_view_def)
  obtain d where s3: "mach_step m2 (put_thread 0 [] [0] d m2)" and d: "sys_val (snd d) = sys_val s"
    using mach_load_view [OF ok, of 0 y "[]"] v2 m0(1) by (auto simp: m1_def m2_def)
  let ?m3 = "put_thread 0 [] [0] d m2"
  have v3: "owner_view (dut_of 1 ?m3) x = 0"
    using m0(1) assms(3,4) d by (simp add: m1_def m2_def owner_view_def)
  obtain d' where s4: "mach_step ?m3 (put_thread 1 [] [0] d' ?m3)"
    using mach_load_view [of ?m3 1 x "[]"] mach_step_refines [OF ok s3] v3 m0(1)
    by (auto simp: m1_def m2_def)
  let ?m4 = "put_thread 1 [] [0] d' ?m3"
  have "length (m_threads ?m4) = 2" using m0(1) by (simp add: m1_def m2_def)
  then have "m_threads ?m4 = [m_threads ?m4 ! 0, m_threads ?m4 ! 1]" by (rule two_elements)
  also have "\<dots> = [\<lparr>th_prog = [], th_regs = [0], th_sb = fst d\<rparr>, \<lparr>th_prog = [], th_regs = [0], th_sb = fst d'\<rparr>]"
    using m0(1) by (simp add: m1_def m2_def)
  finally have "finished ?m4 \<and> map th_regs (m_threads ?m4) = [[0], [0]]" by (simp add: finished_def)
  moreover have "mach_step\<^sup>*\<^sup>* m0 ?m4"
    by (rule converse_rtranclp_into_rtranclp [of mach_step, OF s1
        converse_rtranclp_into_rtranclp [of mach_step, OF s2
          converse_rtranclp_into_rtranclp [of mach_step, OF s3 r_into_rtranclp [of mach_step, OF s4]]]])
  ultimately have "mach_step\<^sup>*\<^sup>* m0 ?m4 \<and> finished ?m4 \<and> map th_regs (m_threads ?m4) = [[0], [0]]" by simp
  then show ?thesis unfolding m0_def by (rule exI)
qed

section \<open>Runs by schedule\<close>

text \<open>An executable form of the steps: a choice names the core and whether it drains or runs its program.\<close>

definition mach_act :: "nat \<times> bool \<Rightarrow> machine \<Rightarrow> machine option" where
  "mach_act c m = (case c of (k, drain) \<Rightarrow>
     if \<not> k < length (m_threads m) then None
     else let t = m_threads m ! k in
       if drain then (case drain_one (th_sb t) (m_sys m) of Inl _ \<Rightarrow> None
          | Inr d \<Rightarrow> Some (put_thread k (th_prog t) (th_regs t) d m))
       else (case th_prog t of
            [] \<Rightarrow> None
          | I_store a v # p \<Rightarrow> (case TSODut_store a v (dut_of k m) of Inl _ \<Rightarrow> None
              | Inr d \<Rightarrow> Some (put_thread k p (th_regs t) d m))
          | I_load a # p \<Rightarrow> (case TSODut_load a (dut_of k m) of Inl _ \<Rightarrow> None
              | Inr (v, d) \<Rightarrow> Some (put_thread k p (th_regs t @ [v]) d m))
          | I_fence # p \<Rightarrow> if sb_empty (th_sb t) then Some (put_thread k p (th_regs t) (dut_of k m) m)
              else (case mfence_iter (th_sb t) (m_sys m) of Inl _ \<Rightarrow> None
                 | Inr d \<Rightarrow> Some (put_thread k (I_fence # p) (th_regs t) d m))))"

fun mach_run :: "(nat \<times> bool) list \<Rightarrow> machine \<Rightarrow> machine option" where
  "mach_run [] m = Some m"
| "mach_run (c # cs) m = (case mach_act c m of None \<Rightarrow> None | Some m' \<Rightarrow> mach_run cs m')"

lemma mach_act_step: "mach_act c m = Some m' \<Longrightarrow> mach_step m m'"
  by (auto simp: mach_act_def Let_def split: prod.splits if_splits list.splits instr.splits sum.splits
      intro: mach_step.intros)

lemma mach_run_steps: "mach_run cs m = Some m' \<Longrightarrow> mach_step\<^sup>*\<^sup>* m m'"
  by (induction cs arbitrary: m) (auto split: option.splits intro: mach_act_step converse_rtranclp_into_rtranclp)

lemmas [exec_simps] = mach_act_def put_thread_def litmus_machine_def fresh_buffer_def finished_def

end
