(* ===== verification/Litmus_Trials.thy ===== *)
theory Litmus_Trials
  imports Tso_Machine
begin

text \<open>
  The trials of the store-buffering litmus in \<^verbatim>\<open>emit_tso_litmus_csv\<close> (\<^verbatim>\<open>model/model_main.cpp\<close>). The
  threads of a trial drain a buffer only through \<^verbatim>\<open>store\<close> and \<^verbatim>\<open>mfence\<close>; nothing runs in the background,
  and what a buffer still holds when a trial ends is discarded with the buffer. So the steps are those of
  \<open>Tso_Machine\<close> without its background drains. Every program comes to its end, and the outcome of the
  trials is determined: with fences none of them counts as a violation, without fences all of them do.
\<close>

section \<open>Steps of the code\<close>

definition code_step :: "machine \<Rightarrow> machine \<Rightarrow> bool" where
  "code_step m m' \<longleftrightarrow> (\<exists>k. mach_act (k, False) m = Some m')"

lemma code_step_mach: "code_step\<^sup>*\<^sup>* m m' \<Longrightarrow> mach_step\<^sup>*\<^sup>* m m'"
  by (induction rule: rtranclp_induct)
    (auto simp: code_step_def intro: mach_act_step rtranclp.rtrancl_into_rtrancl)

lemma mach_step_frame:
  assumes "mach_ok m" and "mach_step m m'"
  shows "validate_core (m_sys m') = validate_core (m_sys m) \<and> length (m_threads m') = length (m_threads m)"
  using assms(2)
proof cases
  case (mach_store k a v p d)
  with fifo_store_cases [OF mach_okD [OF assms(1) mach_store(2)] mach_store(4)] show ?thesis by simp
next
  case (mach_load k a p v d)
  with fifo_load_cases [OF mach_okD [OF assms(1) mach_load(2)] mach_load(4)] show ?thesis by simp
next
  case (mach_fence_iter k p d)
  then obtain e es where "sb_buf (th_sb (m_threads m ! k)) = e # es" by (auto simp: sb_empty_def neq_Nil_conv)
  with mach_fence_iter fifo_drain_cases [OF mach_okD [OF assms(1) mach_fence_iter(2)]] show ?thesis by simp
next
  case (mach_drain k d)
  show ?thesis
  proof (cases "sb_buf (th_sb (m_threads m ! k))")
    case Nil
    with mach_drain show ?thesis by (auto simp: drain_one_def sb_empty_def)
  next
    case (Cons e es)
    with mach_drain fifo_drain_cases [OF mach_okD [OF assms(1) mach_drain(2)]] show ?thesis by simp
  qed
qed simp

lemma mach_run_frame:
  assumes "mach_step\<^sup>*\<^sup>* m m'" and "mach_ok m"
  shows "mach_ok m' \<and> validate_core (m_sys m') = validate_core (m_sys m) \<and> length (m_threads m') = length (m_threads m)"
  using assms
proof (induction rule: rtranclp_induct)
  case (step m1 m2)
  with mach_step_refines [of m1 m2] mach_step_frame [of m1 m2] show ?case by simp
qed simp

section \<open>Every program ends\<close>

text \<open>An instruction weighs more than the entry it may leave in the buffer.\<close>

definition work :: "thread \<Rightarrow> nat" where
  "work t = 2 * length (th_prog t) + length (sb_buf (th_sb t))"

lemma put_thread_work:
  assumes "k < length (m_threads m)" and "2 * length p + length (sb_buf (fst d)) < work (m_threads m ! k)"
  shows "(\<Sum>t\<leftarrow>m_threads (put_thread k p rs d m). work t) < (\<Sum>t\<leftarrow>m_threads m. work t)"
  using sum_list_map_update [OF assms(1), of work "\<lparr>th_prog = p, th_regs = rs, th_sb = fst d\<rparr>"] assms(2)
  by (simp add: put_thread_def work_def [of "\<lparr>th_prog = p, th_regs = rs, th_sb = fst d\<rparr>"])

lemma code_progress:
  assumes "mach_ok m" and "\<not> finished m"
  shows "\<exists>m'. code_step m m' \<and> (\<Sum>t\<leftarrow>m_threads m'. work t) < (\<Sum>t\<leftarrow>m_threads m. work t)"
proof -
  obtain k i p where k: "k < length (m_threads m)" "th_prog (m_threads m ! k) = i # p"
    using assms(2) by (auto simp: finished_def in_set_conv_nth neq_Nil_conv)
  let ?t = "m_threads m ! k"
  note ok = mach_okD [OF assms(1) k(1)]
  have step: "\<exists>m'. code_step m m' \<and> (\<Sum>t\<leftarrow>m_threads m'. work t) < (\<Sum>t\<leftarrow>m_threads m. work t)"
    if "mach_act (k, False) m = Some (put_thread k q rs d m)" "2 * length q + length (sb_buf (fst d)) < work ?t" for q rs d
    using that put_thread_work [OF k(1) that(2), of rs] unfolding code_step_def by blast
  show ?thesis
  proof (cases i)
    case (I_store a v)
    obtain d where d: "TSODut_store a v (dut_of k m) = Inr d" using TSODut_store_fifo [OF ok, of a v] by auto
    have "length (sb_buf (fst d)) \<le> Suc (length (sb_buf (th_sb ?t)))"
      using fifo_store_cases [OF ok d] by (auto dest: arg_cong [of _ _ length])
    with d k I_store show ?thesis by (intro step [of p "th_regs ?t" d]) (simp_all add: mach_act_def Let_def work_def)
  next
    case (I_load a)
    obtain v d where d: "TSODut_load a (dut_of k m) = Inr (v, d)" using TSODut_load_fifo [OF ok, of a] by auto
    with fifo_load_cases [OF ok d] k I_load show ?thesis
      by (intro step [of p "th_regs ?t @ [v]" d]) (simp_all add: mach_act_def Let_def work_def)
  next
    case I_fence
    show ?thesis
    proof (cases "sb_buf (th_sb ?t)")
      case Nil
      with k I_fence show ?thesis
        by (intro step [of p "th_regs ?t" "dut_of k m"]) (simp_all add: mach_act_def Let_def work_def sb_empty_def)
    next
      case (Cons e es)
      then obtain d where d: "mfence_iter (th_sb ?t) (m_sys m) = Inr d" using mfence_iter_ok [of "th_sb ?t" "m_sys m"] ok
        by (auto simp: fifo_ok_def)
      with fifo_drain_cases [OF ok Cons] k I_fence Cons show ?thesis
        by (intro step [of "I_fence # p" "th_regs ?t" d]) (simp_all add: mach_act_def Let_def work_def sb_empty_def)
    qed
  qed
qed

lemma code_finishes:
  assumes "mach_ok m"
  shows "\<exists>m'. code_step\<^sup>*\<^sup>* m m' \<and> finished m'"
  using assms
proof (induction "\<Sum>t\<leftarrow>m_threads m. work t" arbitrary: m rule: less_induct)
  case less
  show ?case
  proof (cases "finished m")
    case False
    with code_progress [OF less.prems] obtain m1 where
      m1: "code_step m m1" "(\<Sum>t\<leftarrow>m_threads m1. work t) < (\<Sum>t\<leftarrow>m_threads m. work t)" by blast
    have "mach_ok m1" using mach_step_refines [OF less.prems, of m1] m1(1) by (auto simp: code_step_def dest: mach_act_step)
    from less.hyps [OF m1(2) this] m1(1) show ?thesis by (meson converse_rtranclp_into_rtranclp)
  qed blast
qed

section \<open>Trials\<close>

definition litmus_program :: "bool \<Rightarrow> u32 \<Rightarrow> u32 \<Rightarrow> instr list" where
  "litmus_program fenced mine other = (if fenced then raise_and_look mine other else raise_unfenced mine other)"

definition both_missed :: "machine \<Rightarrow> bool" where
  "both_missed m \<longleftrightarrow> map th_regs (m_threads m) = [[0], [0]]"

inductive litmus_trial :: "(nat \<Rightarrow> u64) \<Rightarrow> bool \<Rightarrow> MesiSystem \<times> int \<Rightarrow> MesiSystem \<times> int \<Rightarrow> bool"
  for rng fenced where
  litmus: "sbind (MesiSystem_write 0 0x2000 0 s) (MesiSystem_write 0 0x2040 0) = Inr s1
    \<Longrightarrow> code_step\<^sup>*\<^sup>* (litmus_machine rng [litmus_program fenced 0x2000 0x2040, litmus_program fenced 0x2040 0x2000] s1) m
    \<Longrightarrow> finished m
    \<Longrightarrow> litmus_trial rng fenced (s, viol) (m_sys m, if both_missed m then viol + 1 else viol)"

definition litmus_setup :: "exn + MesiSystem" where
  "litmus_setup = sbind (MesiSystem_new 2) (\<lambda>s. Inr (MesiSystem_register 0x2040 (MesiSystem_register 0x2000 s)))"

text \<open>The state of a system between trials.\<close>

definition litmus_ready :: "MesiSystem \<Rightarrow> bool" where
  "litmus_ready s \<longleftrightarrow> sys_ok s \<and> n_cores s = 2"

lemma litmus_setup_ready: "\<exists>s. litmus_setup = Inr s \<and> litmus_ready s"
proof -
  obtain s where s: "MesiSystem_new 2 = Inr s" by (simp add: MesiSystem_new_def checked_core_count_def)
  have "sys_ok s" "n_cores s = 2" using MesiSystem_newD [OF s] by simp_all
  with exec_calls_refines [of s "[Call_register 0x2000, Call_register 0x2040]"] s show ?thesis
    by (auto simp: litmus_setup_def litmus_ready_def)
qed

lemma litmus_clear:
  assumes "litmus_ready s"
  shows "\<exists>s1. sbind (MesiSystem_write 0 0x2000 0 s) (MesiSystem_write 0 0x2040 0) = Inr s1 \<and> litmus_ready s1
    \<and> sys_val s1 0x2000 = 0 \<and> sys_val s1 0x2040 = 0"
proof -
  have v: "sys_ok s" "validate_core s 0" using assms by (simp_all add: litmus_ready_def validate_core_eq)
  obtain s1 where s1: "MesiSystem_write 0 0x2000 0 s = Inr s1" "sys_ok s1" "sys_val s1 = (sys_val s)(0x2000 := 0)"
    "validate_core s1 = validate_core s" using MesiSystem_write_ok [OF v, of "0x2000" 0] by auto
  obtain s2 where s2: "MesiSystem_write 0 0x2040 0 s1 = Inr s2" "sys_ok s2" "sys_val s2 = (sys_val s1)(0x2040 := 0)"
    "validate_core s2 = validate_core s1" using MesiSystem_write_ok [OF s1(2), of 0 "0x2040" 0] s1(4) v(2) by auto
  have "n_cores s2 = n_cores s" by (rule n_cores_eqI) (simp add: s1(4) s2(4))
  with s1 s2 assms show ?thesis by (simp add: litmus_ready_def)
qed

abbreviation litmus_start :: "(nat \<Rightarrow> u64) \<Rightarrow> bool \<Rightarrow> MesiSystem \<Rightarrow> machine" where
  "litmus_start rng fenced s \<equiv>
     litmus_machine rng [litmus_program fenced 0x2000 0x2040, litmus_program fenced 0x2040 0x2000] s"

lemma litmus_start_ok: "litmus_ready s \<Longrightarrow> mach_ok (litmus_start rng fenced s)"
  by (rule litmus_machine_ok(1)) (simp_all add: litmus_ready_def)

lemma litmus_run_ready:
  assumes "code_step\<^sup>*\<^sup>* (litmus_start rng fenced s) m" and "litmus_ready s"
  shows "litmus_ready (m_sys m)"
proof -
  from mach_run_frame [OF code_step_mach [OF assms(1)] litmus_start_ok [OF assms(2)]]
  have m: "mach_ok m" "validate_core (m_sys m) = validate_core s" "length (m_threads m) = 2"
    by (simp_all add: litmus_machine_def)
  have "sys_ok (m_sys m)" using mach_okD [OF m(1), of 0] m(3) by (simp add: fifo_ok_def sb_ok_def)
  with n_cores_eqI [OF m(2)] assms(2) show ?thesis by (simp add: litmus_ready_def)
qed

section \<open>The unfenced litmus\<close>

text \<open>Without a fence no store leaves its buffer.\<close>

definition unfenced_thread :: "u32 \<Rightarrow> u32 \<Rightarrow> thread \<Rightarrow> bool" where
  "unfenced_thread x y t \<longleftrightarrow>
     sb_depth (th_sb t) = 8 \<and> th_prog t = [I_store x 1, I_load y] \<and> th_regs t = [] \<and> sb_buf (th_sb t) = []
   \<or> th_prog t = [I_load y] \<and> th_regs t = [] \<and> sb_buf (th_sb t) = [\<lparr>e_addr = x, e_val = 1\<rparr>]
   \<or> th_prog t = [] \<and> th_regs t = [0]"

lemma unfenced_act:
  assumes "mach_ok m" and "k < length (m_threads m)" and "unfenced_thread x y (m_threads m ! k)" and "x \<noteq> y"
    and "sys_val (m_sys m) y = 0" and "mach_act (k, False) m = Some m'"
  shows "sys_val (m_sys m') = sys_val (m_sys m) \<and> (\<exists>t. m_threads m' = (m_threads m)[k := t] \<and> unfenced_thread x y t)"
proof -
  let ?t = "m_threads m ! k"
  note ok = mach_okD [OF assms(1,2)]
  from assms(3,6) consider
      "sb_depth (th_sb ?t) = 8" "th_prog ?t = [I_store x 1, I_load y]" "th_regs ?t = []" "sb_buf (th_sb ?t) = []"
    | "th_prog ?t = [I_load y]" "th_regs ?t = []" "sb_buf (th_sb ?t) = [\<lparr>e_addr = x, e_val = 1\<rparr>]"
    by (auto simp: unfenced_thread_def mach_act_def Let_def split: if_splits)
  then show ?thesis
  proof cases
    case 1
    then have "TSODut_store x 1 (dut_of k m) = Inr ((th_sb ?t)\<lparr>sb_buf := [\<lparr>e_addr = x, e_val = 1\<rparr>]\<rparr>, m_sys m)"
      by (simp add: TSODut_store_def StoreBuffer_store_def sb_size_def int_of_size)
    with 1 assms(2,6) show ?thesis by (auto simp: mach_act_def Let_def put_thread_def unfenced_thread_def)
  next
    case 2
    then obtain v d where d: "TSODut_load y (dut_of k m) = Inr (v, d)" "m' = put_thread k [] [v] d m"
      using assms(2,6) by (auto simp: mach_act_def Let_def split: sum.splits)
    from fifo_load_cases [OF ok d(1)] 2 assms(4,5) d(2) show ?thesis
      by (auto simp: put_thread_def unfenced_thread_def apply_stores_def)
  qed
qed

definition unfenced_inv :: "u32 \<Rightarrow> u32 \<Rightarrow> machine \<Rightarrow> bool" where
  "unfenced_inv x y m \<longleftrightarrow> mach_ok m \<and> sys_val (m_sys m) x = 0 \<and> sys_val (m_sys m) y = 0 \<and> length (m_threads m) = 2
     \<and> unfenced_thread x y (m_threads m ! 0) \<and> unfenced_thread y x (m_threads m ! 1)"

lemma unfenced_step:
  assumes "code_step m m'" and "unfenced_inv x y m" and "x \<noteq> y"
  shows "unfenced_inv x y m'"
proof -
  obtain k where k: "mach_act (k, False) m = Some m'" using assms(1) by (auto simp: code_step_def)
  have i: "mach_ok m" "sys_val (m_sys m) x = 0" "sys_val (m_sys m) y = 0" "length (m_threads m) = 2"
    "unfenced_thread x y (m_threads m ! 0)" "unfenced_thread y x (m_threads m ! 1)"
    using assms(2) by (simp_all add: unfenced_inv_def)
  have ok: "mach_ok m'" using mach_step_refines [OF i(1) mach_act_step [OF k]] by blast
  have "k < length (m_threads m)" using k by (auto simp: mach_act_def split: if_splits)
  then consider "k = 0" | "k = 1" using i(4) by linarith
  then show ?thesis
  proof cases
    case 1
    with unfenced_act [OF i(1) _ _ assms(3) i(3), of 0] k i ok show ?thesis by (auto simp: unfenced_inv_def)
  next
    case 2
    with unfenced_act [OF i(1) _ _ _ i(2), of 1 y] k i ok assms(3) show ?thesis by (auto simp: unfenced_inv_def)
  qed
qed

lemma unfenced_start:
  assumes "litmus_ready s" and "sys_val s 0x2000 = 0" and "sys_val s 0x2040 = 0"
  shows "unfenced_inv 0x2000 0x2040 (litmus_start rng False s)"
  using litmus_start_ok [OF assms(1), of rng False] assms(2,3)
  by (simp add: unfenced_inv_def litmus_machine_def litmus_program_def raise_unfenced_def unfenced_thread_def fresh_buffer_def)

lemma unfenced_missed:
  assumes "code_step\<^sup>*\<^sup>* (litmus_start rng False s) m" and "finished m"
    and "litmus_ready s" and "sys_val s 0x2000 = 0" and "sys_val s 0x2040 = 0"
  shows "both_missed m"
proof -
  have i: "unfenced_inv 0x2000 0x2040 m"
    by (rule rtranclp_invariant [where P = "unfenced_inv 0x2000 0x2040", OF assms(1) unfenced_start [OF assms(3-5)]])
      (rule unfenced_step; simp)
  then have l: "length (m_threads m) = 2" by (simp add: unfenced_inv_def)
  have "th_prog (m_threads m ! 0) = []" "th_prog (m_threads m ! 1) = []"
    using assms(2) l by (simp_all add: finished_def)
  then have "th_regs (m_threads m ! 0) = [0]" "th_regs (m_threads m ! 1) = [0]"
    using i by (auto simp: unfenced_inv_def unfenced_thread_def)
  with arg_cong [OF two_elements [OF l], of "map th_regs"] show ?thesis by (simp add: both_missed_def)
qed

section \<open>What the trials count\<close>

lemma litmus_trial_counts:
  assumes "litmus_trial rng fenced st st'" and "litmus_ready (fst st)"
  shows "litmus_ready (fst st') \<and> snd st' = (if fenced then snd st else snd st + 1)"
  using assms(1)
proof cases
  case (litmus s s1 m viol)
  from litmus_clear [of s] assms(2) litmus(1,3) have s1: "litmus_ready s1" "sys_val s1 0x2000 = 0" "sys_val s1 0x2040 = 0"
    by auto
  have "both_missed m \<longleftrightarrow> \<not> fenced"
  proof (cases fenced)
    case True
    have "\<not> both_missed m" unfolding both_missed_def
      by (rule fenced_excludes [where x = "0x2000" and y = "0x2040" and s = s1 and rng = rng])
        (use code_step_mach [OF litmus(4)] s1(1) True in \<open>simp_all add: litmus_program_def litmus_ready_def\<close>)
    with True show ?thesis by simp
  next
    case False
    with unfenced_missed [OF _ litmus(5) s1] litmus(4) show ?thesis by simp
  qed
  with litmus(1,2) litmus_run_ready [OF litmus(4) s1(1)] show ?thesis by simp
qed

lemma litmus_trial_exists:
  assumes "litmus_ready s"
  shows "\<exists>st'. litmus_trial rng fenced (s, viol) st'"
proof -
  from litmus_clear [OF assms] obtain s1 where
    s1: "sbind (MesiSystem_write 0 0x2000 0 s) (MesiSystem_write 0 0x2040 0) = Inr s1" "litmus_ready s1" by blast
  from code_finishes [OF litmus_start_ok [OF s1(2)]] obtain m where
    "code_step\<^sup>*\<^sup>* (litmus_start rng fenced s1) m" "finished m" by blast
  from litmus [OF s1(1) this] show ?thesis by blast
qed

text \<open>A series of trials: none or all of them are violations.\<close>

lemma litmus_chain:
  assumes "chain (\<lambda>_. litmus_trial rng fenced) xs st st'" and "litmus_ready (fst st)"
  shows "litmus_ready (fst st') \<and> snd st' = (if fenced then snd st else snd st + int (length xs))"
  using assms
proof (induction xs arbitrary: st)
  case (Cons x xs)
  from Cons.prems(1) obtain st1 where st1: "litmus_trial rng fenced st st1" "chain (\<lambda>_. litmus_trial rng fenced) xs st1 st'"
    by auto
  from litmus_trial_counts [OF st1(1) Cons.prems(2)] Cons.IH [OF st1(2)] show ?case by auto
qed simp

end
