(* ===== verification/Sc_Checker.thy ===== *)
theory Sc_Checker
  imports Mesi_System
begin

text \<open>
  The sequential-consistency checkers of \<^verbatim>\<open>model/sc_checker.cpp\<close>: the linear check of the recorded
  serialization order, and the backtracking search for some order that respects the program order
  of every core. \<^verbatim>\<open>std::sort\<close> leaves the order of events with equal keys unspecified, so the checkers take
  the sorting function as an argument: any function that returns its list in the order of the keys (\<open>sort_ok\<close>).
\<close>

section \<open>Sorting\<close>

type_synonym sorter = "(TraceEvent \<Rightarrow> u64) \<Rightarrow> Trace \<Rightarrow> Trace"

definition sort_ok :: "sorter \<Rightarrow> bool" where
  "sort_ok srt \<longleftrightarrow> (\<forall>k t. mset (srt k t) = mset t \<and> sorted (map k (srt k t)))"

lemma sort_okD:
  assumes "sort_ok srt"
  shows "mset (srt k t) = mset t" "set (srt k t) = set t" "length (srt k t) = length t" "sorted (map k (srt k t))"
  using assms mset_eq_setD [of "srt k t" t] mset_eq_length [of "srt k t" t] by (auto simp: sort_ok_def)

lemma sort_ok_stable: "sort_ok sort_key"
  by (simp add: sort_ok_def)

text \<open>With distinct keys there is no choice.\<close>

lemma sort_ok_unique:
  assumes "sort_ok srt" and "mset u = mset t" and "sorted_wrt (<) (map k u)"
  shows "srt k t = u"
proof -
  have u: "sorted (map k u)" "distinct (map k u)" using assms(3) by (simp_all add: strict_sorted_iff)
  have inj: "inj_on k (set (srt k t))"
    using u(2) sort_okD(2) [OF assms(1), of k t] mset_eq_setD [OF assms(2)] by (simp add: distinct_map)
  have "sort_key k (srt k t) = u"
    by (rule sort_key_inj_key_eq [OF _ inj u(1)]) (simp add: sort_okD(1) [OF assms(1)] assms(2))
  moreover have "sort_key k (srt k t) = srt k t" by (rule sort_key_id_if_sorted [OF sort_okD(4) [OF assms(1)]])
  ultimately show ?thesis by simp
qed

section \<open>The linear check\<close>

record SCResult =
  ok :: bool
  detail :: string

definition lookup0 :: "(u32 \<rightharpoonup> u32) \<Rightarrow> u32 \<Rightarrow> u32" where
  "lookup0 mem a = (case mem a of None \<Rightarrow> 0 | Some v \<Rightarrow> v)"

fun check_events :: "nat \<Rightarrow> Trace \<Rightarrow> (u32 \<rightharpoonup> u32) \<Rightarrow> SCResult" where
  "check_events n [] mem =
     \<lparr>ok = True, detail = ''trace is sequentially consistent ('' @ dec_of_nat n @ '' ops)''\<rparr>"
| "check_events n (e # es) mem =
     (if ev_op e = OpWrite then check_events n es (mem(ev_addr e \<mapsto> ev_value e))
      else
        let expect = lookup0 mem (ev_addr e)
        in if ev_value e \<noteq> expect
           then \<lparr>ok = False, detail =
                  ''SC violation: core '' @ dec_of_int (core_id e) @ '' read addr 0x''
                  @ hex_of_nat (unat (ev_addr e)) @ '' got '' @ dec_of_nat (unat (ev_value e))
                  @ '' but most-recent-write value is '' @ dec_of_nat (unat expect)
                  @ '' (ts='' @ dec_of_nat (unat (timestamp e)) @ '')''\<rparr>
           else check_events n es mem)"

definition check_serial_order :: "sorter \<Rightarrow> Trace \<Rightarrow> SCResult" where
  "check_serial_order srt trace_in =
     (let t = srt timestamp trace_in in check_events (length t) t Map.empty)"

section \<open>The search\<close>

text \<open>The events not yet placed shrink with every recursive call, the cores left with every iteration.\<close>

definition unplaced :: "Trace list \<Rightarrow> (nat \<Rightarrow> nat) \<Rightarrow> nat" where
  "unplaced cores idx = (\<Sum>k < length cores. length (cores ! k) - idx k)"

lemma unplaced_step:
  assumes "c < length cores" and "idx c < length (cores ! c)"
  shows "unplaced cores (idx(c := Suc (idx c))) < unplaced cores idx"
  unfolding unplaced_def
  by (rule sum_strict_mono_ex1) (use assms in \<open>auto intro!: bexI [of _ c]\<close>)

text \<open>
  \<^verbatim>\<open>Searcher::dfs\<close>: \<open>c\<close> and \<open>all_done\<close> are the locals of the loop over the cores. The cursor \<^verbatim>\<open>idx[c]\<close>
  is incremented for the recursive call and decremented again on every path after it, so the
  callee gets the incremented vector and the caller keeps its own; \<^verbatim>\<open>mem\<close> is a reference that the
  callee may leave changed, so it is threaded through.
\<close>

function dfs_loop ::
    "Trace list \<Rightarrow> nat \<Rightarrow> bool \<Rightarrow> (nat \<Rightarrow> nat) \<Rightarrow> (u32 \<rightharpoonup> u32) \<Rightarrow> bool \<times> (u32 \<rightharpoonup> u32)" where
  "dfs_loop cores c all_done idx mem =
     (if length cores \<le> c then (all_done, mem)
      else if length (cores ! c) \<le> idx c then dfs_loop cores (Suc c) all_done idx mem
      else
        let e = cores ! c ! idx c
        in if ev_op e = OpRead then
             (let cur = lookup0 mem (ev_addr e)
              in if cur \<noteq> ev_value e then dfs_loop cores (Suc c) False idx mem
                 else
                   let (found, mem') = dfs_loop cores 0 True (idx(c := idx c + 1)) mem
                   in if found then (True, mem') else dfs_loop cores (Suc c) False idx mem')
           else
             (let saved = lookup0 mem (ev_addr e);
                  had = (mem (ev_addr e) \<noteq> None);
                  (found, mem') =
                    dfs_loop cores 0 True (idx(c := idx c + 1)) (mem(ev_addr e \<mapsto> ev_value e))
              in if found then (True, mem')
                 else dfs_loop cores (Suc c) False idx
                        (if had then mem'(ev_addr e \<mapsto> saved) else mem'(ev_addr e := None))))"
  by pat_completeness auto
termination
  by (relation "measures [\<lambda>(cores, c, d, idx, m). unplaced cores idx,
      \<lambda>(cores, c, d, idx, m). length cores - c]") (auto simp: unplaced_step)

declare dfs_loop.simps [simp del]

definition dfs :: "Trace list \<Rightarrow> (nat \<Rightarrow> nat) \<Rightarrow> (u32 \<rightharpoonup> u32) \<Rightarrow> bool \<times> (u32 \<rightharpoonup> u32)" where
  "dfs cores idx mem = dfs_loop cores 0 True idx mem"

text \<open>
  Undefined behaviour is \<open>None\<close>: \<^verbatim>\<open>max_core + 1\<close> overflows when a core id is the largest \<^verbatim>\<open>int\<close>, and a negative
  core id in \<^verbatim>\<open>s.cores[e.core_id]\<close> is outside the vector.
\<close>

definition bucket :: "TraceEvent \<Rightarrow> Trace list \<Rightarrow> Trace list" where
  "bucket e cores = cores[nat (core_id e) := cores ! nat (core_id e) @ [e]]"

definition exists_sc_order :: "sorter \<Rightarrow> Trace \<Rightarrow> bool option" where
  "exists_sc_order srt trace =
     (let max_core = fold (\<lambda>e m. max m (core_id e)) trace (- 1)
      in if max_core < 0 then Some True
         else if max_core + 1 \<ge> 2 ^ 31 then None
         else if \<exists>e \<in> set trace. core_id e < 0 then None
         else
           let cores = fold bucket trace (replicate (nat (max_core + 1)) []);
               cores = map (srt program_idx) cores
           in Some (fst (dfs cores (\<lambda>_. 0) Map.empty)))"

section \<open>Replaying an order of events\<close>

text \<open>
  The specification of both checkers: replay a total order of events on a flat memory. Writes
  store; a read must return the current value. \<open>None\<close> is a read of another value.
\<close>

fun replay :: "(u32 \<Rightarrow> u32) \<Rightarrow> Trace \<Rightarrow> (u32 \<Rightarrow> u32) option" where
  "replay m [] = Some m"
| "replay m (e # es) =
     (if ev_op e = OpWrite then replay (m(ev_addr e := ev_value e)) es
      else if m (ev_addr e) = ev_value e then replay m es else None)"

abbreviation zeroed :: "u32 \<Rightarrow> u32" where
  "zeroed \<equiv> \<lambda>_. 0"

lemma lookup0_simps [simp]:
  "lookup0 Map.empty = zeroed"
  "lookup0 (mem(a \<mapsto> v)) = (lookup0 mem)(a := v)"
  by (auto simp: lookup0_def fun_eq_iff)

lemma replay_append: "replay m (xs @ ys) = Option.bind (replay m xs) (\<lambda>m'. replay m' ys)"
  by (induction xs arbitrary: m) auto

lemma check_events_replay: "ok (check_events n t mem) \<longleftrightarrow> replay (lookup0 mem) t \<noteq> None"
  by (induction t arbitrary: mem) (auto simp: Let_def)

lemma check_serial_order_replay:
  "ok (check_serial_order srt t) \<longleftrightarrow> replay zeroed (srt timestamp t) \<noteq> None"
  by (simp add: check_serial_order_def Let_def check_events_replay)

section \<open>Interleavings\<close>

text \<open>A list that takes, one element at a time, the head of one of the lists until all are used up.\<close>

inductive interleaves :: "'a list list \<Rightarrow> 'a list \<Rightarrow> bool" where
  inter_done: "(\<And>k. k < length xss \<Longrightarrow> xss ! k = []) \<Longrightarrow> interleaves xss []"
| inter_take: "k < length xss \<Longrightarrow> xss ! k = x # xs \<Longrightarrow> interleaves (xss[k := xs]) ys
    \<Longrightarrow> interleaves xss (x # ys)"

inductive_cases interleaves_NilE: "interleaves xss []"
inductive_cases interleaves_ConsE: "interleaves xss (x # ys)"

text \<open>The lists left for the search at a cursor.\<close>

definition left :: "'a list list \<Rightarrow> (nat \<Rightarrow> nat) \<Rightarrow> 'a list list" where
  "left cores idx = map (\<lambda>k. drop (idx k) (cores ! k)) [0..<length cores]"

lemma length_left [simp]: "length (left cores idx) = length cores"
  by (simp add: left_def)

lemma left_nth [simp]: "k < length cores \<Longrightarrow> left cores idx ! k = drop (idx k) (cores ! k)"
  by (simp add: left_def)

lemma left_step:
  assumes "k < length cores" and "idx k < length (cores ! k)"
  shows "(left cores idx)[k := drop (Suc (idx k)) (cores ! k)] = left cores (idx(k := Suc (idx k)))"
  by (rule nth_equalityI) (use assms in \<open>auto simp: nth_list_update\<close>)

definition searchable :: "Trace list \<Rightarrow> (nat \<Rightarrow> nat) \<Rightarrow> (u32 \<Rightarrow> u32) \<Rightarrow> bool" where
  "searchable cores idx m \<longleftrightarrow> (\<exists>t. interleaves (left cores idx) t \<and> replay m t \<noteq> None)"

text \<open>Placing one event: a read must agree with the memory, a write updates it.\<close>

definition placeable :: "TraceEvent \<Rightarrow> (u32 \<Rightarrow> u32) \<Rightarrow> bool" where
  "placeable e m \<longleftrightarrow> ev_op e = OpWrite \<or> m (ev_addr e) = ev_value e"

definition placed :: "TraceEvent \<Rightarrow> (u32 \<Rightarrow> u32) \<Rightarrow> (u32 \<Rightarrow> u32)" where
  "placed e m = (if ev_op e = OpWrite then m(ev_addr e := ev_value e) else m)"

lemma replay_Cons: "replay m (e # es) = (if placeable e m then replay (placed e m) es else None)"
  by (auto simp: placeable_def placed_def)

definition takes :: "Trace list \<Rightarrow> (nat \<Rightarrow> nat) \<Rightarrow> (u32 \<Rightarrow> u32) \<Rightarrow> nat \<Rightarrow> bool" where
  "takes cores idx m k \<longleftrightarrow> idx k < length (cores ! k) \<and> placeable (cores ! k ! idx k) m
     \<and> searchable cores (idx(k := Suc (idx k))) (placed (cores ! k ! idx k) m)"

lemma searchable_unfold:
  "searchable cores idx m \<longleftrightarrow>
     (\<forall>k < length cores. length (cores ! k) \<le> idx k) \<or> (\<exists>k < length cores. takes cores idx m k)"
  (is "_ \<longleftrightarrow> ?done \<or> ?step")
proof
  assume "searchable cores idx m"
  then obtain t where t: "interleaves (left cores idx) t" "replay m t \<noteq> None"
    by (auto simp: searchable_def)
  show "?done \<or> ?step"
  proof (cases t)
    case Nil
    with t(1) show ?thesis by (auto elim: interleaves_NilE)
  next
    case (Cons e es)
    with t(1) obtain k xs where k: "k < length cores" "drop (idx k) (cores ! k) = e # xs"
      "interleaves ((left cores idx)[k := xs]) es"
      by (auto elim!: interleaves_ConsE)
    then have l: "idx k < length (cores ! k)" by (metis drop_all leI list.distinct(1))
    with k(2) have e: "e = cores ! k ! idx k" "xs = drop (Suc (idx k)) (cores ! k)"
      by (metis Cons_nth_drop_Suc list.inject)+
    with k l t(2) Cons have "takes cores idx m k"
      by (auto simp: takes_def searchable_def left_step replay_Cons simp del: replay.simps split: if_splits)
    with k(1) show ?thesis by blast
  qed
next
  assume "?done \<or> ?step"
  then show "searchable cores idx m"
  proof
    assume ?done
    then have "interleaves (left cores idx) []" by (intro inter_done) simp
    then show ?thesis by (auto simp: searchable_def intro!: exI [of _ "[]"])
  next
    assume ?step
    then obtain k t where k: "k < length cores" "idx k < length (cores ! k)" "placeable (cores ! k ! idx k) m"
      and t: "interleaves (left cores (idx(k := Suc (idx k)))) t"
        "replay (placed (cores ! k ! idx k) m) t \<noteq> None"
      by (auto simp: takes_def searchable_def)
    have "interleaves (left cores idx) (cores ! k ! idx k # t)"
      by (rule inter_take [of k _ _ "drop (Suc (idx k)) (cores ! k)"])
        (use k t in \<open>simp_all add: Cons_nth_drop_Suc left_step\<close>)
    with k(3) t(2) show ?thesis
      by (auto simp: searchable_def replay_Cons simp del: replay.simps intro!: exI [of _ "cores ! k ! idx k # t"])
  qed
qed

section \<open>The search is sound and complete\<close>

text \<open>A failed search restores the memory; a search succeeds where the cores passed are used up or some
  core can go next.\<close>

definition dfs_spec :: "Trace list \<Rightarrow> nat \<Rightarrow> bool \<Rightarrow> (nat \<Rightarrow> nat) \<Rightarrow> (u32 \<rightharpoonup> u32) \<Rightarrow> bool" where
  "dfs_spec cores c d idx mem \<longleftrightarrow>
     (let (found, mem') = dfs_loop cores c d idx mem
      in (\<not> found \<longrightarrow> mem' = mem)
       \<and> (found \<longleftrightarrow>
            d \<and> (\<forall>k \<in> {c..<length cores}. length (cores ! k) \<le> idx k)
            \<or> (\<exists>k \<in> {c..<length cores}. takes cores idx (lookup0 mem) k)))"

lemma dfs_spec_top:
  assumes "dfs_spec cores 0 True idx mem"
  shows "fst (dfs_loop cores 0 True idx mem) \<longleftrightarrow> searchable cores idx (lookup0 mem)"
    and "\<not> fst (dfs_loop cores 0 True idx mem) \<Longrightarrow> snd (dfs_loop cores 0 True idx mem) = mem"
  using assms by (auto simp: dfs_spec_def case_prod_beta searchable_unfold)

lemma placed_lookup0:
  "ev_op e = OpWrite \<Longrightarrow> placed e (lookup0 mem) = lookup0 (mem(ev_addr e \<mapsto> ev_value e))"
  "ev_op e = OpRead \<Longrightarrow> placed e (lookup0 mem) = lookup0 mem"
  by (simp_all add: placed_def)

lemma mem_restore:
  "(if mem a \<noteq> None then (mem(a \<mapsto> v))(a \<mapsto> lookup0 mem a) else (mem(a \<mapsto> v))(a := None)) = mem"
  by (auto simp: lookup0_def fun_eq_iff)

text \<open>One activation of the loop, when every deeper activation is right.\<close>

lemma dfs_loop_level:
  assumes deeper: "\<And>k mem. k < length cores \<Longrightarrow> idx k < length (cores ! k)
      \<Longrightarrow> dfs_spec cores 0 True (idx(k := Suc (idx k))) mem"
  shows "dfs_spec cores c d idx mem"
proof (induction "length cores - c" arbitrary: c d)
  case 0
  then show ?case by (simp add: dfs_spec_def dfs_loop.simps [of cores c])
next
  case (Suc n)
  then have c: "c < length cores" and next_c: "\<And>d. dfs_spec cores (Suc c) d idx mem" by simp_all
  have split: "{c..<length cores} = insert c {Suc c..<length cores}" using c by auto
  let ?e = "cores ! c ! idx c" and ?idx = "idx(c := Suc (idx c))"
  show ?case
  proof (cases "idx c < length (cores ! c)")
    case False
    with next_c [of d] c show ?thesis
      by (simp add: dfs_spec_def dfs_loop.simps [of cores c] split takes_def)
  next
    case inside: True
    note top = dfs_spec_top [OF deeper [OF c inside]]
    show ?thesis
    proof (cases "ev_op ?e")
      case OpRead
      show ?thesis
      proof (cases "lookup0 mem (ev_addr ?e) = ev_value ?e")
        case True
        with OpRead inside c next_c [of False] top [of mem] show ?thesis
          by (auto simp: dfs_spec_def dfs_loop.simps [of cores c] split takes_def placeable_def
              placed_lookup0 case_prod_beta Let_def)
      next
        case False
        with OpRead inside c next_c [of False] show ?thesis
          by (simp add: dfs_spec_def dfs_loop.simps [of cores c] split takes_def placeable_def)
      qed
    next
      case OpWrite
      with inside c next_c [of False] top [of "mem(ev_addr ?e \<mapsto> ev_value ?e)"]
        mem_restore [of mem "ev_addr ?e" "ev_value ?e"] show ?thesis
        by (auto simp: dfs_spec_def dfs_loop.simps [of cores c] split takes_def placeable_def
            placed_lookup0 case_prod_beta Let_def)
    qed
  qed
qed

lemma dfs_loop_correct: "dfs_spec cores c d idx mem"
proof (induction "unplaced cores idx" arbitrary: c d idx mem rule: less_induct)
  case less
  show ?case
    by (rule dfs_loop_level) (rule less.hyps, rule unplaced_step)
qed

lemma dfs_searchable: "fst (dfs cores idx mem) \<longleftrightarrow> searchable cores idx (lookup0 mem)"
  unfolding dfs_def by (rule dfs_spec_top(1) [OF dfs_loop_correct])

lemma dfs_restores: "\<not> fst (dfs cores idx mem) \<Longrightarrow> snd (dfs cores idx mem) = mem"
  unfolding dfs_def by (rule dfs_spec_top(2) [OF dfs_loop_correct])

section \<open>The search decides sequential consistency\<close>

text \<open>An interleaving of lists that a key tells apart is a list whose part of each key is the list of
  that key.\<close>

definition keyed :: "('a \<Rightarrow> nat) \<Rightarrow> 'a list list \<Rightarrow> bool" where
  "keyed f xss \<longleftrightarrow> (\<forall>k < length xss. \<forall>x \<in> set (xss ! k). f x = k)"

lemma keyed_tail: "keyed f xss \<Longrightarrow> k < length xss \<Longrightarrow> xss ! k = x # xs \<Longrightarrow> keyed f (xss[k := xs])"
  by (auto simp: keyed_def nth_list_update)

lemma interleaves_parts:
  assumes "interleaves xss t" and "keyed f xss"
  shows "(\<forall>k < length xss. filter (\<lambda>x. f x = k) t = xss ! k) \<and> (\<forall>x \<in> set t. f x < length xss)"
  using assms
proof (induction rule: interleaves.induct)
  case (inter_take k xss x xs ys)
  then have x: "f x = k" by (auto simp: keyed_def)
  from inter_take keyed_tail [OF inter_take.prems inter_take.hyps(1,2)]
  have "\<forall>j < length xss. filter (\<lambda>x. f x = j) ys = xss[k := xs] ! j" "\<forall>y \<in> set ys. f y < length xss"
    by simp_all
  with x inter_take.hyps show ?case by (auto simp: nth_list_update)
qed simp

lemma parts_interleaves:
  assumes "keyed f xss" and "\<forall>k < length xss. filter (\<lambda>x. f x = k) t = xss ! k"
    and "\<forall>x \<in> set t. f x < length xss"
  shows "interleaves xss t"
  using assms
proof (induction t arbitrary: xss)
  case Nil
  then show ?case by (simp add: inter_done)
next
  case (Cons x t)
  let ?k = "f x"
  have k: "?k < length xss" "xss ! ?k = x # filter (\<lambda>y. f y = ?k) t" using Cons.prems(2,3) by auto
  show ?case
  proof (rule inter_take [OF k], rule Cons.IH)
    show "keyed f (xss[?k := filter (\<lambda>y. f y = ?k) t])" by (rule keyed_tail [OF Cons.prems(1) k])
    show "\<forall>j < length (xss[?k := filter (\<lambda>y. f y = ?k) t]).
        filter (\<lambda>y. f y = j) t = xss[?k := filter (\<lambda>y. f y = ?k) t] ! j"
      using Cons.prems(2) by (auto simp: nth_list_update split: if_splits)
    show "\<forall>y \<in> set t. f y < length (xss[?k := filter (\<lambda>y. f y = ?k) t])" using Cons.prems(3) by simp
  qed
qed

lemma fold_bucket:
  assumes "\<forall>e \<in> set t. 0 \<le> core_id e \<and> nat (core_id e) < length xss"
  shows "length (fold bucket t xss) = length xss \<and>
    (\<forall>k < length xss. fold bucket t xss ! k = xss ! k @ filter (\<lambda>e. nat (core_id e) = k) t)"
  using assms
proof (induction t arbitrary: xss)
  case (Cons e t)
  then show ?case using Cons.IH [of "bucket e xss"] by (auto simp: bucket_def nth_list_update)
qed simp

lemma fold_max: "fold (\<lambda>e m. max m (f e)) t (m :: int) = Max (insert m (f ` set t))"
proof (induction t arbitrary: m)
  case (Cons e t)
  have "Max (insert (max m (f e)) (f ` set t)) = Max (insert m (insert (f e) (f ` set t)))"
    by (cases "f ` set t = {}") (simp_all add: max.assoc Max_insert)
  with Cons show ?case by simp
qed simp

text \<open>What the search looks for: an order of all events that keeps every core's program order and in which
  every read returns the latest write.\<close>

definition sc_order :: "sorter \<Rightarrow> Trace \<Rightarrow> Trace \<Rightarrow> bool" where
  "sc_order srt t u \<longleftrightarrow> mset u = mset t
     \<and> (\<forall>c. filter (\<lambda>e. core_id e = c) u = srt program_idx (filter (\<lambda>e. core_id e = c) t))
     \<and> replay zeroed u \<noteq> None"

definition core_lists :: "sorter \<Rightarrow> nat \<Rightarrow> Trace \<Rightarrow> Trace list" where
  "core_lists srt n t = map (srt program_idx) (fold bucket t (replicate n []))"

lemma core_lists_nth:
  assumes "\<forall>e \<in> set t. 0 \<le> core_id e \<and> nat (core_id e) < n"
  shows "length (core_lists srt n t) = n"
    "k < n \<Longrightarrow> core_lists srt n t ! k = srt program_idx (filter (\<lambda>e. core_id e = int k) t)"
proof -
  note b = fold_bucket [of t "replicate n []"]
  show "length (core_lists srt n t) = n" using b assms by (simp add: core_lists_def)
  assume k: "k < n"
  have "filter (\<lambda>e. nat (core_id e) = k) t = filter (\<lambda>e. core_id e = int k) t"
    by (rule filter_cong) (use assms in auto)
  with b assms k show "core_lists srt n t ! k = srt program_idx (filter (\<lambda>e. core_id e = int k) t)"
    by (simp add: core_lists_def)
qed

lemma mset_parts:
  assumes "\<And>c. mset (filter (\<lambda>e. f e = c) u) = mset (filter (\<lambda>e. f e = c) t)"
  shows "mset u = mset t"
proof (rule multiset_eqI)
  fix e
  show "count (mset u) e = count (mset t) e"
    using arg_cong [OF assms [of "f e"], of "\<lambda>M. count M e"] by simp
qed

lemma filter_nat_key:
  assumes "\<forall>e \<in> set t. 0 \<le> core_id e"
  shows "filter (\<lambda>e. nat (core_id e) = k) t = filter (\<lambda>e. core_id e = int k) t"
  by (rule filter_cong) (use assms in auto)

lemma interleaves_core_lists:
  assumes srt: "sort_ok srt" and t: "\<forall>e \<in> set t. 0 \<le> core_id e \<and> nat (core_id e) < n"
  shows "interleaves (core_lists srt n t) u \<longleftrightarrow>
     mset u = mset t
     \<and> (\<forall>c. filter (\<lambda>e. core_id e = c) u = srt program_idx (filter (\<lambda>e. core_id e = c) t))"
    (is "_ \<longleftrightarrow> ?perm \<and> ?order")
proof -
  let ?f = "\<lambda>e. nat (core_id e)"
  note nth = core_lists_nth [OF t]
  have keyed: "keyed ?f (core_lists srt n t)" by (auto simp: keyed_def nth sort_okD(2) [OF srt])
  show ?thesis
  proof
    assume "interleaves (core_lists srt n t) u"
    then have parts: "\<And>k. k < n \<Longrightarrow> filter (\<lambda>e. ?f e = k) u = core_lists srt n t ! k"
      and range: "\<forall>e \<in> set u. ?f e < n"
      using interleaves_parts [OF _ keyed] by (auto simp: nth)
    have "e \<in> set (core_lists srt n t ! ?f e)" if "e \<in> set u" for e
      using that range by (simp flip: parts)
    then have u: "\<forall>e \<in> set u. 0 \<le> core_id e" using range t by (auto simp: nth sort_okD(2) [OF srt])
    have order: "filter (\<lambda>e. core_id e = c) u = srt program_idx (filter (\<lambda>e. core_id e = c) t)" for c
    proof (cases "0 \<le> c \<and> nat c < n")
      case True
      with parts [of "nat c"] nth(2) [of "nat c"] filter_nat_key [OF u, of "nat c"] show ?thesis by simp
    next
      case False
      with u range t have "filter (\<lambda>e. core_id e = c) u = []" "filter (\<lambda>e. core_id e = c) t = []"
        by (auto simp: filter_empty_conv)
      then show ?thesis using sort_okD(3) [OF srt, of program_idx "[]"] by simp
    qed
    have ?perm by (rule mset_parts [of core_id]) (simp add: order sort_okD(1) [OF srt] del: mset_filter)
    with order show "?perm \<and> ?order" by blast
  next
    assume po: "?perm \<and> ?order"
    then have u: "set u = set t" using mset_eq_setD by blast
    have "filter (\<lambda>e. ?f e = k) u = core_lists srt n t ! k" if "k < n" for k
      using po that filter_nat_key [of u k] t by (simp add: nth u)
    then show "interleaves (core_lists srt n t) u"
      by (intro parts_interleaves [OF keyed]) (use t in \<open>auto simp: nth u\<close>)
  qed
qed

lemma left_zero [simp]: "left cores (\<lambda>_. 0) = cores"
  by (rule nth_equalityI) simp_all

lemma exists_sc_order_correct:
  assumes srt: "sort_ok srt" and ids: "\<forall>e \<in> set t. 0 \<le> core_id e \<and> core_id e < 2 ^ 31 - 1"
  shows "exists_sc_order srt t = Some (\<exists>u. sc_order srt t u)"
proof -
  let ?m = "fold (\<lambda>e m. max m (core_id e)) t (- 1)"
  have m: "core_id e \<le> ?m" if "e \<in> set t" for e using that by (simp add: fold_max)
  show ?thesis
  proof (cases "?m < 0")
    case True
    have "e \<notin> set t" for e using m [of e] ids True by force
    then have t: "t = []" by (cases t) auto
    then have "sc_order srt t []" using sort_okD(3) [OF srt, of program_idx "[]"] by (simp add: sc_order_def)
    then have "\<exists>u. sc_order srt t u" ..
    then show ?thesis using t by (simp add: exists_sc_order_def)
  next
    case False
    have r: "\<forall>e \<in> set t. 0 \<le> core_id e \<and> nat (core_id e) < nat (?m + 1)"
      using m ids by force
    have "?m \<in> insert (- 1) (core_id ` set t)" unfolding fold_max by (rule Max_in) simp_all
    then have top: "\<not> 2 ^ 31 \<le> ?m + 1" using ids by auto
    have "fst (dfs (core_lists srt (nat (?m + 1)) t) (\<lambda>_. 0) Map.empty) \<longleftrightarrow> (\<exists>u. sc_order srt t u)"
      using interleaves_core_lists [OF srt r]
      by (simp add: dfs_searchable searchable_def sc_order_def conj_assoc)
    with False top ids show ?thesis by (auto simp: exists_sc_order_def core_lists_def Let_def)
  qed
qed

text \<open>A serialization order that keeps the program order is one of the orders searched, so the linear check is
  the stronger of the two.\<close>

definition numbered :: "Trace \<Rightarrow> bool" where
  "numbered t \<longleftrightarrow> (\<forall>c. sorted_wrt (<) (map program_idx (filter (\<lambda>e. core_id e = c) t)))"

lemma serial_order_sc_order:
  assumes "sort_ok srt" and "replay zeroed t \<noteq> None" and "numbered t"
  shows "sc_order srt t t"
  using assms sort_ok_unique [OF assms(1) refl] by (simp add: sc_order_def numbered_def)

text \<open>With distinct program indices the orders searched do not depend on the sorting function.\<close>

lemma sc_order_distinct:
  assumes "sort_ok srt" and "\<And>c. distinct (map program_idx (filter (\<lambda>e. core_id e = c) t))"
  shows "sc_order srt t u \<longleftrightarrow> mset u = mset t \<and> (\<forall>c. sorted (map program_idx (filter (\<lambda>e. core_id e = c) u))) \<and> replay zeroed u \<noteq> None"
proof -
  have "filter (\<lambda>e. core_id e = c) u = srt program_idx (filter (\<lambda>e. core_id e = c) t)
      \<longleftrightarrow> sorted (map program_idx (filter (\<lambda>e. core_id e = c) u))" if u: "mset u = mset t" for c
  proof
    assume s: "sorted (map program_idx (filter (\<lambda>e. core_id e = c) u))"
    have f: "mset (filter (\<lambda>e. core_id e = c) u) = mset (filter (\<lambda>e. core_id e = c) t)" using u by simp
    have "distinct (map program_idx (filter (\<lambda>e. core_id e = c) u))"
      using assms(2) [of c] arg_cong [OF f, of "image_mset program_idx"] by (metis mset_eq_imp_distinct_iff mset_map)
    with s show "filter (\<lambda>e. core_id e = c) u = srt program_idx (filter (\<lambda>e. core_id e = c) t)"
      by (intro sort_ok_unique [OF assms(1) f, symmetric]) (simp add: strict_sorted_iff)
  qed (simp add: sort_okD(4) [OF assms(1)])
  then show ?thesis by (auto simp: sc_order_def)
qed

section \<open>What the linear check decides\<close>

text \<open>The latest write to the address of a read: no sorting and no memory, only time stamps.\<close>

definition write_before :: "Trace \<Rightarrow> TraceEvent \<Rightarrow> TraceEvent \<Rightarrow> bool" where
  "write_before t e w \<longleftrightarrow> w \<in> set t \<and> ev_op w = OpWrite \<and> ev_addr w = ev_addr e \<and> timestamp w < timestamp e"

definition reads_latest :: "Trace \<Rightarrow> TraceEvent \<Rightarrow> bool" where
  "reads_latest t e \<longleftrightarrow>
     (\<exists>w. write_before t e w \<and> (\<forall>w'. write_before t e w' \<longrightarrow> timestamp w' \<le> timestamp w) \<and> ev_value e = ev_value w)
     \<or> (\<forall>w. \<not> write_before t e w) \<and> ev_value e = 0"

text \<open>The memory after the events \<open>xs\<close>, whether or not its reads are right.\<close>

definition mem_after :: "Trace \<Rightarrow> u32 \<Rightarrow> u32" where
  "mem_after xs = fold (\<lambda>e m. if ev_op e = OpWrite then m(ev_addr e := ev_value e) else m) xs zeroed"

lemma mem_after_simps [simp]:
  "mem_after [] = zeroed"
  "mem_after (xs @ [e]) = (if ev_op e = OpWrite then (mem_after xs)(ev_addr e := ev_value e) else mem_after xs)"
  by (simp_all add: mem_after_def)

lemma replay_mem_after:
  "replay zeroed u = (if \<forall>i < length u. ev_op (u ! i) = OpRead \<longrightarrow> mem_after (take i u) (ev_addr (u ! i)) = ev_value (u ! i)
     then Some (mem_after u) else None)"
proof (induction u rule: rev_induct)
  case (snoc e u)
  have "ev_op e = OpRead \<or> ev_op e = OpWrite" by (cases "ev_op e") simp_all
  with snoc show ?case by (auto simp: replay_append nth_append less_Suc_eq)
qed simp

lemma mem_after_cases:
  fixes xs :: Trace and a :: u32
  assumes "sorted_wrt (<) (map timestamp xs)"
  defines "W \<equiv> {w \<in> set xs. ev_op w = OpWrite \<and> ev_addr w = a}"
  shows "(\<exists>w \<in> W. (\<forall>w' \<in> W. timestamp w' \<le> timestamp w) \<and> mem_after xs a = ev_value w) \<or> W = {} \<and> mem_after xs a = 0"
  using assms(1) unfolding W_def
proof (induction xs rule: rev_induct)
  case (snoc e xs)
  then have s: "sorted_wrt (<) (map timestamp xs)" "\<And>x. x \<in> set xs \<Longrightarrow> timestamp x < timestamp e"
    by (auto simp: sorted_wrt_append)
  show ?case
  proof (cases "ev_op e = OpWrite \<and> ev_addr e = a")
    case True
    have "timestamp x \<le> timestamp e" if "x \<in> set (xs @ [e])" for x using s(2) [of x] that by auto
    with True show ?thesis by (intro disjI1 bexI [of _ e]) auto
  next
    case False
    then have "mem_after (xs @ [e]) a = mem_after xs a" by auto
    moreover have "{w \<in> set (xs @ [e]). ev_op w = OpWrite \<and> ev_addr w = a} = {w \<in> set xs. ev_op w = OpWrite \<and> ev_addr w = a}"
      using False by auto
    ultimately show ?thesis using snoc.IH [OF s(1)] by (simp only:)
  qed
qed simp

lemma reads_latest_mem_after:
  assumes s: "sorted_wrt (<) (map timestamp u)" and i: "i < length u"
  shows "reads_latest u (u ! i) \<longleftrightarrow> mem_after (take i u) (ev_addr (u ! i)) = ev_value (u ! i)"
proof -
  let ?e = "u ! i" and ?xs = "take i u"
  let ?W = "{w \<in> set ?xs. ev_op w = OpWrite \<and> ev_addr w = ev_addr ?e}"
  have lt: "timestamp (u ! j) < timestamp ?e \<longleftrightarrow> j < i" if "j < length u" for j
    using sorted_wrt_nth_less [OF s, of j i] sorted_wrt_nth_less [OF s, of i j] that i by (cases j i rule: linorder_cases) auto
  have w: "write_before u ?e w \<longleftrightarrow> w \<in> ?W" for w
    using lt i by (auto simp: write_before_def in_set_conv_nth intro: less_trans)
  have inj: "w = w'" if "w \<in> ?W" "w' \<in> ?W" "timestamp w = timestamp w'" for w w'
    using that s by (auto simp: strict_sorted_iff distinct_map dest: in_set_takeD inj_onD)
  have "sorted_wrt (<) (map timestamp ?xs)" using s by (simp add: sorted_wrt_take flip: take_map)
  from mem_after_cases [OF this, of "ev_addr ?e"] show ?thesis
  proof
    assume "\<exists>w \<in> ?W. (\<forall>w' \<in> ?W. timestamp w' \<le> timestamp w) \<and> mem_after ?xs (ev_addr ?e) = ev_value w"
    then obtain v where v: "v \<in> ?W" "\<forall>w' \<in> ?W. timestamp w' \<le> timestamp v" "mem_after ?xs (ev_addr ?e) = ev_value v" by blast
    have "x = v" if "x \<in> ?W" "\<forall>w' \<in> ?W. timestamp w' \<le> timestamp x" for x
      using inj [OF that(1) v(1)] that(2) v(1,2) that(1) by (meson order_antisym)
    with v show ?thesis unfolding reads_latest_def w by (metis (no_types, lifting))
  next
    assume "?W = {} \<and> mem_after ?xs (ev_addr ?e) = 0"
    then show ?thesis unfolding reads_latest_def w by auto
  qed
qed

lemma check_serial_order_correct:
  assumes "sort_ok srt" and "distinct (map timestamp t)"
  shows "ok (check_serial_order srt t) \<longleftrightarrow> (\<forall>e \<in> set t. ev_op e = OpRead \<longrightarrow> reads_latest t e)"
proof -
  let ?u = "srt timestamp t"
  have "distinct (map timestamp ?u)"
    using assms(2) sort_okD(1) [OF assms(1), of timestamp t] by (metis mset_eq_imp_distinct_iff mset_map)
  then have s: "sorted_wrt (<) (map timestamp ?u)" using sort_okD(4) [OF assms(1)] by (simp add: strict_sorted_iff)
  have r: "reads_latest ?u e = reads_latest t e" for e
    by (simp add: reads_latest_def write_before_def sort_okD(2) [OF assms(1)])
  have "ok (check_serial_order srt t) \<longleftrightarrow> (\<forall>i < length ?u. ev_op (?u ! i) = OpRead \<longrightarrow> reads_latest ?u (?u ! i))"
    by (simp add: check_serial_order_replay replay_mem_after reads_latest_mem_after [OF s])
  also have "\<dots> \<longleftrightarrow> (\<forall>e \<in> set ?u. ev_op e = OpRead \<longrightarrow> reads_latest ?u e)"
    by (simp only: all_set_conv_all_nth)
  finally show ?thesis by (simp only: r sort_okD(2) [OF assms(1)])
qed

end
