(* ===== verification/System_Traces.thy ===== *)
theory System_Traces
  imports Sc_Checker
begin

text \<open>
  The traces that \<^verbatim>\<open>MesiSystem\<close> records and the checkers of \<^verbatim>\<open>model/sc_checker.cpp\<close> together: what
  \<^verbatim>\<open>log\<close> appends, and that a trace recorded from the start is an order the checkers accept.
\<close>

section \<open>Counting events\<close>

text \<open>The indices \<open>0, 1, \<dots>\<close> as 64-bit counters.\<close>

definition counted :: "nat \<Rightarrow> u64 list" where
  "counted n = map of_nat [0..<n]"

lemma counted_simps [simp]:
  "counted 0 = []" "counted (Suc n) = counted n @ [of_nat n]" "length (counted n) = n"
  by (simp_all add: counted_def)

text \<open>Short of \<open>2 ^ 64\<close> events the counters do not wrap around.\<close>

lemma sorted_counted: "n \<le> 2 ^ 64 \<Longrightarrow> sorted_wrt (<) (counted n)"
  by (auto simp: counted_def sorted_wrt_iff_nth_less word_less_nat_alt unat_of_nat take_bit_nat_eq_self)

section \<open>The recorder\<close>

definition of_core :: "int \<Rightarrow> Trace \<Rightarrow> Trace" where
  "of_core c t = filter (\<lambda>e. core_id e = c) t"

lemma of_core_simps [simp]:
  "of_core c [] = []"
  "of_core c (t @ [e]) = (if core_id e = c then of_core c t @ [e] else of_core c t)"
  by (simp_all add: of_core_def)

text \<open>
  The trace of a system that has been tracing since its memory was \<open>i\<close>: its replay on \<open>i\<close> gives the memory
  \<open>m\<close>, time stamps and program indices count the events of the system and of each core.
\<close>

definition traced_from :: "(u32 \<Rightarrow> u32) \<Rightarrow> (u32 \<Rightarrow> u32) \<Rightarrow> MesiSystem \<Rightarrow> bool" where
  "traced_from i m s \<longleftrightarrow> s_tracing s
     \<and> replay i (s_trace s) = Some m
     \<and> s_timestamp s = of_nat (length (s_trace s))
     \<and> map timestamp (s_trace s) = counted (length (s_trace s))
     \<and> (\<forall>e \<in> set (s_trace s). 0 \<le> core_id e \<and> core_id e < int (length (s_prog_idx s)))
     \<and> (\<forall>k < length (s_prog_idx s).
          s_prog_idx s ! k = of_nat (length (of_core (int k) (s_trace s))))
     \<and> (\<forall>c. map program_idx (of_core c (s_trace s)) = counted (length (of_core c (s_trace s))))"

lemma traced_bus [simp]: "traced_from i m (s\<lparr>s_bus := b\<rparr>) = traced_from i m s"
  by (simp add: traced_from_def)

lemma traced_log:
  assumes "traced_from i m s" and "0 \<le> c" and "nat c < length (s_prog_idx s)"
    and "t = OpRead \<Longrightarrow> m a = v"
  shows "traced_from i (if t = OpWrite then m(a := v) else m) (MesiSystem_log c t a v s)"
  using assms
  by (cases t) (auto simp: traced_from_def MesiSystem_log_def Let_def replay_append nth_inc_at)

lemmas traced_read = traced_log [where t = OpRead, simplified]
lemmas traced_write = traced_log [where t = OpWrite, simplified]

lemma traced_sorted:
  assumes "traced_from i m s" and "length (s_trace s) \<le> 2 ^ 64"
  shows "sorted_wrt (<) (map timestamp (s_trace s))" "numbered (s_trace s)"
proof -
  show "sorted_wrt (<) (map timestamp (s_trace s))" using assms by (simp add: traced_from_def sorted_counted)
  have "length (of_core c (s_trace s)) \<le> 2 ^ 64" for c
    using assms(2) unfolding of_core_def by (rule le_trans [OF length_filter_le])
  with assms(1) show "numbered (s_trace s)"
    by (simp add: numbered_def traced_from_def sorted_counted flip: of_core_def)
qed

lemma traced_linear:
  assumes "sort_ok srt" and "traced_from zeroed m s" and "length (s_trace s) \<le> 2 ^ 64"
  shows "ok (check_serial_order srt (s_trace s))"
  using sort_ok_unique [OF assms(1) refl traced_sorted(1) [OF assms(2,3)]] assms(2)
  by (simp add: check_serial_order_replay traced_from_def)

lemma traced_search:
  assumes "sort_ok srt" and "traced_from zeroed m s" and "length (s_trace s) \<le> 2 ^ 64" and "length (s_prog_idx s) < 2 ^ 31"
  shows "exists_sc_order srt (s_trace s) = Some True"
proof -
  have "sc_order srt (s_trace s) (s_trace s)"
    using serial_order_sc_order [OF assms(1) _ traced_sorted(2) [OF assms(2,3)]] assms(2) by (simp add: traced_from_def)
  moreover have "\<forall>e \<in> set (s_trace s). 0 \<le> core_id e \<and> core_id e < 2 ^ 31 - 1" using assms(2,4) by (auto simp: traced_from_def)
  ultimately show ?thesis using exists_sc_order_correct [OF assms(1)] by auto
qed

section \<open>Every call records what it does\<close>

lemma sys_ok_prog_idx: "sys_ok s \<Longrightarrow> validate_core s c \<Longrightarrow> 0 \<le> c \<and> nat c < length (s_prog_idx s)"
  by (simp add: sys_ok_def validate_core_nat)

text \<open>The calls that neither stop nor restart the recording.\<close>

fun keeps_trace :: "sys_call \<Rightarrow> bool" where
  "keeps_trace (Call_tracing on) = on"
| "keeps_trace Call_clear = False"
| "keeps_trace _ = True"

lemma traced_MesiSystem_read:
  assumes "sys_ok s" and "traced_from i (sys_val s) s" and "MesiSystem_read c a s = Inr (v, s')"
    and "validate_core s c"
  shows "traced_from i (sys_val s') s'"
  using sys.rdD [OF assms(3,1,4)] assms(2,3,4) sys_ok_prog_idx [OF assms(1,4)]
  by (auto simp: MesiSystem_read_def Let_def case_prod_beta intro!: traced_read)

lemma traced_MesiSystem_write:
  assumes "sys_ok s" and "traced_from i (sys_val s) s" and "MesiSystem_write c a v s = Inr s'"
    and "validate_core s c"
  shows "traced_from i (sys_val s') s'"
  using sys.wrD [OF assms(3,1,4)] assms(2,3,4) sys_ok_prog_idx [OF assms(1,4)]
  by (auto simp: MesiSystem_write_def Let_def intro!: traced_write)

lemma traced_MesiSystem_cas:
  assumes "sys_ok s" and "traced_from i (sys_val s) s" and "MesiSystem_cas c a e n s = Inr (r, s')"
    and "validate_core s c"
  shows "traced_from i (sys_val s') s'"
  using sys.casD [OF assms(3,1,4)] assms(2,3,4) sys_ok_prog_idx [OF assms(1,4)]
  by (auto simp: MesiSystem_cas_def Let_def case_prod_beta frame_simps intro!: traced_read traced_write)

lemma traced_MesiSystem_faa:
  assumes "sys_ok s" and "traced_from i (sys_val s) s" and "MesiSystem_fetch_and_add c a d s = Inr (v, s')"
    and "validate_core s c"
  shows "traced_from i (sys_val s') s'"
  using sys.faaD [OF assms(3,1,4)] assms(2,3,4) sys_ok_prog_idx [OF assms(1,4)]
  by (auto simp: MesiSystem_fetch_and_add_def Let_def case_prod_beta frame_simps
      intro!: traced_read traced_write)

lemma traced_call:
  assumes "sys_ok s" and "traced_from i (sys_val s) s" and "call_ok c" and "keeps_trace c"
  shows "traced_from i (sys_val (snd (exec_call c s))) (snd (exec_call c s))"
proof (cases c)
  case (Call_read k a)
  then show ?thesis
    using MesiSystem_read_ok [OF assms(1), of k a] MesiSystem_throws(1) [of s k a]
      traced_MesiSystem_read [OF assms(1,2), of k a] assms(2)
    by (cases "validate_core s k") (auto simp: lift_value_def)
next
  case (Call_write k a v)
  then show ?thesis
    using MesiSystem_write_ok [OF assms(1), of k a v] MesiSystem_throws(2) [of s k a v]
      traced_MesiSystem_write [OF assms(1,2), of k a v] assms(2)
    by (cases "validate_core s k") (auto simp: lift_unit_def)
next
  case (Call_cas k a e x)
  then show ?thesis
    using MesiSystem_cas_ok [OF assms(1), of k a e x] MesiSystem_throws(3) [of s k a e x]
      traced_MesiSystem_cas [OF assms(1,2), of k a e x] assms(2)
    by (cases "validate_core s k") (auto simp: lift_cas_def)
next
  case (Call_faa k a d)
  then show ?thesis
    using MesiSystem_faa_ok [OF assms(1), of k a d] MesiSystem_throws(4) [of s k a d]
      traced_MesiSystem_faa [OF assms(1,2), of k a d] assms(2)
    by (cases "validate_core s k") (auto simp: lift_value_def)
next
  case (Call_fence k)
  then show ?thesis
    using assms(2) by (simp add: MesiSystem_fence_def lift_unit_def)
next
  case (Call_tracing on)
  then show ?thesis
    using assms(2,4) by (simp add: enable_tracing_def sys_val_def traced_from_def)
next
  case Call_clear
  then show ?thesis using assms(4) by simp
next
  case (Call_race g)
  then show ?thesis
    using assms exec_call_refines [OF assms(1,3)] by (simp add: MesiSystem_enable_race_injection_def)
next
  case (Call_register a)
  then show ?thesis
    using assms exec_call_refines [OF assms(1,3)] by (simp add: MesiSystem_register_def)
qed

lemma traced_calls:
  assumes "sys_ok s" and "traced_from i (sys_val s) s" and "list_all call_ok cs" and "list_all keeps_trace cs"
  shows "traced_from i (sys_val (snd (exec_calls cs s))) (snd (exec_calls cs s))"
  using assms
proof (induction cs arbitrary: s)
  case (Cons c cs)
  then show ?case
    using exec_call_refines [of s c] traced_call [of s i c] by (simp add: case_prod_beta)
qed simp

lemma traced_new:
  assumes "MesiSystem_new n = Inr s"
  shows "sys_ok (enable_tracing True s)" "traced_from zeroed (sys_val (enable_tracing True s)) (enable_tracing True s)"
  using MesiSystem_newD [OF assms] by (simp_all add: enable_tracing_def sys_ok_def sys_val_def traced_from_def)

section \<open>Recording that starts late\<close>

lemma traced_restart:
  assumes "sys_ok s"
  shows "sys_ok (enable_tracing True (clear_trace s))" "traced_from (sys_val s) (sys_val (enable_tracing True (clear_trace s))) (enable_tracing True (clear_trace s))"
  using assms by (simp_all add: enable_tracing_def clear_trace_def sys_ok_def sys_val_def traced_from_def)

text \<open>The addresses that a trace reads before it writes them.\<close>

fun first_reads :: "Trace \<Rightarrow> u32 set" where
  "first_reads [] = {}"
| "first_reads (e # es) =
     (if ev_op e = OpWrite then first_reads es - {ev_addr e} else insert (ev_addr e) (first_reads es))"

lemma replay_first_reads:
  assumes "replay m t \<noteq> None"
  shows "replay n t \<noteq> None \<longleftrightarrow> (\<forall>a \<in> first_reads t. n a = m a)"
  using assms
proof (induction t arbitrary: m n)
  case (Cons e es)
  show ?case
  proof (cases "ev_op e = OpWrite")
    case True
    let ?upd = "\<lambda>f :: u32 \<Rightarrow> u32. f(ev_addr e := ev_value e)"
    have "(\<forall>a \<in> first_reads es. ?upd n a = ?upd m a) \<longleftrightarrow> (\<forall>a \<in> first_reads es - {ev_addr e}. n a = m a)" by auto
    with True Cons.IH [of "?upd m" "?upd n"] Cons.prems show ?thesis by (simp del: fun_upd_apply not_None_eq)
  next
    case False
    with Cons.IH [of m n] Cons.prems show ?thesis by (auto split: if_splits)
  qed
qed simp

lemma traced_linear_iff:
  assumes "sort_ok srt" and "traced_from i m s" and "length (s_trace s) \<le> 2 ^ 64"
  shows "ok (check_serial_order srt (s_trace s)) \<longleftrightarrow> (\<forall>a \<in> first_reads (s_trace s). i a = 0)"
proof -
  have "replay i (s_trace s) \<noteq> None" using assms(2) by (simp add: traced_from_def)
  from replay_first_reads [OF this, of zeroed] sort_ok_unique [OF assms(1) refl traced_sorted(1) [OF assms(2,3)]]
  show ?thesis by (auto simp: check_serial_order_replay)
qed

end
