(* ===== verification/Model_Main.thy ===== *)
theory Model_Main
  imports Mutex Workloads Litmus_Trials System_Traces
begin

text \<open>
  The demo runner \<^verbatim>\<open>model/model_main.cpp\<close>: the workload summaries, the concurrent stress runs with the
  sequential-consistency check, the false-sharing table, the lock and the litmus trials, and \<^verbatim>\<open>main\<close> with
  its exit code. What the threads do is left to the scheduler, so a function that starts threads is a
  relation between the failure flag before and after it, one result per schedule.

  \<open>draws\<close> gives the numbers an engine \<^verbatim>\<open>std::mt19937_64\<close> draws after seeding, \<open>engine\<close> the shuffles of
  the snoop order it applies. Console output and the files of floating-point rates are not modelled.
\<close>

type_synonym draws = "u64 \<Rightarrow> nat \<Rightarrow> u64"

section \<open>The failure flag\<close>

definition expect :: "bool \<Rightarrow> int \<Rightarrow> int" where
  "expect c g_fail = (if \<not> c then 1 else g_fail)"

lemma expect_True [simp]: "expect True g = g"
  by (simp add: expect_def)

section \<open>Stress runs\<close>

definition NADDR :: nat where
  "NADDR = 8"

definition sc_addrs :: "u32 list" where
  "sc_addrs = map (\<lambda>i. 0x100 + 4 * of_nat i) [0..<NADDR]"

definition sc_setup :: "(u64 \<Rightarrow> shuffles) \<Rightarrow> int \<Rightarrow> u64 \<Rightarrow> bool \<Rightarrow> exn + MesiSystem" where
  "sc_setup engine n seed race =
     sbind (MesiSystem_new n) (\<lambda>s.
       let s = enable_tracing True s;
           s = (if race then MesiSystem_enable_race_injection engine (seed XOR 0x9E3779B97F4A7C15) s else s)
       in Inr (fold MesiSystem_register sc_addrs s))"

text \<open>One round \<open>i\<close> of the worker of a core: two draws, one access.\<close>

definition sc_worker ::
    "draws \<Rightarrow> u64 \<Rightarrow> int \<Rightarrow> int \<Rightarrow> nat \<Rightarrow> MesiSystem \<Rightarrow> exn + (nat \<times> MesiSystem)" where
  "sc_worker draws seed ops_per_core core i s =
     (if int i < ops_per_core then
        let rng = draws (seed + of_int (core * 1000) + 7);
            a = sc_addrs ! (unat (rng (2 * i)) mod NADDR)
        in if rng (2 * i + 1) AND 1 \<noteq> 0
           then sbind (MesiSystem_write core a (push_bit 16 (of_int core) OR of_nat i) s) (\<lambda>s. Inr (i + 1, s))
           else sbind (MesiSystem_read core a s) (\<lambda>(_, s). Inr (i + 1, s))
      else Inr (i, s))"

text \<open>A run of the threads to their end, then the linear check with any sorting function.\<close>

inductive sc_stress ::
    "draws \<Rightarrow> (u64 \<Rightarrow> shuffles) \<Rightarrow> int \<Rightarrow> int \<Rightarrow> u64 \<Rightarrow> bool \<Rightarrow> int \<Rightarrow> int \<Rightarrow> bool"
  for draws engine n ops seed race g where
  stress: "sc_setup engine n seed race = Inr s
    \<Longrightarrow> (pool_step (sc_worker draws seed ops))\<^sup>*\<^sup>* (s, replicate (nat n) 0) (s', ws)
    \<Longrightarrow> \<forall>i \<in> set ws. ops \<le> int i
    \<Longrightarrow> sort_ok srt
    \<Longrightarrow> sc_stress draws engine n ops seed race g (expect (ok (check_serial_order srt (s_trace s'))) g)"

lemmas [exec_simps] = sc_addrs_def NADDR_def sc_setup_def sc_worker_def expect_def

text \<open>The setup is a sequence of calls on a system that traces from the start.\<close>

lemma sc_setup_ok:
  assumes "sc_setup engine n seed race = Inr s" and "\<And>x. shuffles_ok (engine x)"
  shows "sys_ok s \<and> traced_from zeroed (sys_val s) s \<and> s_trace s = [] \<and> n_cores s = n \<and> 0 < n"
proof -
  obtain s0 where s0: "MesiSystem_new n = Inr s0" using assms(1) by (cases "MesiSystem_new n") (auto simp: sc_setup_def)
  define s1 where "s1 = (if race then MesiSystem_enable_race_injection engine (seed XOR 0x9E3779B97F4A7C15) (enable_tracing True s0)
    else enable_tracing True s0)"
  have s: "s = fold MesiSystem_register sc_addrs s1" using assms(1) s0 by (simp add: sc_setup_def s1_def Let_def)
  let ?I = "\<lambda>s. sys_ok s \<and> traced_from zeroed (sys_val s) s \<and> s_trace s = [] \<and> n_cores s = n"
  have call: "?I (snd (exec_call c s))" if "?I s" "c = Call_register a \<or> c = Call_race (engine x)" for c s a x
    using that exec_call_refines [of s c] traced_call [of s zeroed c] assms(2)
    by (auto simp: MesiSystem_register_def MesiSystem_enable_race_injection_def)
  have "?I (enable_tracing True s0)"
    using traced_new [OF s0] MesiSystem_newD [OF s0] by (auto simp: enable_tracing_def n_cores_def)
  then have "?I s1"
    using call [of "enable_tracing True s0" "Call_race (engine (seed XOR 0x9E3779B97F4A7C15))"]
    by (auto simp: s1_def MesiSystem_enable_race_injection_def SnoopingBus_enable_race_injection_def)
  then have "?I s" unfolding s by (rule fold_keeps) (use call [where c = "Call_register _"] in auto)
  with MesiSystem_newD(4) [OF s0] show ?thesis by simp
qed

text \<open>Every step of a worker returns; each access adds one event to the trace.\<close>

lemma log_trace_length: "s_tracing s \<Longrightarrow> length (s_trace (MesiSystem_log c t a v s)) = Suc (length (s_trace s))"
  by (simp add: MesiSystem_log_def Let_def)

lemma sc_worker_step:
  assumes "sys_ok s" and "traced_from zeroed (sys_val s) s" and "validate_core s c"
  shows "\<exists>s'. sc_worker draws seed ops c i s = Inr (if int i < ops then Suc i else i, s')
    \<and> sys_ok s' \<and> traced_from zeroed (sys_val s') s' \<and> validate_core s' = validate_core s
    \<and> length (s_trace s') = length (s_trace s) + of_bool (int i < ops)"
proof -
  have t: "s_tracing s" using assms(2) by (simp add: traced_from_def)
  have r: "\<exists>s'. MesiSystem_read c a s = Inr (sys_val s a, s') \<and> sys_ok s' \<and> traced_from zeroed (sys_val s') s'
      \<and> validate_core s' = validate_core s \<and> length (s_trace s') = Suc (length (s_trace s))" for a
    using MesiSystem_read_ok [OF assms(1,3), of a] traced_MesiSystem_read [OF assms(1,2) _ assms(3), of a] t assms(3)
    by (auto simp: MesiSystem_read_def Let_def case_prod_beta log_trace_length)
  have w: "\<exists>s'. MesiSystem_write c a v s = Inr s' \<and> sys_ok s' \<and> traced_from zeroed (sys_val s') s'
      \<and> validate_core s' = validate_core s \<and> length (s_trace s') = Suc (length (s_trace s))" for a v
    using MesiSystem_write_ok [OF assms(1,3), of a v] traced_MesiSystem_write [OF assms(1,2) _ assms(3), of a v] t assms(3)
    by (auto simp: MesiSystem_write_def Let_def log_trace_length)
  show ?thesis
  proof (cases "int i < ops")
    case True
    let ?rng = "draws (seed + of_int (c * 1000) + 7)" 
    let ?a = "sc_addrs ! (unat (?rng (2 * i)) mod NADDR)"
    from r [of ?a] w [of ?a "push_bit 16 (of_int c) OR of_nat i"] True show ?thesis
      by (auto simp: sc_worker_def Let_def)
  next
    case False
    with assms show ?thesis by (simp add: sc_worker_def)
  qed
qed

definition sc_inv :: "int \<Rightarrow> nat \<Rightarrow> MesiSystem \<times> nat list \<Rightarrow> bool" where
  "sc_inv ops n st \<longleftrightarrow> (case st of (s, ws) \<Rightarrow> sys_ok s \<and> traced_from zeroed (sys_val s) s \<and> (\<forall>i < n. validate_core s (int i))
     \<and> length ws = n \<and> length (s_trace s) = (\<Sum>i\<leftarrow>ws. i) \<and> (\<forall>i \<in> set ws. i \<le> nat ops))"

lemma sc_inv_step:
  assumes "sc_inv ops n (s, ws)" and "k < n"
  shows "\<exists>s'. sc_worker draws seed ops (int k) (ws ! k) s = Inr (if int (ws ! k) < ops then Suc (ws ! k) else ws ! k, s')
    \<and> sc_inv ops n (s', ws[k := if int (ws ! k) < ops then Suc (ws ! k) else ws ! k])"
proof -
  let ?i = "if int (ws ! k) < ops then Suc (ws ! k) else ws ! k"
  have c: "sys_ok s" "traced_from zeroed (sys_val s) s" "validate_core s (int k)" "length ws = n"
    "length (s_trace s) = (\<Sum>i\<leftarrow>ws. i)" "ws ! k \<le> nat ops" "\<forall>i \<in> set ws. i \<le> nat ops"
    using assms by (auto simp: sc_inv_def)
  obtain s' where s': "sc_worker draws seed ops (int k) (ws ! k) s = Inr (?i, s')" "sys_ok s'" "traced_from zeroed (sys_val s') s'"
    "validate_core s' = validate_core s" "length (s_trace s') = length (s_trace s) + of_bool (int (ws ! k) < ops)"
    using sc_worker_step [OF c(1-3)] by blast
  have "length (s_trace s') = (\<Sum>i\<leftarrow>ws[k := ?i]. i)"
    using sum_list_map_update [of k ws "\<lambda>i. i" ?i] s'(5) c(4,5) assms(2) by (simp split: if_splits)
  moreover have "\<forall>i \<in> set (ws[k := ?i]). i \<le> nat ops"
    using c(6,7) by (auto dest!: subsetD [OF set_update_subset_insert])
  ultimately show ?thesis using s' c assms by (auto simp: sc_inv_def)
qed

lemma sc_pool_inv:
  assumes "(pool_step (sc_worker draws seed ops))\<^sup>*\<^sup>* (s, ws) st" and "sc_inv ops n (s, ws)"
  shows "sc_inv ops n st"
  using assms
proof (induction rule: rtranclp_induct)
  case (step st st')
  obtain s1 ws1 where st: "st = (s1, ws1)" by (cases st)
  from step st obtain k w s' where "k < length ws1" "sc_worker draws seed ops (int k) (ws1 ! k) s1 = Inr (w, s')"
    "st' = (s', ws1[k := w])" by (auto elim: pool_stepE)
  moreover have "sc_inv ops n (s1, ws1)" using step st by simp
  moreover from this have "length ws1 = n" by (simp add: sc_inv_def)
  ultimately show ?case using sc_inv_step [of ops n s1 ws1 k draws seed] by auto
qed

lemma sc_inv_start:
  assumes "sc_setup engine n seed race = Inr s" and "\<And>x. shuffles_ok (engine x)"
  shows "sc_inv ops (nat n) (s, replicate (nat n) 0)"
  using sc_setup_ok [OF assms] by (auto simp: sc_inv_def validate_core_eq)

lemma sc_stress_keeps:
  assumes "sc_stress draws engine n ops seed race g g'" and "\<And>x. shuffles_ok (engine x)"
    and "nat n * nat ops \<le> 2 ^ 64"
  shows "g' = g"
  using assms(1)
proof cases
  case (stress s s' ws srt)
  have i: "sc_inv ops (nat n) (s', ws)"
    by (rule sc_pool_inv [OF stress(3) sc_inv_start [OF stress(2) assms(2)]])
  have "(\<Sum>i\<leftarrow>ws. i) \<le> length ws * nat ops"
    using i sum_list_bounded [of ws "nat ops"] by (auto simp: sc_inv_def)
  with i assms(3) have "length (s_trace s') \<le> 2 ^ 64" by (auto simp: sc_inv_def)
  with traced_linear [of srt "sys_val s'" s'] i stress(1,5) show ?thesis by (auto simp: sc_inv_def)
qed

text \<open>The threads of a stress run can always come to an end.\<close>

lemma sc_stress_exists:
  assumes "0 < n" and "\<And>x. shuffles_ok (engine x)"
  shows "\<exists>g'. sc_stress draws engine n ops seed race g g'"
proof -
  obtain s where s: "sc_setup engine n seed race = Inr s"
    using assms(1) by (auto simp: sc_setup_def MesiSystem_new_def checked_core_count_def Let_def)
  let ?I = "\<lambda>s ws. sc_inv ops (nat n) (s, ws)"
  have "\<exists>s' w. (pool_step (sc_worker draws seed ops))\<^sup>*\<^sup>* (s, ws) (s', ws[k := w]) \<and> ?I s' (ws[k := w])
      \<and> nat ops - w < nat ops - ws ! k"
    if "?I s ws" "k < length ws" "nat ops - ws ! k \<noteq> 0" for s ws k
  proof -
    have "k < nat n" "int (ws ! k) < ops" using that by (auto simp: sc_inv_def)
    with sc_inv_step [OF that(1), of k draws seed] obtain s' where
      "sc_worker draws seed ops (int k) (ws ! k) s = Inr (Suc (ws ! k), s')" "?I s' (ws[k := Suc (ws ! k)])" by auto
    with that(3) pool [of k ws "sc_worker draws seed ops", OF that(2)] show ?thesis
      by (intro exI [of _ s'] exI [of _ "Suc (ws ! k)"]) auto
  qed
  from pool_finishes [where mu = "\<lambda>i. nat ops - i" and I = ?I, OF sc_inv_start [OF s assms(2)] this]
  obtain s' ws where run: "(pool_step (sc_worker draws seed ops))\<^sup>*\<^sup>* (s, replicate (nat n) 0) (s', ws)"
    "\<forall>i \<in> set ws. nat ops - i = 0" by blast
  then have "\<forall>i \<in> set ws. ops \<le> int i" by auto
  from stress [OF s run(1) this sort_ok_stable] show ?thesis by blast
qed

section \<open>The false-sharing table\<close>

definition fs_row :: "u32 \<Rightarrow> exn + string" where
  "fs_row off =
     sbind (MesiSystem_new 2) (\<lambda>s.
     sbind (false_sharing 0x4000 (0x4000 + off) 100 s) (\<lambda>s.
       let p = b_perf (s_bus s);
           inv = inv_count p ! 0 + inv_count p ! 1
       in Inr (dec_of_nat (unat off) @ '','' @ dec_of_nat (unat (total_bus_txns p)) @ '',''
               @ dec_of_nat (unat (bus_rdx_count p)) @ '','' @ dec_of_nat (unat inv) @ newline)))"

text \<open>\<^verbatim>\<open>for (uint32_t off = 4; off <= 128; off += 4)\<close>\<close>

definition fs_offsets :: "u32 list" where
  "fs_offsets = map (\<lambda>k. of_nat (4 * k)) [1..<33]"

definition emit_false_sharing_csv :: "exn + string" where
  "emit_false_sharing_csv =
     for_each (\<lambda>off f. sbind (fs_row off) (\<lambda>r. Inr (f @ r))) fs_offsets
       (''offset_bytes,total_bus_txns,bus_rdx,inv_total'' @ newline)"

text \<open>A row shows the traffic of the cliff: the offset decides whether the two words share a line.\<close>

lemma fs_row_eq:
  "fs_row off = Inr (dec_of_nat (unat off)
     @ (if line_of (0x4000 + off) = line_of 0x4000 then '',399,200,199'' else '',2,2,0'') @ newline)"
proof -
  obtain s where s: "MesiSystem_new 2 = Inr s" by (simp add: MesiSystem_new_def checked_core_count_def)
  show ?thesis
  proof (cases "line_of (0x4000 + off) = line_of 0x4000")
    case True
    obtain s' where s': "false_sharing 0x4000 (0x4000 + off) 100 s = Inr s'" "contended (line_of 0x4000) (nat 100) s'"
      using false_sharing_same_line [OF s _ True, of 100] by auto
    then have "bus_rdx_count (b_perf (s_bus s')) = 200" "total_bus_txns (b_perf (s_bus s')) = 399"
      "inv_count (b_perf (s_bus s')) ! 0 + inv_count (b_perf (s_bus s')) ! 1 = 199"
      by (simp_all add: contended_def sys_traffic_def bus_traffic_def traffic_of_def rdx_traffic_def total_bus_txns_def
          sys_inv_def bus_inv_def)
    with s s'(1) True show ?thesis by (simp add: fs_row_def Let_def dec_of_nat.simps digit_char_def)
  next
    case False
    obtain s' where s': "false_sharing 0x4000 (0x4000 + off) 100 s = Inr s'"
      "padded (line_of 0x4000) (line_of (0x4000 + off)) (nat 100) s'"
      using false_sharing_padded [OF s _ False, of 100] by auto
    then have "bus_rdx_count (b_perf (s_bus s')) = 2" "total_bus_txns (b_perf (s_bus s')) = 2"
      "inv_count (b_perf (s_bus s')) ! 0 + inv_count (b_perf (s_bus s')) ! 1 = 0"
      by (simp_all add: padded_def sys_traffic_def bus_traffic_def traffic_of_def rdx_traffic_def total_bus_txns_def
          sys_inv_def bus_inv_def)
    with s s'(1) False show ?thesis by (simp add: fs_row_def Let_def dec_of_nat.simps [of 2] dec_of_nat.simps [of 0] digit_char_def)
  qed
qed

lemma for_each_rows: "(\<And>x. x \<in> set xs \<Longrightarrow> r x = Inr (q x)) \<Longrightarrow>
  for_each (\<lambda>x f. sbind (r x) (\<lambda>y. Inr (f @ y))) xs f = Inr (f @ concat (map q xs))"
  by (induction xs arbitrary: f) simp_all

lemma same_line_offset:
  assumes "k < 2 ^ 16"
  shows "line_of (0x4000 + of_nat (4 * k)) = line_of 0x4000 \<longleftrightarrow> k < 16"
proof -
  have "unat (0x4000 + of_nat (4 * k) :: u32) = 0x4000 + 4 * k"
    using assms by (simp add: unat_word_ariths unat_of_nat take_bit_nat_eq_self)
  then have "unat (line_of (0x4000 + of_nat (4 * k))) = 64 * ((0x4000 + 4 * k) div 64)" by (simp add: unat_line_of)
  moreover have "unat (line_of 0x4000) = 0x4000" by (simp add: unat_line_of)
  ultimately show ?thesis by (simp add: word_unat_eq_iff) linarith
qed

lemma false_sharing_csv_rows:
  "emit_false_sharing_csv = Inr (''offset_bytes,total_bus_txns,bus_rdx,inv_total'' @ newline
     @ concat (map (\<lambda>k. dec_of_nat (4 * k) @ (if k < 16 then '',399,200,199'' else '',2,2,0'') @ newline) [1..<33]))"
proof -
  let ?q = "\<lambda>off :: u32. dec_of_nat (unat off)
     @ (if line_of (0x4000 + off) = line_of 0x4000 then '',399,200,199'' else '',2,2,0'') @ newline"
  have "?q (of_nat (4 * k)) = dec_of_nat (4 * k) @ (if k < 16 then '',399,200,199'' else '',2,2,0'') @ newline"
    if "k \<in> set [1..<33]" for k
    using that same_line_offset [of k] unat_of_nat_small [of "4 * k"] by (simp del: of_nat_mult)
  then have "map (\<lambda>k. ?q (of_nat (4 * k))) [1..<33]
      = map (\<lambda>k. dec_of_nat (4 * k) @ (if k < 16 then '',399,200,199'' else '',2,2,0'') @ newline) [1..<33]"
    by (rule map_cong [OF refl])
  then show ?thesis
    unfolding emit_false_sharing_csv_def fs_offsets_def for_each_rows [where r = fs_row and q = ?q, OF fs_row_eq]
    by (simp only: map_map comp_def append_assoc)
qed

section \<open>Lock trials\<close>

definition lock_setup :: "int \<Rightarrow> exn + MesiSystem" where
  "lock_setup n =
     sbind (MesiSystem_new n) (\<lambda>s.
       let s = MesiSystem_register 0x100 s;
           s = MesiSystem_register 0x200 s
       in sbind (MesiSystem_write 0 0x100 0 s) (MesiSystem_write 0 0x200 0))"

inductive lock_trial :: "int \<Rightarrow> int \<Rightarrow> int \<Rightarrow> u64 \<Rightarrow> int \<Rightarrow> bool" for n K g where
  trial: "lock_setup n = Inr s
    \<Longrightarrow> (pool_step (tas_worker 0x100 0x200))\<^sup>*\<^sup>* (s, worker_pool Tas_cas (nat K) (nat n)) (s', ws)
    \<Longrightarrow> \<forall>w \<in> set ws. w = W_done
    \<Longrightarrow> MesiSystem_read 0 0x200 s' = Inr (v, s'')
    \<Longrightarrow> lock_trial n K g (total_bus_txns (b_perf (s_bus s''))) (expect (v = of_int (n * K)) g)"

text \<open>\<open>trials\<close> runs for one number of cores; then the totals are sorted.\<close>

definition lock_row :: "int \<Rightarrow> int \<Rightarrow> nat \<Rightarrow> int \<Rightarrow> u64 list \<Rightarrow> int \<Rightarrow> bool" where
  "lock_row n K trials g totals g' \<longleftrightarrow> (\<exists>ts. totals = sort ts
     \<and> chain (\<lambda>_ (ts, g) (ts', g'). \<exists>t. lock_trial n K g t g' \<and> ts' = ts @ [t]) [0..<trials] ([], g) (ts, g'))"

lemma lock_setup_ok:
  assumes "lock_setup n = Inr s"
  shows "sys_ok s \<and> n_cores s = n \<and> 0 < n \<and> sys_val s 0x100 = 0 \<and> sys_val s 0x200 = 0"
proof -
  obtain s0 where s0: "MesiSystem_new n = Inr s0" using assms by (cases "MesiSystem_new n") (auto simp: lock_setup_def)
  let ?cs = "[Call_register 0x100, Call_register 0x200, Call_write 0 0x100 0, Call_write 0 0x200 0]"
  have n: "n_cores s0 = n" "0 < n" "sys_val s0 = (\<lambda>_. 0)" "sys_ok s0" using MesiSystem_newD [OF s0] by simp_all
  have s: "s = snd (exec_calls ?cs s0)"
    using assms s0 by (auto simp: lock_setup_def Let_def lift_unit_def sbind_def split: sum.splits)
  have "sys_ok s \<and> n_cores s = n \<and> sys_val s = snd (flat_calls n ?cs (\<lambda>_. 0))"
    using exec_calls_refines [OF n(4), of ?cs] n unfolding s by (simp del: exec_calls.simps flat_calls.simps)
  with n(2) show ?thesis by (auto simp: flat_guard_def simp del: exec_calls.simps)
qed

lemma lock_setup_exists:
  assumes "0 < n"
  shows "\<exists>s. lock_setup n = Inr s"
proof -
  obtain s0 where s0: "MesiSystem_new n = Inr s0" using assms by (auto simp: MesiSystem_new_def checked_core_count_def)
  let ?s = "MesiSystem_register 0x200 (MesiSystem_register 0x100 s0)"
  have n: "n_cores s0 = n" "sys_ok s0" using MesiSystem_newD [OF s0] by simp_all
  have "sys_ok ?s" "n_cores ?s = n"
    using exec_calls_refines [OF n(2), of "[Call_register 0x100, Call_register 0x200]"] n(1) by auto
  then have v: "sys_ok ?s" "validate_core ?s 0" using assms by (simp_all add: validate_core_eq)
  obtain s1 where s1: "MesiSystem_write 0 0x100 0 ?s = Inr s1" "sys_ok s1" "validate_core s1 0"
    using MesiSystem_write_ok [OF v, of "0x100" 0] v(2) by auto
  obtain s2 where "MesiSystem_write 0 0x200 0 s1 = Inr s2" using MesiSystem_write_ok [OF s1(2,3), of "0x200" 0] by auto
  with s0 s1(1) show ?thesis by (simp add: lock_setup_def Let_def)
qed

lemma lock_trial_keeps:
  assumes "lock_trial n K g txns g'" and "0 \<le> K"
  shows "g' = g"
  using assms(1)
proof cases
  case (trial s s' ws v s'')
  have ok: "sys_ok s" "n_cores s = int (nat n)" "0 < n" "sys_val s 0x100 = 0" "sys_val s 0x200 = 0"
    using lock_setup_ok [OF trial(3)] by simp_all
  have i: "counting_inv (nat n) (tas_inv 0x100) 0x200 (sys_val s 0x200 + of_nat (nat n * nat K)) (s', ws)"
    by (rule tas_pool_inv [OF trial(4) ok(1,2,4)]) simp
  then have s': "sys_ok s'" "validate_core s' 0" using ok(3) by (auto simp: counting_inv_def dest: spec [of _ 0])
  have "sys_val s' 0x200 = of_nat (nat n * nat K)" using tas.all_counted [OF i trial(5)] ok(5) by simp
  moreover have "v = sys_val s' 0x200" using sys.rdD(1) [OF trial(6) s'] .
  moreover have "int (nat n * nat K) = n * K" using ok(3) assms(2) by simp
  ultimately have "v = of_int (n * K)" by (metis of_int_of_nat_eq)
  with trial(2) show ?thesis by simp
qed

text \<open>A worker that finds the lock free does its round.\<close>

definition lock_idle :: "nat \<Rightarrow> MesiSystem \<Rightarrow> (tas_pc, unit) worker list \<Rightarrow> bool" where
  "lock_idle n s ws \<longleftrightarrow> sys_ok s \<and> (\<forall>i < n. validate_core s (int i)) \<and> length ws = n \<and> sys_val s 0x100 = 0
     \<and> (\<forall>w \<in> set ws. w = W_done \<or> (\<exists>r. w = W_lock r Tas_cas))"

lemma lock_round:
  assumes "lock_idle n s ws" and "k < length ws" and "pending (ws ! k) \<noteq> 0"
  shows "\<exists>s' w. (pool_step (tas_worker 0x100 0x200))\<^sup>*\<^sup>* (s, ws) (s', ws[k := w]) \<and> lock_idle n s' (ws[k := w])
    \<and> pending w < pending (ws ! k)"
proof -
  have c: "sys_ok s" "validate_core s (int k)" "sys_val s 0x100 = 0" "\<forall>w \<in> set ws. w = W_done \<or> (\<exists>r. w = W_lock r Tas_cas)"
    using assms(1,2) by (auto simp: lock_idle_def)
  obtain r where r: "ws ! k = W_lock r Tas_cas" using bspec [OF c(4) nth_mem [OF assms(2)]] assms(3) by auto
  let ?act = "tas_worker 0x100 0x200" and ?w = "next_round Tas_cas r :: (tas_pc, unit) worker"
  have step: "pool_step ?act (s1, ws[k := w1]) (s2, ws[k := w2])" if "?act (int k) w1 s1 = Inr (w2, s2)" for s1 s2 w1 w2
    using pool [of k "ws[k := w1]" ?act s1 w2 s2] that assms(2) by simp
  obtain s1 where s1: "?act (int k) (W_lock r Tas_cas) s = Inr (W_read r (), s1)" "sys_ok s1" "validate_core s1 = validate_core s"
    using Dut_cas_ok [OF c(1,2), of "0x100" 0 1] c(3) by auto
  obtain v s2 where s2: "?act (int k) (W_read r ()) s1 = Inr (W_write r () v, s2)" "sys_ok s2" "validate_core s2 = validate_core s"
    using Dut_read_ok [OF s1(2), of "int k" "0x200"] s1(3) c(2) by auto
  obtain s3 where s3: "?act (int k) (W_write r () v) s2 = Inr (W_unlock r (), s3)" "sys_ok s3" "validate_core s3 = validate_core s"
    using Dut_write_ok [OF s2(2), of "int k" "0x200" "v + 1"] s2(3) c(2) by auto
  obtain s4 where s4: "?act (int k) (W_unlock r ()) s3 = Inr (?w, s4)" "sys_ok s4" "validate_core s4 = validate_core s"
    "sys_val s4 0x100 = 0"
    using Dut_write_ok [OF s3(2), of "int k" "0x100" 0] s3(3) c(2) by (auto simp: TASLock_unlock_def)
  have "(pool_step ?act)\<^sup>*\<^sup>* (s, ws[k := W_lock r Tas_cas]) (s4, ws[k := ?w])"
    using step [OF s1(1)] step [OF s2(1)] step [OF s3(1)] step [OF s4(1)]
    by (meson r_into_rtranclp rtranclp.rtrancl_into_rtrancl)
  then have run: "(pool_step ?act)\<^sup>*\<^sup>* (s, ws) (s4, ws[k := ?w])" using list_update_id [of ws k] r by simp
  have "\<forall>w \<in> set (ws[k := ?w]). w = W_done \<or> (\<exists>r. w = W_lock r Tas_cas)"
    using c(4) by (cases r) (auto dest!: subsetD [OF set_update_subset_insert])
  with s4 assms(1) have "lock_idle n s4 (ws[k := ?w])" by (simp add: lock_idle_def)
  with run r show ?thesis by (intro exI [of _ s4] exI [of _ ?w]) simp
qed

lemma lock_trial_exists:
  assumes "0 < n"
  shows "\<exists>t g'. lock_trial n K g t g'"
proof -
  obtain s where s: "lock_setup n = Inr s" using lock_setup_exists [OF assms] by blast
  note ok = lock_setup_ok [OF s]
  have "lock_idle (nat n) s (worker_pool Tas_cas (nat K) (nat n))"
    using ok by (cases "nat K") (auto simp: lock_idle_def worker_pool_def validate_core_eq)
  from pool_finishes [where I = "lock_idle (nat n)" and mu = pending and act = "tas_worker 0x100 0x200", OF this] lock_round
  obtain s' ws where run: "(pool_step (tas_worker 0x100 0x200))\<^sup>*\<^sup>* (s, worker_pool Tas_cas (nat K) (nat n)) (s', ws)"
    "lock_idle (nat n) s' ws" "\<forall>w \<in> set ws. pending w = 0" by blast
  have d: "\<forall>w \<in> set ws. w = W_done" using run(2,3) by (fastforce simp: lock_idle_def)
  have "sys_ok s'" "validate_core s' 0" using run(2) assms by (auto simp: lock_idle_def dest: spec [of _ 0])
  from MesiSystem_read_ok [OF this, of "0x200"] trial [OF s run(1) d] show ?thesis by blast
qed


lemma lock_row_keeps:
  assumes "lock_row n K trials g totals g'" and "0 \<le> K"
  shows "g' = g"
proof -
  obtain ts where "chain (\<lambda>_ (ts, g) (ts', g'). \<exists>t. lock_trial n K g t g' \<and> ts' = ts @ [t]) [0..<trials] ([], g) (ts, g')"
    using assms(1) by (auto simp: lock_row_def)
  then have "snd (ts, g') = g"
    by (rule chain_keeps [where P = "\<lambda>st. snd st = g"]) (auto dest: lock_trial_keeps [OF _ assms(2)])
  then show ?thesis by simp
qed

lemma lock_row_exists:
  assumes "0 < n"
  shows "\<exists>totals g'. lock_row n K trials g totals g'"
proof -
  have "\<exists>st. chain (\<lambda>_ (ts, g) (ts', g'). \<exists>t. lock_trial n K g t g' \<and> ts' = ts @ [t]) [0..<trials] ([], g) st"
  proof (rule chain_exists [where P = "\<lambda>_. True"])
    fix x and st :: "u64 list \<times> int"
    obtain ts g where st: "st = (ts, g)" by (cases st)
    obtain t g' where "lock_trial n K g t g'" using lock_trial_exists [OF assms] by blast
    then show "\<exists>st'. (\<lambda>(ts, g) (ts', g'). \<exists>t. lock_trial n K g t g' \<and> ts' = ts @ [t]) st st' \<and> True"
      by (intro exI [of _ "(ts @ [t], g')"]) (auto simp: st)
  qed simp
  then show ?thesis by (auto simp: lock_row_def)
qed

definition emit_lock_scalability :: "int \<Rightarrow> int \<Rightarrow> bool" where
  "emit_lock_scalability = chain (\<lambda>n g g'. \<exists>totals. lock_row n 500 7 g totals g') [1, 2, 3, 4]"

section \<open>The litmus table\<close>

inductive litmus_row :: "(nat \<Rightarrow> u64) \<Rightarrow> nat \<Rightarrow> bool \<Rightarrow> int \<Rightarrow> int \<Rightarrow> int \<Rightarrow> bool" for rng trials fenced g where
  row: "litmus_setup = Inr s
    \<Longrightarrow> chain (\<lambda>_. litmus_trial rng fenced) [0..<trials] (s, 0) (s', viol)
    \<Longrightarrow> litmus_row rng trials fenced g viol (if fenced then expect (viol = 0) g else expect (0 < viol) g)"

definition emit_tso_litmus :: "(nat \<Rightarrow> u64) \<Rightarrow> int \<Rightarrow> int \<Rightarrow> bool" where
  "emit_tso_litmus rng = chain (\<lambda>fenced g g'. \<exists>viol. litmus_row rng 500 fenced g viol g') [False, True]"

lemma litmus_row_counts:
  assumes "litmus_row rng trials fenced g viol g'" and "0 < trials"
  shows "viol = (if fenced then 0 else int trials) \<and> g' = g"
  using assms(1)
proof cases
  case (row s s')
  have "litmus_ready s" using litmus_setup_ready row(2) by (metis sum.inject(2))
  with litmus_chain [OF row(3)] row(1) assms(2) show ?thesis by simp
qed

lemma litmus_row_exists: "\<exists>viol g'. litmus_row rng trials fenced g viol g'"
proof -
  obtain s where s: "litmus_setup = Inr s" "litmus_ready s" using litmus_setup_ready by blast
  have "\<exists>st. chain (\<lambda>_. litmus_trial rng fenced) [0..<trials] (s, 0) st"
  proof (rule chain_exists [where P = "\<lambda>st. litmus_ready (fst st)"])
    fix x and st :: "MesiSystem \<times> int"
    assume r: "litmus_ready (fst st)"
    obtain st' where "litmus_trial rng fenced st st'" using litmus_trial_exists [OF r, of rng fenced "snd st"] by auto
    with litmus_trial_counts [OF this r] show "\<exists>st'. litmus_trial rng fenced st st' \<and> litmus_ready (fst st')" by blast
  qed (use s(2) in simp)
  with row [OF s(1)] show ?thesis by fastforce
qed

section \<open>The program\<close>

definition ping_pong_summary :: "exn + MesiSystem" where
  "ping_pong_summary = sbind (MesiSystem_new 2) (ping_pong 0x1000 100)"

definition reader_storm_summary :: "exn + MesiSystem" where
  "reader_storm_summary = sbind (MesiSystem_new 4) (\<lambda>s. reader_storm 0x8000 (MesiSystem_register 0x8000 s))"

definition sc_runs :: "draws \<Rightarrow> (u64 \<Rightarrow> shuffles) \<Rightarrow> int \<Rightarrow> int \<Rightarrow> bool" where
  "sc_runs draws engine = chain (\<lambda>seed g g'. \<exists>g1. sc_stress draws engine 4 200 seed False g g1
     \<and> sc_stress draws engine 4 200 seed True g1 g') (map of_nat [1..<26])"

inductive main :: "draws \<Rightarrow> (u64 \<Rightarrow> shuffles) \<Rightarrow> (nat \<Rightarrow> u64) \<Rightarrow> int \<Rightarrow> bool" for draws engine rng where
  main: "ping_pong_summary = Inr s1
    \<Longrightarrow> reader_storm_summary = Inr s2
    \<Longrightarrow> g1 = expect (bus_rdx_count (b_perf (s_bus s1)) = 200) 0
    \<Longrightarrow> g2 = expect (bus_rd_count (b_perf (s_bus s2)) = 4 \<and> bus_rdx_count (b_perf (s_bus s2)) = 0) g1
    \<Longrightarrow> sc_runs draws engine g2 g3
    \<Longrightarrow> emit_false_sharing_csv = Inr csv
    \<Longrightarrow> emit_lock_scalability g3 g4
    \<Longrightarrow> emit_tso_litmus rng g4 g5
    \<Longrightarrow> main draws engine rng (if g5 \<noteq> 0 then 1 else 0)"

lemma ping_pong_summary_ok: "\<exists>s. ping_pong_summary = Inr s \<and> bus_rdx_count (b_perf (s_bus s)) = 200"
proof -
  obtain s where s: "MesiSystem_new 2 = Inr s" by (simp add: MesiSystem_new_def checked_core_count_def)
  from ping_pong_run [OF s, of 100 "0x1000"] s show ?thesis
    by (auto simp: ping_pong_summary_def contended_def sys_traffic_def bus_traffic_def traffic_of_def rdx_traffic_def)
qed

lemma reader_storm_summary_ok:
  "\<exists>s. reader_storm_summary = Inr s \<and> bus_rd_count (b_perf (s_bus s)) = 4 \<and> bus_rdx_count (b_perf (s_bus s)) = 0"
proof -
  obtain s where s: "MesiSystem_new 4 = Inr s" by (simp add: MesiSystem_new_def checked_core_count_def)
  from reader_storm_run [OF stormed_register [OF stormed_new [OF s, of "line_of 0x8000"], of "0x8000"]] s show ?thesis
    by (auto simp: reader_storm_summary_def stormed_def sys_traffic_def bus_traffic_def traffic_of_def)
qed

text \<open>No check of the program fails, whatever the scheduler, the draws and the shuffles do.\<close>

lemma main_returns_0:
  assumes "main draws engine rng code" and "\<And>x. shuffles_ok (engine x)"
  shows "code = 0"
  using assms(1)
proof cases
  case (main s1 s2 g1 g2 g3 csv g4 g5)
  have "bus_rdx_count (b_perf (s_bus s1)) = 200" using main(2) ping_pong_summary_ok by (metis sum.inject(2))
  moreover have "bus_rd_count (b_perf (s_bus s2)) = 4 \<and> bus_rdx_count (b_perf (s_bus s2)) = 0"
    using main(3) reader_storm_summary_ok by (metis sum.inject(2))
  ultimately have "g2 = 0" using main(4,5) by simp
  moreover have "g3 = g2"
  proof (rule chain_keeps [where P = "\<lambda>g. g = g2", OF main(6) [unfolded sc_runs_def] refl])
    have "sc_stress draws engine 4 200 seed race g g' \<Longrightarrow> g' = g" for seed race g g'
      by (rule sc_stress_keeps [OF _ assms(2)]) (assumption, simp add: nat_numeral)
    then show "g' = g2" if "\<exists>g1. sc_stress draws engine 4 200 seed False g g1 \<and> sc_stress draws engine 4 200 seed True g1 g'"
      "g = g2" for seed g g' using that by blast
  qed
  moreover have "g4 = g3"
    by (rule chain_keeps [where P = "\<lambda>g. g = g3", OF main(8) [unfolded emit_lock_scalability_def] refl])
      (auto dest: lock_row_keeps)
  moreover have "g5 = g4"
    by (rule chain_keeps [where P = "\<lambda>g. g = g4", OF main(9) [unfolded emit_tso_litmus_def] refl])
      (auto dest: litmus_row_counts)
  ultimately show ?thesis using main(1) by simp
qed

lemma main_exists:
  assumes "\<And>x. shuffles_ok (engine x)"
  shows "\<exists>code. main draws engine rng code"
proof -
  obtain s1 s2 where s: "ping_pong_summary = Inr s1" "reader_storm_summary = Inr s2"
    using ping_pong_summary_ok reader_storm_summary_ok by blast
  have 1: "\<exists>g'. sc_runs draws engine g g'" for g
    unfolding sc_runs_def
    by (rule chain_exists [where P = "\<lambda>_. True"])
      (use sc_stress_exists [of 4 engine draws 200, OF _ assms] in \<open>simp, meson zero_less_numeral\<close>)
  have 2: "\<exists>g'. emit_lock_scalability g g'" for g
    unfolding emit_lock_scalability_def
    by (rule chain_exists [where P = "\<lambda>_. True"]) (simp, use lock_row_exists [of _ 500 7] in \<open>simp, metis zero_less_numeral zero_less_one\<close>)
  have 3: "\<exists>g'. emit_tso_litmus rng g g'" for g
    unfolding emit_tso_litmus_def
    by (rule chain_exists [where P = "\<lambda>_. True"]) (simp, use litmus_row_exists [of rng 500] in \<open>simp, meson\<close>)
  from main [OF s refl refl _ false_sharing_csv_rows] 1 2 3 show ?thesis by metis
qed

end
