(* ===== verification/Rtl_Fsm.thy ===== *)
theory Rtl_Fsm
  imports Bus_Traffic
begin

text \<open>
  The combinational next-state logic of the hardware, \<^verbatim>\<open>rtl/mesi_fsm.sv\<close>, and its agreement with the
  transitions of the C++ controller. The enumerations of \<^verbatim>\<open>rtl/mesi_pkg.sv\<close> have the members and the values
  of those in \<^verbatim>\<open>model/mesi_types.hpp\<close>, so the datatypes are shared. A cast of a number that is no member
  (5, 6, 7 for a transaction, 3 for a request) gives a value on which every case of the logic takes its
  default branch, as the idle member does.
\<close>

section \<open>Members from their numbers\<close>

definition mesi_state_cast :: "u8 \<Rightarrow> State" where
  "mesi_state_cast v = (if v = 3 then State_M else if v = 2 then State_E else if v = 1 then State_S else State_I)"

definition pr_req_cast :: "u8 \<Rightarrow> PrReq" where
  "pr_req_cast v = (if v = 1 then PrRd else if v = 2 then PrWr else PrReq_None)"

definition bus_txn_cast :: "u8 \<Rightarrow> BusTxn" where
  "bus_txn_cast v = (if v = 1 then BusRd else if v = 2 then BusRdX else if v = 3 then BusUpgr
     else if v = 4 then BusWB else BusTxn_None)"

lemma casts_invert [simp]:
  "mesi_state_cast (State_val st) = st" "bus_txn_cast (BusTxn_val txn) = txn"
  by (cases st; simp add: mesi_state_cast_def) (cases txn; simp add: bus_txn_cast_def)

section \<open>The logic\<close>

definition fsm_req_txn :: "State \<Rightarrow> PrReq \<Rightarrow> BusTxn" where
  "fsm_req_txn cur pr = (case pr of
     PrRd \<Rightarrow> if cur = State_I then BusRd else BusTxn_None
   | PrWr \<Rightarrow> (case cur of State_I \<Rightarrow> BusRdX | State_S \<Rightarrow> BusUpgr | _ \<Rightarrow> BusTxn_None)
   | _ \<Rightarrow> BusTxn_None)"

definition fsm_needs_bus :: "State \<Rightarrow> PrReq \<Rightarrow> bool" where
  "fsm_needs_bus cur pr \<longleftrightarrow> fsm_req_txn cur pr \<noteq> BusTxn_None"

definition fsm_pr_next :: "State \<Rightarrow> PrReq \<Rightarrow> bool \<Rightarrow> State" where
  "fsm_pr_next cur pr shared_in = (case pr of
     PrRd \<Rightarrow> if cur = State_I then (if shared_in then State_S else State_E) else cur
   | PrWr \<Rightarrow> State_M
   | _ \<Rightarrow> cur)"

definition fsm_snoop_next :: "State \<Rightarrow> BusTxn \<Rightarrow> State" where
  "fsm_snoop_next cur txn = (case txn of
     BusRd \<Rightarrow> if cur = State_M then State_S else if cur = State_E then State_S else cur
   | BusRdX \<Rightarrow> if cur \<noteq> State_I then State_I else cur
   | BusUpgr \<Rightarrow> if cur \<noteq> State_I then State_I else cur
   | _ \<Rightarrow> cur)"

definition fsm_snoop_wb :: "State \<Rightarrow> BusTxn \<Rightarrow> bool" where
  "fsm_snoop_wb cur txn = (case txn of
     BusRd \<Rightarrow> cur = State_M
   | BusRdX \<Rightarrow> cur = State_M
   | _ \<Rightarrow> False)"

lemmas fsm_defs = fsm_req_txn_def fsm_needs_bus_def fsm_pr_next_def fsm_snoop_next_def fsm_snoop_wb_def

lemmas [exec_simps] = fsm_defs mesi_state_cast_def pr_req_cast_def bus_txn_cast_def

section \<open>Agreement with the controller\<close>

lemma fsm_wb_flushes: "fsm_snoop_wb st txn \<longleftrightarrow> flushes txn st"
  by (cases txn) (simp_all add: fsm_snoop_wb_def flushes_def)

lemma fsm_snoop_agrees:
  assumes "j < bus_n_cores b"
  shows "lstate (snd (snoop txn addr iss j b)) j (line_of addr) = fsm_snoop_next (lstate b j (line_of addr)) txn"
    and "intervened (fst (snoop txn addr iss j b)) \<longleftrightarrow> fsm_snoop_wb (lstate b j (line_of addr)) txn"
proof -
  show "lstate (snd (snoop txn addr iss j b)) j (line_of addr) = fsm_snoop_next (lstate b j (line_of addr)) txn"
    using assms by (cases txn; cases "lstate b j (line_of addr)")
      (simp_all add: snoop_controller line_state_snooped fsm_snoop_next_def)
  show "intervened (fst (snoop txn addr iss j b)) \<longleftrightarrow> fsm_snoop_wb (lstate b j (line_of addr)) txn"
    by (simp add: snoop_result fsm_wb_flushes)
qed

text \<open>What the transaction a request needs adds to the traffic.\<close>

definition txn_traffic :: "BusTxn \<Rightarrow> bool \<Rightarrow> traffic \<Rightarrow> traffic" where
  "txn_traffic txn dirty t = (case txn of
     BusRd \<Rightarrow> add_rd (add_wb (of_bool dirty) t)
   | BusRdX \<Rightarrow> add_rdx (add_wb (of_bool dirty) t)
   | BusUpgr \<Rightarrow> add_upgr t
   | _ \<Rightarrow> t)"

lemma fsm_processor_agrees:
  assumes "coherent b" and "i < bus_n_cores b"
  shows "lstate (snd (processor_read i a b)) i (line_of a)
      = fsm_pr_next (lstate b i (line_of a)) PrRd (other_copy b i (line_of a))"
    and "lstate (snd (acquire_exclusive i a b)) i (line_of a) = fsm_pr_next (lstate b i (line_of a)) PrWr sh"
    and "bus_traffic (snd (processor_read i a b))
      = txn_traffic (fsm_req_txn (lstate b i (line_of a)) PrRd) (dirty_peer b i (line_of a)) (bus_traffic b)"
    and "bus_traffic (snd (acquire_exclusive i a b))
      = txn_traffic (fsm_req_txn (lstate b i (line_of a)) PrWr) (dirty_peer b i (line_of a)) (bus_traffic b)"
  using processor_read_states [OF assms assms(2), of a] acquire_exclusive_states [OF assms assms(2), of a]
  by (simp_all add: fsm_pr_next_def fsm_req_txn_def txn_traffic_def processor_read_traffic [OF assms(1)]
      acquire_exclusive_traffic [OF assms(1)] split: State.split)

end
