(* ===== verification/Rtl_System.thy ===== *)
theory Rtl_System
  imports Rtl_Fsm
begin

text \<open>
  The four-core hardware: \<^verbatim>\<open>rtl/cache_array.sv\<close>, \<^verbatim>\<open>rtl/l1_cache.sv\<close>, \<^verbatim>\<open>rtl/bus_interface.sv\<close>,
  \<^verbatim>\<open>rtl/snooping_bus.sv\<close>, \<^verbatim>\<open>rtl/memory_controller.sv\<close>, \<^verbatim>\<open>rtl/perf_counters.sv\<close> and \<^verbatim>\<open>rtl/mesi_top.sv\<close>. Registers are a
  record, a combinational net is a function of the inputs and the registers, and \<open>rtl_clock\<close> is the clock edge
  of all modules at once: every right-hand side reads the registers as they were.
\<close>

section \<open>Addresses and registers\<close>

definition N_CORES :: nat where
  "N_CORES = 4"

definition addr_index :: "u32 \<Rightarrow> 6 word" where
  "addr_index a = ucast (drop_bit 6 a)"

definition addr_tag :: "u32 \<Rightarrow> 20 word" where
  "addr_tag a = ucast (drop_bit 12 a)"

definition midx :: "u32 \<Rightarrow> 10 word" where
  "midx a = ucast (drop_bit 6 a)"

record cache_array =
  tag_arr :: "6 word \<Rightarrow> 20 word"
  state_arr :: "6 word \<Rightarrow> State"
  data_arr :: "6 word \<Rightarrow> u32"

record perf_regs =
  p_rd :: u32
  p_rdx :: u32
  p_upgr :: u32
  p_wb :: u32
  p_busy :: u32
  p_hit :: "nat \<Rightarrow> u32"
  p_miss :: "nat \<Rightarrow> u32"
  p_inv :: "nat \<Rightarrow> u32"
  p_stall :: "nat \<Rightarrow> u32"

record rtl_regs =
  r_l1 :: "nat \<Rightarrow> cache_array"
  r_ptr :: "2 word"
  r_mem :: "10 word \<Rightarrow> u32"
  r_perf :: perf_regs

text \<open>The CPU side of the ports of all cores.\<close>

record rtl_inputs =
  i_req :: "nat \<Rightarrow> bool"
  i_we :: "nat \<Rightarrow> bool"
  i_addr :: "nat \<Rightarrow> u32"
  i_wdata :: "nat \<Rightarrow> u32"

section \<open>The cache array\<close>

definition lk_state :: "cache_array \<Rightarrow> u32 \<Rightarrow> State" where
  "lk_state c a = (if tag_arr c (addr_index a) = addr_tag a then state_arr c (addr_index a) else State_I)"

definition lk_data :: "cache_array \<Rightarrow> u32 \<Rightarrow> u32" where
  "lk_data c a = data_arr c (addr_index a)"

text \<open>The write port: address, state and, if the data are written too, the data.\<close>

definition array_write :: "(u32 \<times> State \<times> u32 option) option \<Rightarrow> cache_array \<Rightarrow> cache_array" where
  "array_write w c = (case w of None \<Rightarrow> c
   | Some (a, st, d) \<Rightarrow>
       \<lparr>tag_arr = (tag_arr c)(addr_index a := addr_tag a),
        state_arr = (state_arr c)(addr_index a := st),
        data_arr = (case d of None \<Rightarrow> data_arr c | Some v \<Rightarrow> (data_arr c)(addr_index a := v))\<rparr>)"

section \<open>Requests and arbitration\<close>

definition l1_pr :: "rtl_inputs \<Rightarrow> nat \<Rightarrow> PrReq" where
  "l1_pr i k = (if \<not> i_req i k then PrReq_None else if i_we i k then PrWr else PrRd)"

definition cpu_state :: "rtl_inputs \<Rightarrow> rtl_regs \<Rightarrow> nat \<Rightarrow> State" where
  "cpu_state i r k = lk_state (r_l1 r k) (i_addr i k)"

definition req_txn :: "rtl_inputs \<Rightarrow> rtl_regs \<Rightarrow> nat \<Rightarrow> BusTxn" where
  "req_txn i r k = fsm_req_txn (cpu_state i r k) (l1_pr i k)"

definition needs_bus :: "rtl_inputs \<Rightarrow> rtl_regs \<Rightarrow> nat \<Rightarrow> bool" where
  "needs_bus i r k = fsm_needs_bus (cpu_state i r k) (l1_pr i k)"

definition req_valid :: "rtl_inputs \<Rightarrow> rtl_regs \<Rightarrow> nat \<Rightarrow> bool" where
  "req_valid i r k \<longleftrightarrow> i_req i k \<and> needs_bus i r k"

text \<open>The round-robin arbiter: the first requester from the priority pointer on, or nobody.\<close>

definition arb_step :: "(nat \<Rightarrow> bool) \<Rightarrow> 2 word \<Rightarrow> nat \<Rightarrow> nat option \<Rightarrow> nat option" where
  "arb_step rv ptr k w =
     (let idx = unat (ptr + of_nat k) in if w = None \<and> rv idx then Some idx else w)"

definition arb_winner :: "(nat \<Rightarrow> bool) \<Rightarrow> 2 word \<Rightarrow> nat option" where
  "arb_winner rv ptr = fold (arb_step rv ptr) [0..<N_CORES] None"

definition bus_winner :: "rtl_inputs \<Rightarrow> rtl_regs \<Rightarrow> nat option" where
  "bus_winner i r = arb_winner (req_valid i r) (r_ptr r)"

definition grant :: "rtl_inputs \<Rightarrow> rtl_regs \<Rightarrow> nat \<Rightarrow> bool" where
  "grant i r k \<longleftrightarrow> bus_winner i r = Some k"

definition bus_active :: "rtl_inputs \<Rightarrow> rtl_regs \<Rightarrow> bool" where
  "bus_active i r \<longleftrightarrow> bus_winner i r \<noteq> None"

definition bus_txn :: "rtl_inputs \<Rightarrow> rtl_regs \<Rightarrow> BusTxn" where
  "bus_txn i r = (case bus_winner i r of None \<Rightarrow> BusTxn_None | Some w \<Rightarrow> req_txn i r w)"

definition bus_addr :: "rtl_inputs \<Rightarrow> rtl_regs \<Rightarrow> u32" where
  "bus_addr i r = (case bus_winner i r of None \<Rightarrow> 0 | Some w \<Rightarrow> i_addr i w)"

section \<open>Snoops\<close>

definition snp_state :: "rtl_inputs \<Rightarrow> rtl_regs \<Rightarrow> nat \<Rightarrow> State" where
  "snp_state i r k = lk_state (r_l1 r k) (bus_addr i r)"

definition snoop_next :: "rtl_inputs \<Rightarrow> rtl_regs \<Rightarrow> nat \<Rightarrow> State" where
  "snoop_next i r k = fsm_snoop_next (snp_state i r k)
     (if bus_active i r \<and> \<not> grant i r k then bus_txn i r else BusTxn_None)"

definition snoop_had_copy :: "rtl_inputs \<Rightarrow> rtl_regs \<Rightarrow> nat \<Rightarrow> bool" where
  "snoop_had_copy i r k \<longleftrightarrow> bus_active i r \<and> \<not> grant i r k \<and> snp_state i r k \<noteq> State_I"

definition snoop_dirty :: "rtl_inputs \<Rightarrow> rtl_regs \<Rightarrow> nat \<Rightarrow> bool" where
  "snoop_dirty i r k \<longleftrightarrow> snoop_had_copy i r k \<and> snp_state i r k = State_M"

definition snoop_write :: "rtl_inputs \<Rightarrow> rtl_regs \<Rightarrow> nat \<Rightarrow> bool" where
  "snoop_write i r k \<longleftrightarrow> (bus_active i r \<and> \<not> grant i r k) \<and> snoop_next i r k \<noteq> snp_state i r k"

text \<open>The aggregation over the cores: somebody has a copy; the data of the last dirty one.\<close>

definition agg_shared :: "rtl_inputs \<Rightarrow> rtl_regs \<Rightarrow> bool" where
  "agg_shared i r = fold (\<lambda>k sh. snoop_had_copy i r k \<or> sh) [0..<N_CORES] False"

definition agg_dirty :: "rtl_inputs \<Rightarrow> rtl_regs \<Rightarrow> u32 option" where
  "agg_dirty i r = fold (\<lambda>k d. if snoop_dirty i r k then Some (lk_data (r_l1 r k) (bus_addr i r)) else d) [0..<N_CORES] None"

definition supply_data :: "rtl_inputs \<Rightarrow> rtl_regs \<Rightarrow> u32" where
  "supply_data i r = (case agg_dirty i r of Some d \<Rightarrow> d | None \<Rightarrow> r_mem r (midx (bus_addr i r)))"

definition mem_wr_en :: "rtl_inputs \<Rightarrow> rtl_regs \<Rightarrow> bool" where
  "mem_wr_en i r \<longleftrightarrow> bus_active i r \<and> (bus_txn i r = BusRd \<or> bus_txn i r = BusRdX) \<and> agg_dirty i r \<noteq> None"

section \<open>Completion\<close>

definition local_read_done :: "rtl_inputs \<Rightarrow> rtl_regs \<Rightarrow> nat \<Rightarrow> bool" where
  "local_read_done i r k \<longleftrightarrow> i_req i k \<and> \<not> needs_bus i r k \<and> \<not> i_we i k"

definition local_write_done :: "rtl_inputs \<Rightarrow> rtl_regs \<Rightarrow> nat \<Rightarrow> bool" where
  "local_write_done i r k \<longleftrightarrow> i_req i k \<and> \<not> needs_bus i r k \<and> i_we i k \<and> \<not> snoop_write i r k"

definition cpu_done :: "rtl_inputs \<Rightarrow> rtl_regs \<Rightarrow> nat \<Rightarrow> bool" where
  "cpu_done i r k \<longleftrightarrow> grant i r k \<or> local_read_done i r k \<or> local_write_done i r k"

definition cpu_rdata :: "rtl_inputs \<Rightarrow> rtl_regs \<Rightarrow> nat \<Rightarrow> u32" where
  "cpu_rdata i r k =
     (if grant i r k \<and> \<not> i_we i k then supply_data i r
      else if local_read_done i r k then lk_data (r_l1 r k) (i_addr i k) else 0)"

definition cpu_stall :: "rtl_inputs \<Rightarrow> rtl_regs \<Rightarrow> nat \<Rightarrow> bool" where
  "cpu_stall i r k \<longleftrightarrow> i_req i k \<and> \<not> cpu_done i r k"

text \<open>The one write of the array in a cycle: owner commit, snoop, or local write hit.\<close>

definition l1_write :: "rtl_inputs \<Rightarrow> rtl_regs \<Rightarrow> nat \<Rightarrow> (u32 \<times> State \<times> u32 option) option" where
  "l1_write i r k =
     (if grant i r k then
        Some (i_addr i k, fsm_pr_next (cpu_state i r k) (l1_pr i k) (agg_shared i r),
              Some (if i_we i k then i_wdata i k else supply_data i r))
      else if snoop_write i r k then Some (bus_addr i r, snoop_next i r k, None)
      else if local_write_done i r k then Some (i_addr i k, State_M, Some (i_wdata i k))
      else None)"

definition ev_hit :: "rtl_inputs \<Rightarrow> rtl_regs \<Rightarrow> nat \<Rightarrow> bool" where
  "ev_hit i r k \<longleftrightarrow> cpu_done i r k \<and> cpu_state i r k \<noteq> State_I"

definition ev_miss :: "rtl_inputs \<Rightarrow> rtl_regs \<Rightarrow> nat \<Rightarrow> bool" where
  "ev_miss i r k \<longleftrightarrow> cpu_done i r k \<and> cpu_state i r k = State_I"

definition ev_inv :: "rtl_inputs \<Rightarrow> rtl_regs \<Rightarrow> nat \<Rightarrow> bool" where
  "ev_inv i r k \<longleftrightarrow> snoop_write i r k \<and> snoop_next i r k = State_I"

section \<open>The clock edge\<close>

definition count_if :: "bool \<Rightarrow> u32 \<Rightarrow> u32" where
  "count_if b n = (if b then n + 1 else n)"

definition perf_clock :: "rtl_inputs \<Rightarrow> rtl_regs \<Rightarrow> perf_regs" where
  "perf_clock i r = (let p = r_perf r; t = bus_txn i r; act = bus_active i r in
     \<lparr>p_rd = count_if (act \<and> t = BusRd) (p_rd p), p_rdx = count_if (act \<and> t = BusRdX) (p_rdx p),
      p_upgr = count_if (act \<and> t = BusUpgr) (p_upgr p), p_wb = count_if (mem_wr_en i r) (p_wb p),
      p_busy = count_if act (p_busy p),
      p_hit = (\<lambda>k. count_if (ev_hit i r k) (p_hit p k)), p_miss = (\<lambda>k. count_if (ev_miss i r k) (p_miss p k)),
      p_inv = (\<lambda>k. count_if (ev_inv i r k) (p_inv p k)), p_stall = (\<lambda>k. count_if (cpu_stall i r k) (p_stall p k))\<rparr>)"

definition perf_reset :: perf_regs where
  "perf_reset = \<lparr>p_rd = 0, p_rdx = 0, p_upgr = 0, p_wb = 0, p_busy = 0,
     p_hit = (\<lambda>_. 0), p_miss = (\<lambda>_. 0), p_inv = (\<lambda>_. 0), p_stall = (\<lambda>_. 0)\<rparr>"

definition rtl_clock :: "rtl_inputs \<Rightarrow> rtl_regs \<Rightarrow> rtl_regs" where
  "rtl_clock i r =
     \<lparr>r_l1 = (\<lambda>k. array_write (l1_write i r k) (r_l1 r k)),
      r_ptr = (case bus_winner i r of None \<Rightarrow> r_ptr r | Some w \<Rightarrow> of_nat w + 1),
      r_mem = (if mem_wr_en i r
               then (r_mem r)(midx (bus_addr i r) := (case agg_dirty i r of Some d \<Rightarrow> d | None \<Rightarrow> 0))
               else r_mem r),
      r_perf = perf_clock i r\<rparr>"

text \<open>Reset clears the states, the memory, the pointer and the counters; tags and data stay.\<close>

definition rtl_reset :: "rtl_regs \<Rightarrow> rtl_regs" where
  "rtl_reset r =
     \<lparr>r_l1 = (\<lambda>k. (r_l1 r k)\<lparr>state_arr := \<lambda>_. State_I\<rparr>), r_ptr = 0, r_mem = (\<lambda>_. 0), r_perf = perf_reset\<rparr>"

section \<open>Lines and sets\<close>

lemma line_bits:
  "bit (addr_index a) n \<longleftrightarrow> n < 6 \<and> bit a (n + 6)" "bit (addr_tag a) n \<longleftrightarrow> n < 20 \<and> bit a (n + 12)"
  by (auto simp: addr_index_def addr_tag_def bit_simps ac_simps)

lemma same_line_iff: "line_of a = line_of b \<longleftrightarrow> addr_index a = addr_index b \<and> addr_tag a = addr_tag b"
proof
  assume l: "line_of a = line_of b"
  have "bit a n \<longleftrightarrow> bit b n" if "6 \<le> n" for n using arg_cong [OF l, of "\<lambda>x. bit x n"] that by (simp add: line_of_bit)
  then show "addr_index a = addr_index b \<and> addr_tag a = addr_tag b" by (auto simp: bit_eq_iff line_bits)
next
  assume l: "addr_index a = addr_index b \<and> addr_tag a = addr_tag b"
  have "bit a n \<longleftrightarrow> bit b n" if "6 \<le> n" for n
  proof -
    consider "n - 6 < 6" | "12 \<le> n" "n - 12 < 20" | "32 \<le> n" using that by linarith
    then show ?thesis
    proof cases
      case 1
      with that arg_cong [OF conjunct1 [OF l], of "\<lambda>x. bit x (n - 6)"] show ?thesis by (simp add: line_bits)
    next
      case 2
      with arg_cong [OF conjunct2 [OF l], of "\<lambda>x. bit x (n - 12)"] show ?thesis by (simp add: line_bits)
    next
      case 3
      then show ?thesis by (auto dest: bit_imp_le_length)
    qed
  qed
  then show "line_of a = line_of b" by (auto simp: bit_eq_iff line_of_bit)
qed

lemma lk_state_write:
  "lk_state (array_write (Some (b, st, d)) c) a =
     (if addr_index a = addr_index b then if line_of a = line_of b then st else State_I else lk_state c a)"
  by (auto simp: lk_state_def array_write_def same_line_iff)

lemma lk_state_line: "line_of a = line_of b \<Longrightarrow> lk_state c a = lk_state c b"
  by (simp add: lk_state_def same_line_iff)

lemma lk_state_conflict:
  "lk_state c b \<noteq> State_I \<Longrightarrow> addr_index a = addr_index b \<Longrightarrow> line_of a \<noteq> line_of b \<Longrightarrow> lk_state c a = State_I"
  by (auto simp: lk_state_def same_line_iff split: if_splits)

section \<open>The arbiter\<close>

lemma core_of_pointer: "unat (x :: 2 word) < N_CORES"
  using unsigned_less [of x] by (simp add: N_CORES_def)

lemma arb_winner_valid:
  assumes "arb_winner rv ptr = Some w"
  shows "w < N_CORES" "rv w"
proof -
  have "case arb_winner rv ptr of None \<Rightarrow> True | Some w \<Rightarrow> w < N_CORES \<and> rv w"
    unfolding arb_winner_def
    by (rule fold_keeps) (auto simp: arb_step_def Let_def core_of_pointer split: option.splits if_splits)
  with assms show "w < N_CORES" "rv w" by simp_all
qed

lemma arb_fold_some:
  "w \<noteq> None \<or> (\<exists>k \<in> set ks. rv (unat (ptr + of_nat k))) \<Longrightarrow> fold (arb_step rv ptr) ks w \<noteq> None"
proof (induction ks arbitrary: w)
  case (Cons k ks)
  have "arb_step rv ptr k w \<noteq> None \<or> (\<exists>k \<in> set ks. rv (unat (ptr + of_nat k)))"
    using Cons.prems by (auto simp: arb_step_def Let_def)
  with Cons.IH show ?case by simp
qed simp

text \<open>A request is never ignored: somebody wins.\<close>

lemma arb_winner_some:
  assumes "rv k" and "k < N_CORES"
  shows "arb_winner rv ptr \<noteq> None"
proof -
  let ?k = "unat (of_nat k - ptr :: 2 word)"
  have "unat (ptr + of_nat ?k) = k" using assms(2) by (simp add: unat_of_nat take_bit_nat_eq_self N_CORES_def)
  then show ?thesis unfolding arb_winner_def
    by (intro arb_fold_some disjI2 bexI [of _ ?k]) (use assms(1) core_of_pointer in simp_all)
qed

lemma arb_winner_only:
  assumes "rv k" and "k < N_CORES" and "\<And>j. j < N_CORES \<Longrightarrow> rv j \<Longrightarrow> j = k"
  shows "arb_winner rv ptr = Some k"
  using arb_winner_some [of rv k ptr, OF assms(1,2)] arb_winner_valid [of rv ptr] assms(3) by (cases "arb_winner rv ptr") auto

lemma bus_winner_valid:
  assumes "bus_winner i r = Some w"
  shows "w < N_CORES" "i_req i w" "needs_bus i r w" "bus_txn i r = req_txn i r w" "bus_addr i r = i_addr i w"
  using assms arb_winner_valid [of "req_valid i r" "r_ptr r" w]
  by (simp_all add: bus_winner_def req_valid_def bus_txn_def bus_addr_def)

lemma agg_shared_iff: "agg_shared i r \<longleftrightarrow> (\<exists>k < N_CORES. snoop_had_copy i r k)"
proof -
  have "fold (\<lambda>k sh. snoop_had_copy i r k \<or> sh) ks b \<longleftrightarrow> b \<or> (\<exists>k \<in> set ks. snoop_had_copy i r k)" for ks b
    by (induction ks arbitrary: b) auto
  then show ?thesis by (auto simp: agg_shared_def)
qed

section \<open>One line over one cycle\<close>

lemma needs_bus_cases:
  assumes "needs_bus i r w"
  shows "req_txn i r w = BusRd \<and> l1_pr i w = PrRd \<and> cpu_state i r w = State_I
    \<or> l1_pr i w = PrWr \<and> (req_txn i r w = BusRdX \<and> cpu_state i r w = State_I \<or> req_txn i r w = BusUpgr \<and> cpu_state i r w = State_S)"
  using assms
  by (cases "l1_pr i w"; cases "cpu_state i r w") (simp_all add: needs_bus_def req_txn_def fsm_needs_bus_def fsm_req_txn_def)

lemma needs_bus_write: "i_req i k \<Longrightarrow> i_we i k \<Longrightarrow> \<not> needs_bus i r k \<longleftrightarrow> cpu_state i r k = State_M \<or> cpu_state i r k = State_E"
  by (cases "cpu_state i r k") (simp_all add: needs_bus_def fsm_defs l1_pr_def)

lemma snoop_write_held: "snoop_write i r k \<Longrightarrow> snp_state i r k \<noteq> State_I"
  by (auto simp: snoop_write_def snoop_next_def fsm_snoop_next_def split: BusTxn.splits if_splits)

lemma clock_state:
  "lk_state (r_l1 (rtl_clock i r) k) a =
     (if grant i r k then
        if addr_index a = addr_index (i_addr i k) then
          if line_of a = line_of (i_addr i k) then fsm_pr_next (cpu_state i r k) (l1_pr i k) (agg_shared i r) else State_I
        else lk_state (r_l1 r k) a
      else if snoop_write i r k then
        if line_of a = line_of (bus_addr i r) then snoop_next i r k else lk_state (r_l1 r k) a
      else if local_write_done i r k \<and> line_of a = line_of (i_addr i k) then State_M else lk_state (r_l1 r k) a)"
proof -
  have s: "lk_state (r_l1 r k) a = State_I"
    if "snoop_write i r k" "addr_index a = addr_index (bus_addr i r)" "line_of a \<noteq> line_of (bus_addr i r)"
    using lk_state_conflict [OF _ that(2,3)] snoop_write_held [OF that(1)] by (simp add: snp_state_def)
  have w: "lk_state (r_l1 r k) a = State_I"
    if "local_write_done i r k" "addr_index a = addr_index (i_addr i k)" "line_of a \<noteq> line_of (i_addr i k)"
    using lk_state_conflict [OF _ that(2,3), of "r_l1 r k"] needs_bus_write [of i k r] that(1)
    by (auto simp: local_write_done_def cpu_state_def)
  have l: "line_of a = line_of b \<Longrightarrow> addr_index a = addr_index b" for b by (simp add: same_line_iff)
  have c: "r_l1 (rtl_clock i r) k = array_write (l1_write i r k) (r_l1 r k)" by (simp add: rtl_clock_def)
  consider "grant i r k" | "\<not> grant i r k" "snoop_write i r k" | "\<not> grant i r k" "\<not> snoop_write i r k" "local_write_done i r k"
    | "\<not> grant i r k" "\<not> snoop_write i r k" "\<not> local_write_done i r k" by blast
  then show ?thesis
  proof cases
    case 2
    with s l [of "bus_addr i r"] show ?thesis unfolding c by (simp add: l1_write_def lk_state_write)
  next
    case 3
    with w l [of "i_addr i k"] show ?thesis unfolding c by (simp add: l1_write_def lk_state_write)
  qed (simp_all add: c l1_write_def lk_state_write array_write_def [of None])
qed

section \<open>One writer\<close>

definition rtl_swmr :: "rtl_regs \<Rightarrow> bool" where
  "rtl_swmr r \<longleftrightarrow> (\<forall>a. \<forall>j < N_CORES. \<forall>k < N_CORES. j \<noteq> k \<longrightarrow>
     lk_state (r_l1 r j) a = State_M \<or> lk_state (r_l1 r j) a = State_E \<longrightarrow> lk_state (r_l1 r k) a = State_I)"

lemma rtl_swmrD:
  assumes "rtl_swmr r" and "j < N_CORES" and "k < N_CORES" and "j \<noteq> k"
    and "lk_state (r_l1 r j) a = State_M \<or> lk_state (r_l1 r j) a = State_E"
  shows "lk_state (r_l1 r k) a = State_I"
  using assms unfolding rtl_swmr_def by blast

lemma rtl_swmr_reset: "rtl_swmr (rtl_reset r)"
  by (simp add: rtl_swmr_def rtl_reset_def lk_state_def)

text \<open>A core other than the winner, on the line of the transaction: it does what the snoop logic says.\<close>

lemma clock_snooped:
  assumes "bus_winner i r = Some w" and "k \<noteq> w" and "line_of a = line_of (bus_addr i r)"
  shows "lk_state (r_l1 (rtl_clock i r) k) a = fsm_snoop_next (lk_state (r_l1 r k) a) (req_txn i r w)"
proof -
  note w = bus_winner_valid [OF assms(1)]
  have g: "\<not> grant i r k" "bus_active i r" using assms(1,2) by (simp_all add: grant_def bus_active_def)
  have s: "snp_state i r k = lk_state (r_l1 r k) a" using lk_state_line [OF assms(3)] by (simp add: snp_state_def)
  have n: "snoop_next i r k = fsm_snoop_next (lk_state (r_l1 r k) a) (req_txn i r w)"
    using g w(4) by (simp add: snoop_next_def s)
  have "\<not> local_write_done i r k" if "line_of a = line_of (i_addr i k)" "\<not> snoop_write i r k"
  proof
    assume "local_write_done i r k"
    then have "lk_state (r_l1 r k) a = State_M \<or> lk_state (r_l1 r k) a = State_E"
      using needs_bus_write [of i k r] lk_state_line [OF that(1)] by (auto simp: local_write_done_def cpu_state_def)
    moreover have "req_txn i r w = BusRd \<or> req_txn i r w = BusRdX \<or> req_txn i r w = BusUpgr"
      using needs_bus_cases [OF w(3)] by auto
    ultimately show False using that(2) g n s by (auto simp: snoop_write_def fsm_snoop_next_def)
  qed
  with g n s assms(3) show ?thesis by (auto simp: clock_state snoop_write_def)
qed

text \<open>Any other line: nobody gets a right that it did not have.\<close>

lemma clock_other_line:
  assumes "\<And>w. bus_winner i r = Some w \<Longrightarrow> line_of a \<noteq> line_of (bus_addr i r)"
  shows "lk_state (r_l1 (rtl_clock i r) k) a \<in> {State_I, lk_state (r_l1 r k) a}
    \<or> lk_state (r_l1 (rtl_clock i r) k) a = State_M \<and> lk_state (r_l1 r k) a \<in> {State_E, State_M}"
proof -
  have g: "line_of a \<noteq> line_of (i_addr i k)" if "grant i r k"
    using assms [of k] bus_winner_valid(5) [of i r k] that by (simp add: grant_def)
  have s: "line_of a \<noteq> line_of (bus_addr i r)" if "snoop_write i r k"
    using that assms by (auto simp: snoop_write_def bus_active_def)
  have "lk_state (r_l1 r k) a \<in> {State_E, State_M}" if "local_write_done i r k" "line_of a = line_of (i_addr i k)"
    using that needs_bus_write [of i k r] lk_state_line [OF that(2)] by (auto simp: local_write_done_def cpu_state_def)
  with g s show ?thesis by (auto simp: clock_state)
qed

lemma rtl_swmr_clock:
  assumes "rtl_swmr r"
  shows "rtl_swmr (rtl_clock i r)"
  unfolding rtl_swmr_def
proof (intro allI impI)
  fix a j k
  assume jk: "j < N_CORES" "k < N_CORES" "j \<noteq> k"
    and own: "lk_state (r_l1 (rtl_clock i r) j) a = State_M \<or> lk_state (r_l1 (rtl_clock i r) j) a = State_E"
  have old: "lk_state (r_l1 r k) a = State_I" if "lk_state (r_l1 r j) a = State_M \<or> lk_state (r_l1 r j) a = State_E"
    by (rule rtl_swmrD [OF assms jk that])
  show "lk_state (r_l1 (rtl_clock i r) k) a = State_I"
  proof (cases "\<exists>w. bus_winner i r = Some w \<and> line_of a = line_of (bus_addr i r)")
    case False
    with clock_other_line [of i r a j] clock_other_line [of i r a k] own old show ?thesis by auto
  next
    case True
    then obtain w where w: "bus_winner i r = Some w" "line_of a = line_of (bus_addr i r)" by blast
    note v = bus_winner_valid [OF w(1)]
    have la: "line_of a = line_of (i_addr i w)" "lk_state (r_l1 r w) a = cpu_state i r w"
      using w(2) v(5) lk_state_line [of a "i_addr i w"] by (simp_all add: cpu_state_def)
    note sn = clock_snooped [OF w(1) _ w(2)]
    have txn: "req_txn i r w = BusRd \<and> l1_pr i w = PrRd \<and> cpu_state i r w = State_I
        \<or> l1_pr i w = PrWr \<and> (req_txn i r w = BusRdX \<or> req_txn i r w = BusUpgr)"
      using needs_bus_cases [OF v(3)] by auto
    show ?thesis
    proof (cases "j = w")
      case True
      then have nk: "k \<noteq> w" using jk(3) by simp
      have "lk_state (r_l1 (rtl_clock i r) w) a = fsm_pr_next (cpu_state i r w) (l1_pr i w) (agg_shared i r)"
        using w(1) la(1) by (simp add: clock_state grant_def same_line_iff)
      with own True txn have "l1_pr i w = PrWr \<and> (req_txn i r w = BusRdX \<or> req_txn i r w = BusUpgr)
          \<or> req_txn i r w = BusRd \<and> \<not> agg_shared i r"
        by (auto simp: fsm_pr_next_def split: if_splits)
      then show ?thesis
      proof
        assume "req_txn i r w = BusRd \<and> \<not> agg_shared i r"
        then have "lk_state (r_l1 r k) a = State_I"
          using jk(2) nk w lk_state_line [OF w(2)]
          by (auto simp: agg_shared_iff snoop_had_copy_def bus_active_def grant_def snp_state_def)
        with sn [OF nk] show ?thesis by (simp add: fsm_snoop_next_def split: BusTxn.split)
      qed (auto simp: sn [OF nk] fsm_snoop_next_def)
    next
      case False
      with own sn [OF False] txn show ?thesis by (auto simp: fsm_snoop_next_def split: if_splits)
    qed
  qed
qed

text \<open>Reset, then any number of cycles with any requests of the four cores.\<close>

inductive rtl_reachable :: "rtl_regs \<Rightarrow> bool" where
  rtl_reach_reset: "rtl_reachable (rtl_reset r)"
| rtl_reach_clock: "rtl_reachable r \<Longrightarrow> rtl_reachable (rtl_clock i r)"

lemma rtl_reachable_swmr: "rtl_reachable r \<Longrightarrow> rtl_swmr r"
  by (induction rule: rtl_reachable.induct) (rule rtl_swmr_reset, rule rtl_swmr_clock)

section \<open>A core alone\<close>

text \<open>When one core requests, it is served in the same cycle.\<close>

definition alone :: "rtl_inputs \<Rightarrow> nat \<Rightarrow> bool" where
  "alone i c \<longleftrightarrow> c < N_CORES \<and> i_req i c \<and> (\<forall>k. k \<noteq> c \<longrightarrow> \<not> i_req i k)"

lemma alone_winner:
  assumes "alone i c"
  shows "bus_winner i r = (if needs_bus i r c then Some c else None)"
proof (cases "needs_bus i r c")
  case True
  have "arb_winner (req_valid i r) (r_ptr r) = Some c"
    by (rule arb_winner_only) (use assms True in \<open>auto simp: alone_def req_valid_def\<close>)
  with True show ?thesis by (simp add: bus_winner_def)
next
  case False
  have "bus_winner i r \<noteq> Some w" for w
    using bus_winner_valid(2,3) [of i r w] assms False by (cases "w = c") (auto simp: alone_def)
  then have "bus_winner i r = None" by (cases "bus_winner i r") blast+
  with False show ?thesis by simp
qed

lemma alone_done: "alone i c \<Longrightarrow> cpu_done i r c"
  using alone_winner [of i c r]
  by (auto simp: cpu_done_def grant_def local_read_done_def local_write_done_def snoop_write_def bus_active_def alone_def)

end
