(* ===== verification/Mesi_Device.thy ===== *)
theory Mesi_Device
  imports Rtl_System
begin

text \<open>
  What a client sees of a four-core coherent memory, whether it is the C++ \<open>MesiSystem\<close> or the hardware: the
  states of the lines, the values, the counters of the bus and of the cores. \<open>view_op\<close> is the effect of one operation, \<open>mesi_device\<close> the
  contract of an implementation, and the C++ model keeps it. The hardware keeps one word per line and has
  one line per set, so a client stays on a set of addresses no two of which meet in a set.
\<close>

section \<open>The view and its operation\<close>

record mesi_view =
  w_states :: "u32 \<Rightarrow> State list"
  w_val :: "u32 \<Rightarrow> u32"
  w_traffic :: traffic
  w_counts :: "nat \<Rightarrow> core_counts"

definition no_traffic :: traffic where
  "no_traffic = \<lparr>t_rd = 0, t_rdx = 0, t_upgr = 0, t_wb = 0, t_busy = 0\<rparr>"

definition no_counts :: core_counts where
  "no_counts = \<lparr>n_hit = 0, n_miss = 0, n_inv = 0\<rparr>"

definition view_new :: mesi_view where
  "view_new = \<lparr>w_states = (\<lambda>_. replicate N_CORES State_I), w_val = (\<lambda>_. 0), w_traffic = no_traffic,
     w_counts = (\<lambda>_. no_counts)\<rparr>"

definition peer_in :: "(State \<Rightarrow> bool) \<Rightarrow> nat \<Rightarrow> State list \<Rightarrow> bool" where
  "peer_in P c sts \<longleftrightarrow> list_ex (\<lambda>k. k \<noteq> c \<and> P (sts ! k)) [0..<N_CORES]"

definition next_states :: "nat \<Rightarrow> PrReq \<Rightarrow> State list \<Rightarrow> State list" where
  "next_states c pr sts = map (\<lambda>k.
     if k = c then fsm_pr_next (sts ! c) pr (peer_in (\<lambda>st. st \<noteq> State_I) c sts)
     else fsm_snoop_next (sts ! k) (fsm_req_txn (sts ! c) pr)) [0..<N_CORES]"

text \<open>The core of the operation counts a hit or a miss, every core that loses its copy an invalidation.\<close>

definition next_counts :: "nat \<Rightarrow> PrReq \<Rightarrow> State list \<Rightarrow> nat \<Rightarrow> core_counts \<Rightarrow> core_counts" where
  "next_counts c pr sts k n =
     (if k = c then add_access (sts ! c \<noteq> State_I) n
      else add_inv (sts ! k \<noteq> State_I \<and> fsm_snoop_next (sts ! k) (fsm_req_txn (sts ! c) pr) = State_I) n)"

definition view_op :: "nat \<Rightarrow> PrReq \<Rightarrow> u32 \<Rightarrow> u32 \<Rightarrow> mesi_view \<Rightarrow> mesi_view" where
  "view_op c pr a x v = (let sts = w_states v a in
     \<lparr>w_states = (w_states v)(a := next_states c pr sts),
      w_val = (if pr = PrWr then (w_val v)(a := x) else w_val v),
      w_traffic = txn_traffic (fsm_req_txn (sts ! c) pr) (peer_in (\<lambda>st. st = State_M) c sts) (w_traffic v),
      w_counts = (\<lambda>k. next_counts c pr sts k (w_counts v k))\<rparr>)"

lemma peer_in_iff: "peer_in P c sts \<longleftrightarrow> (\<exists>k < N_CORES. k \<noteq> c \<and> P (sts ! k))"
  by (auto simp: peer_in_def list_ex_iff)

lemma nth_next_states:
  "k < N_CORES \<Longrightarrow> next_states c pr sts ! k =
     (if k = c then fsm_pr_next (sts ! c) pr (peer_in (\<lambda>st. st \<noteq> State_I) c sts)
      else fsm_snoop_next (sts ! k) (fsm_req_txn (sts ! c) pr))"
  by (simp add: next_states_def)

lemma view_op_sel:
  "w_states (view_op c pr a x v) = (w_states v)(a := next_states c pr (w_states v a))"
  "w_val (view_op c pr a x v) = (if pr = PrWr then (w_val v)(a := x) else w_val v)"
  "w_traffic (view_op c pr a x v)
     = txn_traffic (fsm_req_txn (w_states v a ! c) pr) (peer_in (\<lambda>st. st = State_M) c (w_states v a)) (w_traffic v)"
  "w_counts (view_op c pr a x v) k = next_counts c pr (w_states v a) k (w_counts v k)"
  by (simp_all add: view_op_def Let_def)

text \<open>No two addresses of the set are in the same cache set, so none share a line.\<close>

definition apart :: "u32 set \<Rightarrow> bool" where
  "apart A \<longleftrightarrow> inj_on addr_index A"

lemma apart_index: "apart A \<Longrightarrow> a \<in> A \<Longrightarrow> b \<in> A \<Longrightarrow> addr_index a = addr_index b \<longleftrightarrow> a = b"
  by (auto simp: apart_def dest: inj_onD)

lemma apart_line: "apart A \<Longrightarrow> a \<in> A \<Longrightarrow> b \<in> A \<Longrightarrow> line_of a = line_of b \<longleftrightarrow> a = b"
  using apart_index [of A a b] by (auto simp: same_line_iff)

lemma apart_midx: "apart A \<Longrightarrow> a \<in> A \<Longrightarrow> b \<in> A \<Longrightarrow> midx a = midx b \<longleftrightarrow> a = b"
proof -
  assume A: "apart A" "a \<in> A" "b \<in> A"
  have "addr_index x = ucast (midx x)" for x
    by (rule bit_eqI) (auto simp: addr_index_def midx_def bit_simps)
  then have "midx a = midx b \<Longrightarrow> addr_index a = addr_index b" by simp
  with apart_index [OF A] show ?thesis by auto
qed

section \<open>The contract\<close>

datatype device_op = Dev_read nat u32 | Dev_write nat u32 u32

fun op_within :: "u32 set \<Rightarrow> device_op \<Rightarrow> bool" where
  "op_within A (Dev_read c a) \<longleftrightarrow> c < N_CORES \<and> a \<in> A"
| "op_within A (Dev_write c a v) \<longleftrightarrow> c < N_CORES \<and> a \<in> A"

text \<open>A client's operations in turn, up to the first exception, and the values its reads return.\<close>

fun run_ops ::
    "(nat \<Rightarrow> u32 \<Rightarrow> 's \<Rightarrow> exn + (u32 \<times> 's)) \<Rightarrow> (nat \<Rightarrow> u32 \<Rightarrow> u32 \<Rightarrow> 's \<Rightarrow> exn + 's) \<Rightarrow>
     device_op list \<Rightarrow> 's \<Rightarrow> exn + (u32 list \<times> 's)" where
  "run_ops rd wr [] s = Inr ([], s)"
| "run_ops rd wr (Dev_read c a # ops) s =
     sbind (rd c a s) (\<lambda>(x, s). sbind (run_ops rd wr ops s) (\<lambda>(xs, s). Inr (x # xs, s)))"
| "run_ops rd wr (Dev_write c a v # ops) s = sbind (wr c a v s) (run_ops rd wr ops)"

fun view_run :: "device_op list \<Rightarrow> mesi_view \<Rightarrow> u32 list \<times> mesi_view" where
  "view_run [] v = ([], v)"
| "view_run (Dev_read c a # ops) v = (let (xs, v') = view_run ops (view_op c PrRd a 0 v) in (w_val v a # xs, v'))"
| "view_run (Dev_write c a x # ops) v = view_run ops (view_op c PrWr a x v)"

locale mesi_device =
  fixes looks :: "u32 set \<Rightarrow> mesi_view \<Rightarrow> 's \<Rightarrow> bool"
    and rd :: "nat \<Rightarrow> u32 \<Rightarrow> 's \<Rightarrow> exn + (u32 \<times> 's)"
    and wr :: "nat \<Rightarrow> u32 \<Rightarrow> u32 \<Rightarrow> 's \<Rightarrow> exn + 's"
  assumes rd_law: "apart A \<Longrightarrow> looks A v s \<Longrightarrow> c < N_CORES \<Longrightarrow> a \<in> A
      \<Longrightarrow> \<exists>s'. rd c a s = Inr (w_val v a, s') \<and> looks A (view_op c PrRd a 0 v) s'"
    and wr_law: "apart A \<Longrightarrow> looks A v s \<Longrightarrow> c < N_CORES \<Longrightarrow> a \<in> A
      \<Longrightarrow> \<exists>s'. wr c a x s = Inr s' \<and> looks A (view_op c PrWr a x v) s'"
begin

lemma run_law:
  assumes "apart A" and "looks A v s" and "list_all (op_within A) ops"
  shows "\<exists>s'. run_ops rd wr ops s = Inr (fst (view_run ops v), s') \<and> looks A (snd (view_run ops v)) s'"
  using assms(2,3)
proof (induction ops arbitrary: v s)
  case (Cons op ops)
  then show ?case
  proof (cases op)
    case (Dev_read c a)
    with Cons.prems rd_law [OF assms(1) Cons.prems(1), of c a] obtain s' where
      "rd c a s = Inr (w_val v a, s')" "looks A (view_op c PrRd a 0 v) s'" by auto
    with Cons.IH [of "view_op c PrRd a 0 v" s'] Cons.prems(2) Dev_read show ?thesis by (auto simp: case_prod_beta)
  next
    case (Dev_write c a x)
    with Cons.prems wr_law [OF assms(1) Cons.prems(1), of c a x] obtain s' where
      "wr c a x s = Inr s'" "looks A (view_op c PrWr a x v) s'" by auto
    with Cons.IH [of "view_op c PrWr a x v" s'] Cons.prems(2) Dev_write show ?thesis by auto
  qed
qed simp

end

section \<open>The C++ model keeps it\<close>

definition model_looks :: "u32 set \<Rightarrow> mesi_view \<Rightarrow> MesiSystem \<Rightarrow> bool" where
  "model_looks A v s \<longleftrightarrow> sys_ok s \<and> n_cores s = int N_CORES \<and> sys_traffic s = w_traffic v
     \<and> (\<forall>k < N_CORES. sys_counts s k = w_counts v k)
     \<and> (\<forall>a \<in> A. sys_val s a = w_val v a \<and> (\<forall>k < N_CORES. sys_state s k (line_of a) = w_states v a ! k))"

lemma model_core: "model_looks A v s \<Longrightarrow> k < N_CORES \<longleftrightarrow> validate_core s (int k)"
  by (auto simp: model_looks_def validate_core_eq)

lemma model_peers:
  assumes "model_looks A v s" and "a \<in> A"
  shows "other_copy (s_bus s) c (line_of a) = peer_in (\<lambda>st. st \<noteq> State_I) c (w_states v a)"
    and "dirty_peer (s_bus s) c (line_of a) = peer_in (\<lambda>st. st = State_M) c (w_states v a)"
proof -
  have "bus_n_cores (s_bus s) = N_CORES" "\<And>k. k < N_CORES \<Longrightarrow> lstate (s_bus s) k (line_of a) = w_states v a ! k"
    using assms by (simp_all add: model_looks_def n_cores_def sys_state_def)
  then show "other_copy (s_bus s) c (line_of a) = peer_in (\<lambda>st. st \<noteq> State_I) c (w_states v a)"
    "dirty_peer (s_bus s) c (line_of a) = peer_in (\<lambda>st. st = State_M) c (w_states v a)"
    by (auto simp: other_copy_def dirty_peer_def peer_in_iff)
qed

lemma model_read:
  assumes "apart A" and "model_looks A v s" and "c < N_CORES" and "a \<in> A"
  shows "\<exists>s'. MesiSystem_read (int c) a s = Inr (w_val v a, s') \<and> model_looks A (view_op c PrRd a 0 v) s'"
proof -
  note l = assms(2) [unfolded model_looks_def]
  have v: "validate_core s (int c)" using model_core [OF assms(2)] assms(3) by simp
  from MesiSystem_read_effect [OF conjunct1 [OF l] v, of a] obtain s' where
    s': "MesiSystem_read (int c) a s = Inr (sys_val s a, s')" "sys_ok s'" "validate_core s' = validate_core s" "sys_val s' = sys_val s"
    and tr: "sys_traffic s' = (if sys_state s c (line_of a) \<noteq> State_I then sys_traffic s
         else add_rd (add_wb (of_bool (dirty_peer (s_bus s) c (line_of a))) (sys_traffic s)))"
    and st: "\<And>j l. validate_core s (int j) \<Longrightarrow> sys_state s' j l =
        (if l \<noteq> line_of a \<or> sys_state s c l \<noteq> State_I then sys_state s j l
         else if j = c then (if other_copy (s_bus s) c l then State_S else State_E)
         else if sys_state s j l = State_I then State_I else State_S)" by auto
  note p = model_peers [OF assms(2,4), of c]
  have a: "sys_val s a = w_val v a" "\<And>k. k < N_CORES \<Longrightarrow> sys_state s k (line_of a) = w_states v a ! k"
    using l assms(4) by simp_all
  have "sys_state s' k (line_of b) = (if b = a then next_states c PrRd (w_states v a) else w_states v b) ! k"
    if "b \<in> A" "k < N_CORES" for b k
    using st [of k "line_of b"] that l a(2) [of k] a(2) [OF assms(3)] p(1) apart_line [OF assms(1) that(1) assms(4)] model_core [OF assms(2), of k]
    by (cases "w_states v a ! k") (auto simp: nth_next_states fsm_pr_next_def fsm_req_txn_def fsm_snoop_next_def)
  moreover have "sys_traffic s' = w_traffic (view_op c PrRd a 0 v)"
    using l by (simp add: tr a(2) [OF assms(3)] p view_op_sel fsm_req_txn_def txn_traffic_def)
  moreover have "sys_counts s' k = w_counts (view_op c PrRd a 0 v) k" if "k < N_CORES" for k
    using MesiSystem_counts(1) [OF conjunct1 [OF l] v _ s'(1), of k] that model_core [OF assms(2), of k] l a(2) [OF that]
    by (cases "w_states v a ! k") (auto simp: view_op_sel next_counts_def add_inv_def fsm_req_txn_def fsm_snoop_next_def)
  ultimately have "model_looks A (view_op c PrRd a 0 v) s'"
    using s' l n_cores_eqI [OF s'(3)] by (simp add: model_looks_def view_op_sel)
  with s'(1) a(1) show ?thesis by simp
qed

lemma model_write:
  assumes "apart A" and "model_looks A v s" and "c < N_CORES" and "a \<in> A"
  shows "\<exists>s'. MesiSystem_write (int c) a x s = Inr s' \<and> model_looks A (view_op c PrWr a x v) s'"
proof -
  note l = assms(2) [unfolded model_looks_def]
  have v: "validate_core s (int c)" using model_core [OF assms(2)] assms(3) by simp
  from MesiSystem_write_effect [OF conjunct1 [OF l] v, of a x] obtain s' where
    s': "MesiSystem_write (int c) a x s = Inr s'" "sys_ok s'" "validate_core s' = validate_core s" "sys_val s' = (sys_val s)(a := x)"
    and tr: "sys_traffic s' = (case sys_state s c (line_of a) of State_M \<Rightarrow> sys_traffic s | State_E \<Rightarrow> sys_traffic s
         | State_S \<Rightarrow> add_upgr (sys_traffic s)
         | State_I \<Rightarrow> add_rdx (add_wb (of_bool (dirty_peer (s_bus s) c (line_of a))) (sys_traffic s)))"
    and st: "\<And>j l. validate_core s (int j) \<Longrightarrow> sys_state s' j l =
        (if l \<noteq> line_of a then sys_state s j l else if j = c then State_M else State_I)" by auto
  note p = model_peers [OF assms(2,4), of c]
  have a: "\<And>k. k < N_CORES \<Longrightarrow> sys_state s k (line_of a) = w_states v a ! k"
    using l assms(4) by simp
  have one: "w_states v a ! k = State_I" if "k < N_CORES" "k \<noteq> c" "w_states v a ! c = State_M \<or> w_states v a ! c = State_E" for k
    using single_writerD [OF coherent_lineD(1) [OF coherentD(2) [OF sys_okD(1) [OF conjunct1 [OF l] v]]], of c k "line_of a"] that a [of k]
      a [OF assms(3)] l assms(3) by (auto simp: sys_state_def n_cores_def)
  have "sys_state s' k (line_of b) = (if b = a then next_states c PrWr (w_states v a) else w_states v b) ! k"
    if "b \<in> A" "k < N_CORES" for b k
    using st [of k "line_of b"] that l one [OF that(2)] apart_line [OF assms(1) that(1) assms(4)] model_core [OF assms(2), of k]
    by (cases "w_states v a ! c") (auto simp: nth_next_states fsm_pr_next_def fsm_req_txn_def fsm_snoop_next_def)
  moreover have "sys_traffic s' = w_traffic (view_op c PrWr a x v)"
    using l by (simp add: tr a [OF assms(3)] p view_op_sel fsm_req_txn_def txn_traffic_def split: State.split)
  moreover have "sys_counts s' k = w_counts (view_op c PrWr a x v) k" if "k < N_CORES" for k
    using MesiSystem_counts(2) [OF conjunct1 [OF l] v _ s'(1), of k] that model_core [OF assms(2), of k] l a [OF that] one [OF that]
    by (cases "w_states v a ! c") (auto simp: view_op_sel next_counts_def add_inv_def fsm_req_txn_def fsm_snoop_next_def)
  ultimately have "model_looks A (view_op c PrWr a x v) s'"
    using s' l n_cores_eqI [OF s'(3)] by (auto simp: model_looks_def view_op_sel)
  with s'(1) show ?thesis by simp
qed

interpretation model: mesi_device model_looks "\<lambda>c. MesiSystem_read (int c)" "\<lambda>c. MesiSystem_write (int c)"
  by unfold_locales (rule model_read model_write; assumption)+

lemma model_looks_new:
  assumes "MesiSystem_new (int N_CORES) = Inr s"
  shows "model_looks A view_new s"
proof -
  have "s_bus s = SnoopingBus_new N_CORES"
    using assms by (auto simp: MesiSystem_new_def checked_core_count_def split: if_splits)
  moreover from this have "sys_state s k l = State_I" if "k < N_CORES" for k l
    using that by (simp add: sys_state_def line_state_def CacheController_new_def)
  moreover from calculation(1) have "sys_traffic s = no_traffic"
    by (simp add: no_traffic_def sys_traffic_def bus_traffic_def SnoopingBus_new_def traffic_of_def
        PerfCounters_resize_def PerfCounters_new_def)
  moreover from calculation(1) have "sys_counts s k = no_counts" if "k < N_CORES" for k
    using that by (simp add: no_counts_def sys_counts_def bus_counts_def bus_inv_def SnoopingBus_new_def
        PerfCounters_resize_def PerfCounters_new_def)
  ultimately show ?thesis using MesiSystem_newD [OF assms] by (simp add: model_looks_def view_new_def)
qed

end
