(* ===== verification/Rtl_Memory.thy ===== *)
theory Rtl_Memory
  imports Mesi_Device
begin

text \<open>
  The hardware as a memory, when all cores request at the same time. \<open>holds_mem\<close> says that the valid copies and
  the clean words of the memory hold one flat memory. In a cycle every completed read returns the value from
  before the cycle, no two completed writes meet on a line, and afterwards the hardware holds the
  flat memory with these writes done.
\<close>

section \<open>The answers of the bus and the write port\<close>

text \<open>All dirty answers carry the same value when every copy does.\<close>

lemma agg_dirty_eq:
  assumes "\<And>k. k < N_CORES \<Longrightarrow> snoop_dirty i r k \<Longrightarrow> lk_data (r_l1 r k) (bus_addr i r) = d"
  shows "agg_dirty i r = (if \<exists>k < N_CORES. snoop_dirty i r k then Some d else None)"
proof -
  have "fold (\<lambda>k d. if snoop_dirty i r k then Some (lk_data (r_l1 r k) (bus_addr i r)) else d) ks z
      = (if \<exists>k \<in> set ks. snoop_dirty i r k then Some d else z)" if "\<forall>k \<in> set ks. k < N_CORES" for ks z
    using that assms by (induction ks arbitrary: z) auto
  from this [of "[0..<N_CORES]" None] show ?thesis by (auto simp: agg_dirty_def)
qed

lemma lk_data_write:
  "lk_data (array_write w c) a = (case w of Some (b, st, Some x) \<Rightarrow> if addr_index a = addr_index b then x else lk_data c a
     | _ \<Rightarrow> lk_data c a)"
  by (auto simp: lk_data_def array_write_def split: option.split)

section \<open>The operations of a cycle\<close>

definition writes_now :: "rtl_inputs \<Rightarrow> rtl_regs \<Rightarrow> nat \<Rightarrow> bool" where
  "writes_now i r k \<longleftrightarrow> cpu_done i r k \<and> i_we i k"

definition reads_now :: "rtl_inputs \<Rightarrow> rtl_regs \<Rightarrow> nat \<Rightarrow> bool" where
  "reads_now i r k \<longleftrightarrow> cpu_done i r k \<and> \<not> i_we i k"

section \<open>What a cycle does to the values\<close>

text \<open>The hardware holds the flat memory \<open>m\<close> on the addresses \<open>A\<close>.\<close>

definition holds_mem :: "u32 set \<Rightarrow> (u32 \<Rightarrow> u32) \<Rightarrow> rtl_regs \<Rightarrow> bool" where
  "holds_mem A m r \<longleftrightarrow> rtl_swmr r
     \<and> (\<forall>a \<in> A. ((\<forall>k < N_CORES. lk_state (r_l1 r k) a \<noteq> State_M) \<longrightarrow> r_mem r (midx a) = m a)
          \<and> (\<forall>k < N_CORES. lk_state (r_l1 r k) a \<noteq> State_I \<longrightarrow> lk_data (r_l1 r k) a = m a))"

lemma holds_memD:
  assumes "holds_mem A m r"
  shows "rtl_swmr r"
    and "a \<in> A \<Longrightarrow> k < N_CORES \<Longrightarrow> lk_state (r_l1 r k) a \<noteq> State_I \<Longrightarrow> lk_data (r_l1 r k) a = m a"
    and "a \<in> A \<Longrightarrow> (\<And>k. k < N_CORES \<Longrightarrow> lk_state (r_l1 r k) a \<noteq> State_M) \<Longrightarrow> r_mem r (midx a) = m a"
  using assms by (auto simp: holds_mem_def)

lemma holds_mem_reset: "holds_mem A (\<lambda>_. 0) (rtl_reset r)"
  using rtl_swmr_reset [of r] by (simp add: holds_mem_def rtl_reset_def lk_state_def)

definition requests_in :: "u32 set \<Rightarrow> rtl_inputs \<Rightarrow> bool" where
  "requests_in A i \<longleftrightarrow> (\<forall>k < N_CORES. i_req i k \<longrightarrow> i_addr i k \<in> A)"

lemma done_requests: "cpu_done i r k \<Longrightarrow> i_req i k"
  using bus_winner_valid(2) [of i r k] by (auto simp: cpu_done_def grant_def local_read_done_def local_write_done_def)

lemma done_in: "requests_in A i \<Longrightarrow> k < N_CORES \<Longrightarrow> cpu_done i r k \<Longrightarrow> i_addr i k \<in> A"
  using done_requests by (simp add: requests_in_def)

text \<open>A core that completes a write owns the line afterwards, so no two cores write a line in one cycle.\<close>

lemma writer_owns:
  assumes "writes_now i r k"
  shows "lk_state (r_l1 (rtl_clock i r) k) (i_addr i k) = State_M"
proof -
  have "l1_pr i k = PrWr" using assms done_requests [of i r k] by (simp add: writes_now_def l1_pr_def)
  with assms show ?thesis
    by (auto simp: writes_now_def cpu_done_def local_read_done_def local_write_done_def clock_state fsm_pr_next_def)
qed

lemma writer_alone:
  assumes "rtl_swmr r" and "writes_now i r j" and "j < N_CORES" and "k < N_CORES" and "j \<noteq> k"
  shows "lk_state (r_l1 (rtl_clock i r) k) (i_addr i j) = State_I"
  using rtl_swmrD [OF rtl_swmr_clock [OF assms(1)] assms(3-5)] writer_owns [OF assms(2)] by blast

lemma writers_differ:
  assumes "rtl_swmr r" and "writes_now i r j" and "writes_now i r k" and "j < N_CORES" and "k < N_CORES" and "j \<noteq> k"
  shows "i_addr i j \<noteq> i_addr i k"
  using writer_alone [OF assms(1,2,4-6)] writer_owns [OF assms(3)] by auto

text \<open>The answer of the bus to a granted request.\<close>

lemma winner_dirty:
  assumes "holds_mem A m r" and "requests_in A i" and "bus_winner i r = Some w"
  shows "agg_dirty i r = (if \<exists>k < N_CORES. snoop_dirty i r k then Some (m (i_addr i w)) else None)"
proof (rule agg_dirty_eq)
  fix k assume k: "k < N_CORES" "snoop_dirty i r k"
  note w = bus_winner_valid [OF assms(3)]
  have "i_addr i w \<in> A" using assms(2) w(1,2) by (simp add: requests_in_def)
  with k holds_memD(2) [OF assms(1), of "i_addr i w" k] w(5) show "lk_data (r_l1 r k) (bus_addr i r) = m (i_addr i w)"
    by (simp add: snoop_dirty_def snp_state_def)
qed

lemma dirty_peer_snooped:
  assumes "bus_winner i r = Some w" and "k \<noteq> w" and "lk_state (r_l1 r k) (i_addr i w) = State_M"
  shows "snoop_dirty i r k"
  using assms bus_winner_valid(5) [OF assms(1)]
  by (simp add: snoop_dirty_def snoop_had_copy_def snp_state_def bus_active_def grant_def)

lemma winner_not_owner:
  assumes "bus_winner i r = Some w"
  shows "lk_state (r_l1 r w) (i_addr i w) \<noteq> State_M"
  using needs_bus_cases [OF bus_winner_valid(3) [OF assms]] by (auto simp: cpu_state_def)

lemma winner_supply:
  assumes "holds_mem A m r" and "requests_in A i" and "bus_winner i r = Some w"
  shows "supply_data i r = m (i_addr i w)"
proof (cases "\<exists>k < N_CORES. snoop_dirty i r k")
  case True
  with winner_dirty [OF assms] show ?thesis by (simp add: supply_data_def)
next
  case False
  note w = bus_winner_valid [OF assms(3)]
  have "i_addr i w \<in> A" using assms(2) w(1,2) by (simp add: requests_in_def)
  moreover have "lk_state (r_l1 r k) (i_addr i w) \<noteq> State_M" if "k < N_CORES" for k
    using dirty_peer_snooped [OF assms(3)] winner_not_owner [OF assms(3)] False that by (cases "k = w") auto
  ultimately have "r_mem r (midx (i_addr i w)) = m (i_addr i w)" by (rule holds_memD(3) [OF assms(1)])
  with False winner_dirty [OF assms] w(5) show ?thesis by (simp add: supply_data_def)
qed

text \<open>A completed read returns the value before the cycle.\<close>

lemma reader_value:
  assumes "holds_mem A m r" and "requests_in A i" and "reads_now i r k" and "k < N_CORES"
  shows "cpu_rdata i r k = m (i_addr i k)"
proof (cases "grant i r k")
  case True
  with winner_supply [OF assms(1,2), of k] assms(3) show ?thesis by (simp add: cpu_rdata_def grant_def reads_now_def)
next
  case False
  with assms(3) have d: "local_read_done i r k" by (auto simp: reads_now_def cpu_done_def local_write_done_def)
  then have "lk_state (r_l1 r k) (i_addr i k) \<noteq> State_I"
    by (auto simp: local_read_done_def needs_bus_def cpu_state_def l1_pr_def fsm_needs_bus_def fsm_req_txn_def)
  with holds_memD(2) [OF assms(1) done_in [OF assms(2,4), of r] assms(4)] assms(3) False d show ?thesis
    by (simp add: cpu_rdata_def reads_now_def)
qed

section \<open>The flat memory after a cycle\<close>

text \<open>The copy of a core that did not write the address: what it was before, unless the bus filled it.\<close>

lemma unwritten_copy:
  assumes "holds_mem A m r" and "requests_in A i" and "apart A" and "b \<in> A" and "k < N_CORES"
    and "lk_state (r_l1 (rtl_clock i r) k) b \<noteq> State_I" and "\<not> (writes_now i r k \<and> i_addr i k = b)"
  shows "lk_data (r_l1 (rtl_clock i r) k) b = m b"
proof -
  have dat: "lk_data (r_l1 (rtl_clock i r) k) b = (case l1_write i r k of
      Some (a, st, Some x) \<Rightarrow> if addr_index b = addr_index a then x else lk_data (r_l1 r k) b | _ \<Rightarrow> lk_data (r_l1 r k) b)"
    by (simp add: rtl_clock_def lk_data_write)
  have ad: "cpu_done i r k \<Longrightarrow> addr_index b = addr_index (i_addr i k) \<longleftrightarrow> b = i_addr i k"
    using done_in [OF assms(2,5)] by (intro apart_index [OF assms(3,4)])
  have old: "lk_data (r_l1 r k) b = m b" if "lk_state (r_l1 r k) b \<noteq> State_I"
    by (rule holds_memD(2) [OF assms(1,4,5) that])
  show ?thesis
  proof (cases "grant i r k")
    case True
    then have d: "cpu_done i r k" by (simp add: cpu_done_def)
    with True have "i_we i k \<Longrightarrow> b \<noteq> i_addr i k" using assms(7) by (auto simp: writes_now_def)
    with True ad [OF d] winner_supply [OF assms(1,2), of k] assms(6) old show ?thesis
      unfolding dat by (auto simp: l1_write_def clock_state grant_def)
  next
    case False
    have i: "snoop_next i r k \<noteq> State_I \<Longrightarrow> snp_state i r k \<noteq> State_I"
      by (auto simp: snoop_next_def fsm_snoop_next_def split: BusTxn.splits)
    have n: "local_write_done i r k \<Longrightarrow> b \<noteq> i_addr i k" using assms(7) by (auto simp: writes_now_def cpu_done_def local_write_done_def)
    then have "local_write_done i r k \<Longrightarrow> line_of b \<noteq> line_of (i_addr i k)"
      using ad by (auto simp: cpu_done_def same_line_iff)
    then have "lk_state (r_l1 r k) b \<noteq> State_I"
      using assms(6) False i lk_state_line [of b "bus_addr i r" "r_l1 r k"] by (auto simp: clock_state snp_state_def split: if_splits)
    with old False n ad show ?thesis unfolding dat by (auto simp: l1_write_def cpu_done_def)
  qed
qed

lemma written_copy:
  assumes "writes_now i r k"
  shows "lk_data (r_l1 (rtl_clock i r) k) (i_addr i k) = i_wdata i k"
  using assms by (auto simp: writes_now_def cpu_done_def local_read_done_def rtl_clock_def lk_data_write l1_write_def local_write_done_def)

lemma unwritten_memory:
  assumes "holds_mem A m r" and "requests_in A i" and "apart A" and "b \<in> A"
    and "\<And>k. k < N_CORES \<Longrightarrow> lk_state (r_l1 (rtl_clock i r) k) b \<noteq> State_M"
  shows "r_mem (rtl_clock i r) (midx b) = m b"
proof (cases "mem_wr_en i r \<and> bus_addr i r = b")
  case True
  then obtain w where w: "bus_winner i r = Some w" by (auto simp: mem_wr_en_def bus_active_def)
  from True winner_dirty [OF assms(1,2) w] bus_winner_valid(5) [OF w] show ?thesis
    by (auto simp: rtl_clock_def mem_wr_en_def split: if_splits)
next
  case False
  have ba: "bus_addr i r \<in> A" if "bus_active i r"
    using that assms(2) bus_winner_valid [of i r] by (auto simp: bus_active_def requests_in_def)
  then have "r_mem (rtl_clock i r) (midx b) = r_mem r (midx b)"
    using False apart_midx [OF assms(3,4), of "bus_addr i r"] by (auto simp: rtl_clock_def mem_wr_en_def)
  also have "\<dots> = m b"
  proof (rule holds_memD(3) [OF assms(1,4)])
    fix k assume k: "k < N_CORES"
    show "lk_state (r_l1 r k) b \<noteq> State_M"
    proof
      assume M: "lk_state (r_l1 r k) b = State_M"
      have g: "b \<noteq> i_addr i k \<and> addr_index b \<noteq> addr_index (i_addr i k)" if "grant i r k"
        using that M winner_not_owner [of i r k] apart_index [OF assms(3,4) done_in [OF assms(2) k, of r]]
        by (auto simp: grant_def cpu_done_def)
      have "snoop_write i r k \<and> line_of b = line_of (bus_addr i r) \<and> \<not> grant i r k"
        using assms(5) [OF k] M g by (auto simp: clock_state split: if_splits)
      with apart_line [OF assms(3,4) ba] have b: "bus_addr i r = b" "bus_active i r" "\<not> grant i r k" by (auto simp: snoop_write_def)
      then obtain w where w: "bus_winner i r = Some w" "k \<noteq> w" by (auto simp: bus_active_def grant_def)
      note v = bus_winner_valid [OF w(1)]
      have "snoop_dirty i r k" using dirty_peer_snooped [OF w] M b(1) v(5) by simp
      moreover have "cpu_state i r w = State_I"
        using rtl_swmrD [OF holds_memD(1) [OF assms(1)] k v(1) w(2), of b] M b(1) v(5) by (simp add: cpu_state_def)
      ultimately have "mem_wr_en i r"
        using winner_dirty [OF assms(1,2) w(1)] needs_bus_cases [OF v(3)] v(4) b(2) k by (auto simp: mem_wr_en_def)
      with False b(1) show False by simp
    qed
  qed
  finally show ?thesis .
qed

text \<open>The flat memory with the writes of the cycle done, in any order.\<close>

definition after_writes :: "rtl_inputs \<Rightarrow> nat list \<Rightarrow> (u32 \<Rightarrow> u32) \<Rightarrow> (u32 \<Rightarrow> u32)" where
  "after_writes i ks m = fold (\<lambda>k m. m(i_addr i k := i_wdata i k)) ks m"

lemma after_writes_none: "(\<And>k. k \<in> set ks \<Longrightarrow> i_addr i k \<noteq> b) \<Longrightarrow> after_writes i ks m b = m b"
  by (induction ks arbitrary: m) (auto simp: after_writes_def)

lemma after_writes_one:
  "k \<in> set ks \<Longrightarrow> (\<And>j. j \<in> set ks \<Longrightarrow> j \<noteq> k \<Longrightarrow> i_addr i j \<noteq> i_addr i k) \<Longrightarrow> after_writes i ks m (i_addr i k) = i_wdata i k"
proof (induction ks arbitrary: m rule: rev_induct)
  case (snoc j ks)
  have "after_writes i (ks @ [j]) m = (after_writes i ks m)(i_addr i j := i_wdata i j)" by (simp add: after_writes_def)
  moreover have "j = k \<or> i_addr i k \<noteq> i_addr i j" using snoc.prems(2) [of j] by auto
  moreover have "j = k \<or> after_writes i ks m (i_addr i k) = i_wdata i k" using snoc by auto
  ultimately show ?case by auto
qed simp

abbreviation cycle_mem :: "rtl_inputs \<Rightarrow> rtl_regs \<Rightarrow> (u32 \<Rightarrow> u32) \<Rightarrow> (u32 \<Rightarrow> u32)" where
  "cycle_mem i r m \<equiv> after_writes i (filter (writes_now i r) [0..<N_CORES]) m"

lemma holds_mem_clock:
  assumes "holds_mem A m r" and "requests_in A i" and "apart A"
  shows "holds_mem A (cycle_mem i r m) (rtl_clock i r)"
proof -
  note sw = holds_memD(1) [OF assms(1)]
  have w: "cycle_mem i r m (i_addr i k) = i_wdata i k" if "writes_now i r k" "k < N_CORES" for k
    using that writers_differ [OF sw] by (intro after_writes_one) auto
  have n: "cycle_mem i r m b = m b" if "\<And>k. k < N_CORES \<Longrightarrow> writes_now i r k \<Longrightarrow> i_addr i k \<noteq> b" for b
    using that by (intro after_writes_none) auto
  have "lk_data (r_l1 (rtl_clock i r) k) b = cycle_mem i r m b"
    if b: "b \<in> A" and k: "k < N_CORES" and st: "lk_state (r_l1 (rtl_clock i r) k) b \<noteq> State_I" for b k
  proof (cases "writes_now i r k \<and> i_addr i k = b")
    case True
    with w [of k] k written_copy [of i r k] show ?thesis by auto
  next
    case False
    have "i_addr i j \<noteq> b" if "j < N_CORES" "writes_now i r j" for j
      using writer_alone [OF sw that(2,1) k] st False that(2) by auto
    with unwritten_copy [OF assms b k st False] n show ?thesis by simp
  qed
  moreover have "r_mem (rtl_clock i r) (midx b) = cycle_mem i r m b"
    if b: "b \<in> A" and c: "\<And>k. k < N_CORES \<Longrightarrow> lk_state (r_l1 (rtl_clock i r) k) b \<noteq> State_M" for b
    using unwritten_memory [OF assms b c] n [of b] writer_owns c by metis
  ultimately show ?thesis using rtl_swmr_clock [OF sw] by (auto simp: holds_mem_def)
qed

section \<open>Why the addresses must be apart\<close>

text \<open>
  A fill does not write back what its set held: a Modified line of the winner in the set of the request is
  in no cache afterwards, and the memory still has its old word.
\<close>

lemma fill_drops_dirty:
  assumes "rtl_swmr r" and "bus_winner i r = Some w" and "lk_state (r_l1 r w) a = State_M"
    and "addr_index a = addr_index (i_addr i w)" and "midx a \<noteq> midx (i_addr i w)"
  shows "k < N_CORES \<Longrightarrow> lk_state (r_l1 (rtl_clock i r) k) a = State_I" "r_mem (rtl_clock i r) (midx a) = r_mem r (midx a)"
proof -
  note w = bus_winner_valid [OF assms(2)]
  have "midx a = midx b" if "line_of a = line_of b" for b
  proof (rule bit_eqI)
    fix n
    have "bit a (n + 6) \<longleftrightarrow> bit b (n + 6)" using arg_cong [OF that, of "\<lambda>x. bit x (n + 6)"] by (simp add: line_of_bit)
    then show "bit (midx a) n \<longleftrightarrow> bit (midx b) n" by (simp add: midx_def bit_simps add.commute)
  qed
  with assms(5) have l: "line_of a \<noteq> line_of (i_addr i w)" by blast
  show "lk_state (r_l1 (rtl_clock i r) k) a = State_I" if k: "k < N_CORES"
  proof (cases "k = w")
    case True
    with assms(2,4) l show ?thesis by (simp add: clock_state grant_def)
  next
    case False
    have "lk_state (r_l1 r k) a = State_I" by (rule rtl_swmrD [OF assms(1) w(1) k]) (use False assms(3) in auto)
    with clock_other_line [of i r a k] l w(5) show ?thesis by auto
  qed
  show "r_mem (rtl_clock i r) (midx a) = r_mem r (midx a)" using assms(5) w(5) by (simp add: rtl_clock_def)
qed

end
