(* ===== verification/Rtl_Store_Buffer.thy ===== *)
theory Rtl_Store_Buffer
  imports Store_Buffer
begin

text \<open>
  The hardware store buffer \<^verbatim>\<open>rtl/store_buffer.sv\<close>, with its default depth of 8: a ring of eight entries, a
  head and a tail pointer of three bits that wrap around, and a count of four bits. The entries between the
  pointers, oldest first, are the buffer of \<^verbatim>\<open>model/tso.hpp\<close> in FIFO mode: \<open>ring_entries\<close> is the abstraction, and
  each output and the clock edge do on the ring what the C++ buffer does on its deque.
\<close>

section \<open>The module\<close>

record sb_regs =
  q_addr :: "3 word \<Rightarrow> u32"
  q_data :: "3 word \<Rightarrow> u32"
  q_head :: "3 word"
  q_tail :: "3 word"
  q_cnt :: "4 word"

record sb_inputs =
  st_valid :: bool
  st_addr :: u32
  st_data :: u32
  drain_ready :: bool
  bypass_addr :: u32
  fence_req :: bool

definition sb_full :: "sb_inputs \<Rightarrow> sb_regs \<Rightarrow> bool" where
  "sb_full i r \<longleftrightarrow> q_cnt r = 8 \<or> fence_req i"

definition drain_valid :: "sb_regs \<Rightarrow> bool" where
  "drain_valid r \<longleftrightarrow> q_cnt r \<noteq> 0"

definition drain_addr :: "sb_regs \<Rightarrow> u32" where
  "drain_addr r = q_addr r (q_head r)"

definition drain_data :: "sb_regs \<Rightarrow> u32" where
  "drain_data r = q_data r (q_head r)"

definition fence_ack :: "sb_inputs \<Rightarrow> sb_regs \<Rightarrow> bool" where
  "fence_ack i r \<longleftrightarrow> fence_req i \<and> q_cnt r = 0"

text \<open>\<^verbatim>\<open>phys = (int'(tail) - 1 - k + DEPTH) % DEPTH\<close>; the sum is never negative.\<close>

definition phys :: "sb_regs \<Rightarrow> nat \<Rightarrow> 3 word" where
  "phys r k = of_int ((uint (q_tail r) - 1 - int k + 8) mod 8)"

definition bypass_step :: "sb_inputs \<Rightarrow> sb_regs \<Rightarrow> nat \<Rightarrow> bool \<times> u32 \<Rightarrow> bool \<times> u32" where
  "bypass_step i r k = (\<lambda>(hit, data).
     if of_nat k < q_cnt r \<and> \<not> hit \<and> q_addr r (phys r k) = bypass_addr i
     then (True, q_data r (phys r k)) else (hit, data))"

definition bypass :: "sb_inputs \<Rightarrow> sb_regs \<Rightarrow> bool \<times> u32" where
  "bypass i r = fold (bypass_step i r) [0..<8] (False, 0)"

definition do_push :: "sb_inputs \<Rightarrow> sb_regs \<Rightarrow> bool" where
  "do_push i r \<longleftrightarrow> st_valid i \<and> \<not> sb_full i r"

definition do_pop :: "sb_inputs \<Rightarrow> sb_regs \<Rightarrow> bool" where
  "do_pop i r \<longleftrightarrow> drain_valid r \<and> drain_ready i"

definition sb_reset :: "sb_regs \<Rightarrow> sb_regs" where
  "sb_reset r = r\<lparr>q_head := 0, q_tail := 0, q_cnt := 0\<rparr>"

text \<open>The clock edge: every right-hand side reads the registers as they were.\<close>

definition sb_clock :: "sb_inputs \<Rightarrow> sb_regs \<Rightarrow> sb_regs" where
  "sb_clock i r =
     \<lparr>q_addr = (if do_push i r then (q_addr r)(q_tail r := st_addr i) else q_addr r),
      q_data = (if do_push i r then (q_data r)(q_tail r := st_data i) else q_data r),
      q_head = (if do_pop i r then q_head r + 1 else q_head r),
      q_tail = (if do_push i r then q_tail r + 1 else q_tail r),
      q_cnt = (if do_push i r \<and> \<not> do_pop i r then q_cnt r + 1
               else if \<not> do_push i r \<and> do_pop i r then q_cnt r - 1 else q_cnt r)\<rparr>"

section \<open>The ring as a list\<close>

definition ring_entry :: "sb_regs \<Rightarrow> nat \<Rightarrow> SBEntry" where
  "ring_entry r j = \<lparr>e_addr = q_addr r (q_head r + of_nat j), e_val = q_data r (q_head r + of_nat j)\<rparr>"

definition ring_entries :: "sb_regs \<Rightarrow> SBEntry list" where
  "ring_entries r = map (ring_entry r) [0..<unat (q_cnt r)]"

definition ring_ok :: "sb_regs \<Rightarrow> bool" where
  "ring_ok r \<longleftrightarrow> unat (q_cnt r) \<le> 8 \<and> q_tail r = q_head r + of_nat (unat (q_cnt r))"

lemma ring_pointer_eq:
  assumes "i < 8" and "j < 8"
  shows "(p + of_nat i :: 3 word) = p + of_nat j \<longleftrightarrow> i = j"
proof -
  have "unat (of_nat k :: 3 word) = k" if "k < 8" for k using that by (simp add: unat_of_nat take_bit_nat_eq_self)
  with assms show ?thesis by (metis add_left_cancel)
qed

lemma ring_cnt_of_nat: "n \<le> 8 \<Longrightarrow> unat (of_nat n :: 4 word) = n"
  by (simp add: unat_of_nat take_bit_nat_eq_self)

lemma ring_length: "length (ring_entries r) = unat (q_cnt r)"
  by (simp add: ring_entries_def)

lemma ring_reset: "ring_ok (sb_reset r)" "ring_entries (sb_reset r) = []"
  by (simp_all add: ring_ok_def sb_reset_def ring_entries_def)

lemma ring_full: "ring_ok r \<Longrightarrow> sb_full i r \<longleftrightarrow> length (ring_entries r) = 8 \<or> fence_req i"
  by (simp add: sb_full_def ring_length word_unat_eq_iff)

lemma ring_empty: "drain_valid r \<longleftrightarrow> ring_entries r \<noteq> []"
  by (simp add: drain_valid_def word_unat_eq_iff flip: length_greater_0_conv ring_length)

lemma ring_head:
  assumes "ring_entries r \<noteq> []"
  shows "hd (ring_entries r) = \<lparr>e_addr = drain_addr r, e_val = drain_data r\<rparr>"
  using assms by (simp add: ring_entries_def hd_map ring_entry_def drain_addr_def drain_data_def)

text \<open>What the clock edge does to the list.\<close>

lemma ring_push:
  assumes "ring_ok r" and "unat (q_cnt r) < 8"
  shows "map (ring_entry (r\<lparr>q_addr := (q_addr r)(q_tail r := a), q_data := (q_data r)(q_tail r := v)\<rparr>))
      [0..<Suc (unat (q_cnt r))] = ring_entries r @ [\<lparr>e_addr = a, e_val = v\<rparr>]"
  using assms ring_pointer_eq [of _ "unat (q_cnt r)" "q_head r"]
  by (auto simp: ring_entries_def ring_entry_def ring_ok_def)

lemma ring_pop: "map (ring_entry (r\<lparr>q_head := q_head r + 1\<rparr>)) [0..<n - 1] = tl (map (ring_entry r) [0..<n])"
  by (rule nth_equalityI) (simp_all add: ring_entry_def nth_tl add.assoc)

lemma ring_entry_cong:
  "q_addr r = q_addr r' \<Longrightarrow> q_data r = q_data r' \<Longrightarrow> q_head r = q_head r' \<Longrightarrow> ring_entry r = ring_entry r'"
  by (simp add: fun_eq_iff ring_entry_def)

lemma ring_clock_cnt:
  assumes "ring_ok r"
  shows "do_push i r \<Longrightarrow> unat (q_cnt r) < 8" "do_pop i r \<Longrightarrow> 0 < unat (q_cnt r)"
    "unat (q_cnt (sb_clock i r)) = unat (q_cnt r) + of_bool (do_push i r) - of_bool (do_pop i r)"
proof -
  show push: "unat (q_cnt r) < 8" if "do_push i r"
    using that assms by (auto simp: ring_ok_def do_push_def sb_full_def word_unat_eq_iff)
  show pop: "0 < unat (q_cnt r)" if "do_pop i r"
    using that by (auto simp: do_pop_def drain_valid_def word_unat_eq_iff)
  have "unat (q_cnt r + 1) = Suc (unat (q_cnt r))" if "unat (q_cnt r) < 8" using that by (simp add: unat_word_ariths)
  moreover have "unat (q_cnt r - 1) = unat (q_cnt r) - 1" if "0 < unat (q_cnt r)"
    using that by (simp add: unat_sub word_le_nat_alt)
  ultimately show "unat (q_cnt (sb_clock i r)) = unat (q_cnt r) + of_bool (do_push i r) - of_bool (do_pop i r)"
    using push pop by (simp add: sb_clock_def)
qed

lemma ring_clock_entries:
  assumes "ring_ok r"
  shows "ring_entries (sb_clock i r) =
    (let xs = (if do_push i r then ring_entries r @ [\<lparr>e_addr = st_addr i, e_val = st_data i\<rparr>] else ring_entries r)
     in if do_pop i r then tl xs else xs)"
proof -
  let ?r = "if do_push i r then r\<lparr>q_addr := (q_addr r)(q_tail r := st_addr i), q_data := (q_data r)(q_tail r := st_data i)\<rparr> else r"
  let ?m = "unat (q_cnt r) + of_bool (do_push i r)"
  note c = ring_clock_cnt [OF assms, of i]
  have xs: "map (ring_entry ?r) [0..<?m]
      = (if do_push i r then ring_entries r @ [\<lparr>e_addr = st_addr i, e_val = st_data i\<rparr>] else ring_entries r)"
    using ring_push [OF assms c(1)] by (simp add: ring_entries_def)
  have "ring_entry (sb_clock i r) = ring_entry (if do_pop i r then ?r\<lparr>q_head := q_head ?r + 1\<rparr> else ?r)"
    by (rule ring_entry_cong) (simp_all add: sb_clock_def)
  then have "ring_entries (sb_clock i r) = (if do_pop i r then tl (map (ring_entry ?r) [0..<?m]) else map (ring_entry ?r) [0..<?m])"
    using ring_pop [of ?r ?m] by (simp add: ring_entries_def c(3))
  then show ?thesis by (simp only: xs Let_def)
qed

lemma ring_clock_ok:
  assumes "ring_ok r"
  shows "ring_ok (sb_clock i r)"
proof -
  note c = ring_clock_cnt [OF assms, of i]
  obtain n where n: "unat (q_cnt r) = n" "n \<le> 8" "q_tail r = q_head r + of_nat n"
    using assms by (auto simp: ring_ok_def)
  then have "do_pop i r \<Longrightarrow> of_nat n = (1 + of_nat (n - 1) :: 3 word)" using c(2) by (metis Suc_pred' of_nat_Suc)
  with n c show ?thesis unfolding ring_ok_def c(3) by (auto simp: sb_clock_def ac_simps)
qed

section \<open>The bypass\<close>

lemma bypass_loop:
  "fold (\<lambda>k (hit, d). if \<not> hit \<and> f k = a then (True, g k) else (hit, d)) ks (False, 0)
   = (case scan a (map (\<lambda>k. \<lparr>e_addr = f k, e_val = g k\<rparr>) ks) of None \<Rightarrow> (False, 0) | Some v \<Rightarrow> (True, v))"
proof (induction ks)
  case (Cons k ks)
  have "fold (\<lambda>k (hit, d). if \<not> hit \<and> f k = a then (True, g k) else (hit, d)) ks (True, v) = (True, v)" for v
    by (induction ks) simp_all
  with Cons show ?case by simp
qed simp

lemma ring_phys:
  assumes "ring_ok r" and "k < unat (q_cnt r)"
  shows "phys r k = q_head r + of_nat (unat (q_cnt r) - Suc k)"
proof -
  have wrap: "of_int (x mod 8) = (of_int x :: 3 word)" for x :: int by transfer (simp add: take_bit_eq_mod)
  obtain n where n: "unat (q_cnt r) = n" "q_tail r = q_head r + of_nat n" using assms(1) by (auto simp: ring_ok_def)
  have "phys r k = q_tail r - 1 - of_nat k" unfolding phys_def wrap by simp
  also have "q_tail r = q_head r + of_nat (n - Suc k) + 1 + of_nat k"
    using n assms(2) by (simp add: of_nat_diff)
  finally show ?thesis by (simp add: n(1))
qed

lemma ring_bypass:
  assumes "ring_ok r"
  shows "bypass i r = (case scan (bypass_addr i) (rev (ring_entries r)) of None \<Rightarrow> (False, 0) | Some v \<Rightarrow> (True, v))"
proof -
  let ?n = "unat (q_cnt r)"
  have n: "?n \<le> 8" using assms by (simp add: ring_ok_def)
  have lt: "of_nat k < q_cnt r \<longleftrightarrow> k < ?n" if "k < 8" for k
    using that ring_cnt_of_nat [of k] by (simp add: word_less_nat_alt)
  have late: "fold (bypass_step i r) [?n..<8] p = p" for p
    using fold_guard_none [of "[?n..<8]" "\<lambda>k. k < ?n" "bypass_step i r" p] lt
    by (subst fold_cong [of _ _ _ _ _ "\<lambda>k s. if k < ?n then bypass_step i r k s else s"])
      (auto simp: bypass_step_def fun_eq_iff)
  have "fold (bypass_step i r) [0..<?n] p
      = fold (\<lambda>k (hit, d). if \<not> hit \<and> q_addr r (phys r k) = bypass_addr i then (True, q_data r (phys r k)) else (hit, d)) [0..<?n] p" for p
    by (rule fold_cong) (use n lt in \<open>auto simp: bypass_step_def\<close>)
  moreover have "rev (ring_entries r) = map (\<lambda>k. \<lparr>e_addr = q_addr r (phys r k), e_val = q_data r (phys r k)\<rparr>) [0..<?n]"
    by (rule nth_equalityI) (simp_all add: ring_length rev_nth ring_phys [OF assms], simp add: ring_entries_def ring_entry_def)
  moreover have "[0..<8] = [0..<?n] @ [?n..<8]" using upt_add_eq_append [of 0 ?n "8 - ?n"] n by simp
  ultimately show ?thesis unfolding bypass_def by (simp add: late bypass_loop)
qed

section \<open>The ring does what the C++ buffer does\<close>

definition mirrors :: "sb_regs \<Rightarrow> StoreBuffer \<Rightarrow> bool" where
  "mirrors r sb \<longleftrightarrow> ring_ok r \<and> sb_mode sb = FIFO \<and> sb_depth sb = 8 \<and> sb_buf sb = ring_entries r"

text \<open>One cycle in terms of the C++ buffer: the L1 takes the oldest entry, the CPU adds one.\<close>

definition cycle_on_buffer ::
    "sb_inputs \<Rightarrow> sb_regs \<Rightarrow> StoreBuffer \<Rightarrow> MesiSystem \<Rightarrow> exn + (StoreBuffer \<times> MesiSystem)" where
  "cycle_on_buffer i r sb s =
     sbind (if do_pop i r then drain_one sb s else Inr (sb, s))
       (\<lambda>(sb, s). if do_push i r then StoreBuffer_store (st_addr i) (st_data i) sb s else Inr (sb, s))"

lemma mirrors_drain:
  assumes "mirrors r sb" and "sb_ok (sb, s)" and "do_pop i r"
  shows "\<exists>sb' s'. drain_one sb s = Inr (sb', s') \<and> sb_ok (sb', s') \<and> sb_mode sb' = FIFO \<and> sb_depth sb' = 8
    \<and> sb_buf sb' = tl (ring_entries r) \<and> sys_val s' = (sys_val s)(drain_addr r := drain_data r)"
proof -
  have m: "sb_mode sb = FIFO" "sb_depth sb = 8" "sb_buf sb = ring_entries r" using assms(1) by (simp_all add: mirrors_def)
  have ne: "ring_entries r \<noteq> []" using assms(3) ring_empty by (simp add: do_pop_def)
  then have h: "ring_entries r ! 0 = \<lparr>e_addr = drain_addr r, e_val = drain_data r\<rparr>"
    using ring_head [OF ne] by (simp add: hd_conv_nth)
  obtain s' where "MesiSystem_write (sb_core sb) (drain_addr r) (drain_data r) s = Inr s'" "sys_ok s'"
    "sys_val s' = (sys_val s)(drain_addr r := drain_data r)" "validate_core s' = validate_core s"
    using MesiSystem_write_ok [of s "sb_core sb" "drain_addr r" "drain_data r"] assms(2) by (auto simp: sb_ok_def)
  with m ne h assms(2) show ?thesis
    by (simp add: drain_one_def drain_index_def sb_empty_def erase_at_def sb_ok_def drop_Suc)
qed

lemma mirrors_cycle:
  assumes "mirrors r sb" and "sb_ok (sb, s)"
  shows "\<exists>sb' s'. cycle_on_buffer i r sb s = Inr (sb', s') \<and> mirrors (sb_clock i r) sb' \<and> sb_ok (sb', s')
    \<and> sys_val s' = (if do_pop i r then (sys_val s)(drain_addr r := drain_data r) else sys_val s)"
proof -
  have r: "ring_ok r" using assms(1) by (simp add: mirrors_def)
  obtain sb1 s1 where s1: "(if do_pop i r then drain_one sb s else Inr (sb, s)) = Inr (sb1, s1)" "sb_ok (sb1, s1)"
    "sb_mode sb1 = FIFO" "sb_depth sb1 = 8" "sb_buf sb1 = (if do_pop i r then tl (ring_entries r) else ring_entries r)"
    "sys_val s1 = (if do_pop i r then (sys_val s)(drain_addr r := drain_data r) else sys_val s)"
    using mirrors_drain [OF assms, of i] assms by (cases "do_pop i r") (auto simp: mirrors_def)
  have l: "length (sb_buf sb1) < 8" if "do_push i r"
    using ring_clock_cnt(1) [OF r that] by (auto simp: s1(5) ring_length)
  have "do_pop i r \<Longrightarrow> ring_entries r \<noteq> []" using ring_empty by (simp add: do_pop_def)
  then have e: "ring_entries (sb_clock i r) = sb_buf sb1 @ (if do_push i r then [\<lparr>e_addr = st_addr i, e_val = st_data i\<rparr>] else [])"
    by (simp add: ring_clock_entries [OF r] s1(5) Let_def)
  show ?thesis
  proof (cases "do_push i r")
    case True
    with l s1 e ring_clock_ok [OF r] show ?thesis
      by (simp add: cycle_on_buffer_def StoreBuffer_store_def Let_def sb_size_def int_of_size mirrors_def sb_ok_def)
  next
    case False
    with s1 e ring_clock_ok [OF r] show ?thesis by (simp add: cycle_on_buffer_def mirrors_def)
  qed
qed

lemma mirrors_load:
  assumes "mirrors r sb" and "bypass i r = (True, v)"
  shows "StoreBuffer_load (bypass_addr i) sb s = Inr (v, sb\<lparr>sb_hits := sb_hits sb + 1\<rparr>, s)"
  using assms ring_bypass [of r i] by (auto simp: mirrors_def StoreBuffer_load_def split: option.splits)

text \<open>Any number of cycles, with any inputs.\<close>

fun cycles_on_buffer ::
    "sb_inputs list \<Rightarrow> sb_regs \<Rightarrow> StoreBuffer \<Rightarrow> MesiSystem \<Rightarrow> exn + (StoreBuffer \<times> MesiSystem)" where
  "cycles_on_buffer [] r sb s = Inr (sb, s)"
| "cycles_on_buffer (i # is) r sb s =
     sbind (cycle_on_buffer i r sb s) (\<lambda>(sb, s). cycles_on_buffer is (sb_clock i r) sb s)"

lemma mirrors_cycles:
  "mirrors r sb \<Longrightarrow> sb_ok (sb, s) \<Longrightarrow>
     \<exists>sb' s'. cycles_on_buffer is r sb s = Inr (sb', s') \<and> mirrors (fold sb_clock is r) sb' \<and> sb_ok (sb', s')"
proof (induction "is" arbitrary: r sb s)
  case (Cons i "is")
  obtain sb' s' where "cycle_on_buffer i r sb s = Inr (sb', s')" "mirrors (sb_clock i r) sb'" "sb_ok (sb', s')"
    using mirrors_cycle [OF Cons.prems, of i] by blast
  with Cons.IH [of "sb_clock i r" sb' s'] show ?case by simp
qed simp

lemma mirrors_new:
  assumes "sys_ok s" and "StoreBuffer_new (Some s) c 8 FIFO rng = Inr sb"
  shows "mirrors (sb_reset r) sb" "sb_ok (sb, s)"
  using assms ring_reset [of r]
  by (auto simp: StoreBuffer_new_def mirrors_def sb_ok_def validate_core_eq split: if_splits)

end
