(* ===== verification/Rtl_Driver.thy ===== *)
theory Rtl_Driver
  imports Rtl_System Rtl_Store_Buffer
begin

text \<open>
  The C++ driver \<^verbatim>\<open>sim/cpu_driver.hpp\<close> of the simulated hardware. The class \<^verbatim>\<open>Vmesi_tb_top\<close> is generated by
  Verilator; what the driver uses of it is its ports, public members, and \<^verbatim>\<open>eval\<close>. The ports are the record
  \<open>Vmesi_tb_top\<close> with the registers behind them as its last field, and \<open>ev\<close>, the argument of every driver
  function, is \<^verbatim>\<open>eval\<close>. \<open>rtl_eval\<close> is \<^verbatim>\<open>eval\<close> for \<^verbatim>\<open>sim/mesi_tb_top.sv\<close>: a rising clock or a falling reset since the last
  call updates all registers from the inputs as they are, then the outputs follow the registers and inputs.
  A port wider than 64 bits is an array of 32-bit words, here a function of the core.
\<close>

section \<open>The ports\<close>

record 'h Vmesi_tb_top =
  v_clk :: bool
  v_rst_n :: bool
  v_cpu_req :: u8
  v_cpu_we :: u8
  v_cpu_addr :: "nat \<Rightarrow> u32"
  v_cpu_wdata :: "nat \<Rightarrow> u32"
  v_dbg_addr :: u32
  v_fsm_cur_state :: u8
  v_fsm_pr_req :: u8
  v_fsm_shared_in :: bool
  v_fsm_snoop_txn :: u8
  v_sb :: sb_inputs
  v_stub_enable :: bool
  v_stub_base :: u32
  v_stub_done :: bool
  v_cpu_done :: u8
  v_cpu_rdata :: "nat \<Rightarrow> u32"
  v_cpu_stall :: u8
  v_dbg_state :: u8
  v_dbg_data :: "nat \<Rightarrow> u32"
  v_bus_rd_count :: u32
  v_bus_rdx_count :: u32
  v_bus_upgr_count :: u32
  v_bus_wb_count :: u32
  v_bus_busy_cycles :: u32
  v_l1_hit :: "nat \<Rightarrow> u32"
  v_l1_miss :: "nat \<Rightarrow> u32"
  v_inv_count :: "nat \<Rightarrow> u32"
  v_stall_cycles :: "nat \<Rightarrow> u32"
  v_fsm_req_txn :: u8
  v_fsm_needs_bus :: bool
  v_fsm_pr_next :: u8
  v_fsm_snoop_next :: u8
  v_fsm_snoop_wb :: bool
  v_sb_full :: bool
  v_sb_drain_valid :: bool
  v_sb_drain_addr :: u32
  v_sb_drain_data :: u32
  v_sb_bypass_hit :: bool
  v_sb_bypass_data :: u32
  v_sb_fence_ack :: bool
  v_sb_count :: u32
  v_stub_req :: bool
  v_stub_we :: bool
  v_stub_addr :: u32
  v_stub_wdata :: u32
  v_stub_issued :: u32
  v_hidden :: 'h

section \<open>The driver\<close>

definition Driver_tick :: "('h Vmesi_tb_top \<Rightarrow> 'h Vmesi_tb_top) \<Rightarrow> 'h Vmesi_tb_top \<Rightarrow> 'h Vmesi_tb_top" where
  "Driver_tick ev t =
     (let t = ev (t\<lparr>v_clk := False\<rparr>)
      in ev (t\<lparr>v_clk := True\<rparr>))"

definition Driver_settle :: "('h Vmesi_tb_top \<Rightarrow> 'h Vmesi_tb_top) \<Rightarrow> 'h Vmesi_tb_top \<Rightarrow> 'h Vmesi_tb_top" where
  "Driver_settle ev t = ev (t\<lparr>v_clk := False\<rparr>)"

definition Driver_reset :: "('h Vmesi_tb_top \<Rightarrow> 'h Vmesi_tb_top) \<Rightarrow> 'h Vmesi_tb_top \<Rightarrow> 'h Vmesi_tb_top" where
  "Driver_reset ev t =
     (let t = t\<lparr>v_rst_n := False, v_cpu_req := 0, v_cpu_we := 0, v_dbg_addr := 0,
            v_fsm_cur_state := 0, v_fsm_pr_req := 0, v_fsm_shared_in := False, v_fsm_snoop_txn := 0,
            v_sb := \<lparr>st_valid = False, st_addr = 0, st_data = 0, drain_ready = False, bypass_addr = 0, fence_req = False\<rparr>,
            v_stub_enable := False, v_stub_base := 0, v_stub_done := False\<rparr>;
          t = fold (\<lambda>_. Driver_tick ev) [0..<6] t;
          t = t\<lparr>v_rst_n := True\<rparr>
      in Driver_tick ev t)"

definition set_bit_of :: "u8 \<Rightarrow> nat \<Rightarrow> bool \<Rightarrow> u8" where
  "set_bit_of v i b = (if b then v OR push_bit i 1 else v AND NOT (push_bit i 1))"

definition get_bit_of :: "u8 \<Rightarrow> nat \<Rightarrow> bool" where
  "get_bit_of v i \<longleftrightarrow> drop_bit i v AND 1 \<noteq> 0"

text \<open>The loop over at most \<^verbatim>\<open>MAX\<close> cycles.\<close>

fun op_cycles ::
    "('h Vmesi_tb_top \<Rightarrow> 'h Vmesi_tb_top) \<Rightarrow> nat \<Rightarrow> nat \<Rightarrow> 'h Vmesi_tb_top \<Rightarrow> exn + (u32 \<times> 'h Vmesi_tb_top)" where
  "op_cycles ev core 0 t = Inl (Runtime_Error ''CPU op did not complete (deadlock)'')"
| "op_cycles ev core (Suc n) t =
     (let t = Driver_settle ev t;
          done = get_bit_of (v_cpu_done t) core;
          rd = v_cpu_rdata t core;
          t = ev (t\<lparr>v_clk := True\<rparr>)
      in if done then Inr (rd, t) else op_cycles ev core n t)"

definition Driver_op ::
    "('h Vmesi_tb_top \<Rightarrow> 'h Vmesi_tb_top) \<Rightarrow> nat \<Rightarrow> bool \<Rightarrow> u32 \<Rightarrow> u32 \<Rightarrow> 'h Vmesi_tb_top \<Rightarrow> exn + (u32 \<times> 'h Vmesi_tb_top)" where
  "Driver_op ev core we addr wdata t =
     (let t = t\<lparr>v_cpu_req := set_bit_of (v_cpu_req t) core True, v_cpu_we := set_bit_of (v_cpu_we t) core we,
            v_cpu_addr := (v_cpu_addr t)(core := addr), v_cpu_wdata := (v_cpu_wdata t)(core := wdata)\<rparr>
      in sbind (op_cycles ev core 1000 t) (\<lambda>(rd, t).
           let t = t\<lparr>v_cpu_req := set_bit_of (v_cpu_req t) core False\<rparr>
           in Inr (rd, Driver_settle ev t)))"

definition Driver_read ::
    "('h Vmesi_tb_top \<Rightarrow> 'h Vmesi_tb_top) \<Rightarrow> nat \<Rightarrow> u32 \<Rightarrow> 'h Vmesi_tb_top \<Rightarrow> exn + (u32 \<times> 'h Vmesi_tb_top)" where
  "Driver_read ev core addr t = Driver_op ev core False addr 0 t"

definition Driver_write ::
    "('h Vmesi_tb_top \<Rightarrow> 'h Vmesi_tb_top) \<Rightarrow> nat \<Rightarrow> u32 \<Rightarrow> u32 \<Rightarrow> 'h Vmesi_tb_top \<Rightarrow> exn + 'h Vmesi_tb_top" where
  "Driver_write ev core addr v t = sbind (Driver_op ev core True addr v t) (\<lambda>(_, t). Inr t)"

definition Driver_state ::
    "('h Vmesi_tb_top \<Rightarrow> 'h Vmesi_tb_top) \<Rightarrow> nat \<Rightarrow> u32 \<Rightarrow> 'h Vmesi_tb_top \<Rightarrow> u8 \<times> 'h Vmesi_tb_top" where
  "Driver_state ev core addr t =
     (let t = ev (t\<lparr>v_dbg_addr := addr\<rparr>) in (drop_bit (2 * core) (v_dbg_state t) AND 3, t))"

definition Driver_dbg_data ::
    "('h Vmesi_tb_top \<Rightarrow> 'h Vmesi_tb_top) \<Rightarrow> nat \<Rightarrow> u32 \<Rightarrow> 'h Vmesi_tb_top \<Rightarrow> u32 \<times> 'h Vmesi_tb_top" where
  "Driver_dbg_data ev core addr t = (let t = ev (t\<lparr>v_dbg_addr := addr\<rparr>) in (v_dbg_data t core, t))"

text \<open>The performance counters are ports; a call reads one.\<close>

definition Driver_bus_rd :: "'h Vmesi_tb_top \<Rightarrow> u32" where
  "Driver_bus_rd t = v_bus_rd_count t"

definition Driver_bus_rdx :: "'h Vmesi_tb_top \<Rightarrow> u32" where
  "Driver_bus_rdx t = v_bus_rdx_count t"

definition Driver_bus_upgr :: "'h Vmesi_tb_top \<Rightarrow> u32" where
  "Driver_bus_upgr t = v_bus_upgr_count t"

definition Driver_bus_wb :: "'h Vmesi_tb_top \<Rightarrow> u32" where
  "Driver_bus_wb t = v_bus_wb_count t"

definition Driver_l1_hit :: "nat \<Rightarrow> 'h Vmesi_tb_top \<Rightarrow> u32" where
  "Driver_l1_hit core t = v_l1_hit t core"

definition Driver_l1_miss :: "nat \<Rightarrow> 'h Vmesi_tb_top \<Rightarrow> u32" where
  "Driver_l1_miss core t = v_l1_miss t core"

definition Driver_inv_count :: "nat \<Rightarrow> 'h Vmesi_tb_top \<Rightarrow> u32" where
  "Driver_inv_count core t = v_inv_count t core"

lemmas driver_counters = Driver_bus_rd_def Driver_bus_rdx_def Driver_bus_upgr_def Driver_bus_wb_def

section \<open>The testbench wrapper\<close>

text \<open>The registers behind the ports, and the clock and reset of the last call of \<^verbatim>\<open>eval\<close>.\<close>

record rtl_hidden =
  h_clk :: bool
  h_rst_n :: bool
  h_regs :: rtl_regs
  h_sb :: sb_regs
  h_step :: u32

text \<open>\<^verbatim>\<open>cpu_stub\<close> with its parameters \<^verbatim>\<open>CORE_ID\<close> and \<^verbatim>\<open>MODE\<close>: it walks the lines from the base, reading and writing in turn, or
  writes one word again and again. The wrapper instantiates core 1 in mode 0.\<close>

definition stub_we_of :: "3 word \<Rightarrow> u32 \<Rightarrow> bool" where
  "stub_we_of mode step = (if mode = 0 then bit step 0 else mode = 1 \<or> mode = 2)"

definition stub_addr_of :: "nat \<Rightarrow> 3 word \<Rightarrow> u32 \<Rightarrow> u32 \<Rightarrow> u32" where
  "stub_addr_of cid mode base step =
     (if mode = 0 then base + push_bit 6 step
      else if mode = 2 then base + (if odd cid then 4 else 0) else base)"

definition stub_wdata_of :: "nat \<Rightarrow> u32 \<Rightarrow> u32" where
  "stub_wdata_of cid step = push_bit 24 (of_nat cid) OR take_bit 24 step"

definition stub_clock :: "bool \<Rightarrow> bool \<Rightarrow> u32 \<Rightarrow> u32" where
  "stub_clock enable done step = (if enable \<and> done then step + 1 else step)"

definition tb_inputs :: "'h Vmesi_tb_top \<Rightarrow> rtl_inputs" where
  "tb_inputs t = \<lparr>i_req = (\<lambda>k. k < N_CORES \<and> bit (v_cpu_req t) k), i_we = (\<lambda>k. bit (v_cpu_we t) k),
     i_addr = v_cpu_addr t, i_wdata = v_cpu_wdata t\<rparr>"

definition tb_edge :: "rtl_hidden Vmesi_tb_top \<Rightarrow> bool" where
  "tb_edge t \<longleftrightarrow> \<not> h_clk (v_hidden t) \<and> v_clk t \<or> h_rst_n (v_hidden t) \<and> \<not> v_rst_n t"

definition tb_registers :: "rtl_hidden Vmesi_tb_top \<Rightarrow> rtl_hidden" where
  "tb_registers t = (let h = v_hidden t in
     if \<not> tb_edge t then h\<lparr>h_clk := v_clk t, h_rst_n := v_rst_n t\<rparr>
     else if \<not> v_rst_n t then
       \<lparr>h_clk = v_clk t, h_rst_n = v_rst_n t, h_regs = rtl_reset (h_regs h), h_sb = sb_reset (h_sb h), h_step = 0\<rparr>
     else
       \<lparr>h_clk = v_clk t, h_rst_n = v_rst_n t, h_regs = rtl_clock (tb_inputs t) (h_regs h),
        h_sb = sb_clock (v_sb t) (h_sb h),
        h_step = stub_clock (v_stub_enable t) (v_stub_done t) (h_step h)\<rparr>)"

definition pack_bits :: "(nat \<Rightarrow> bool) \<Rightarrow> u8" where
  "pack_bits f = fold (\<lambda>k w. set_bit_of w k (f k)) [0..<N_CORES] 0"

definition pack_states :: "(nat \<Rightarrow> State) \<Rightarrow> u8" where
  "pack_states f = fold (\<lambda>k w. w OR push_bit (2 * k) (State_val (f k))) [0..<N_CORES] 0"

definition tb_outputs :: "rtl_hidden Vmesi_tb_top \<Rightarrow> rtl_hidden Vmesi_tb_top" where
  "tb_outputs t = (let h = v_hidden t; i = tb_inputs t; r = h_regs h; p = r_perf r;
       cur = mesi_state_cast (v_fsm_cur_state t); pr = pr_req_cast (v_fsm_pr_req t); txn = bus_txn_cast (v_fsm_snoop_txn t)
     in t\<lparr>v_cpu_done := pack_bits (cpu_done i r), v_cpu_rdata := cpu_rdata i r, v_cpu_stall := pack_bits (cpu_stall i r),
         v_dbg_state := pack_states (\<lambda>k. lk_state (r_l1 r k) (v_dbg_addr t)),
         v_dbg_data := (\<lambda>k. lk_data (r_l1 r k) (v_dbg_addr t)),
         v_bus_rd_count := p_rd p, v_bus_rdx_count := p_rdx p, v_bus_upgr_count := p_upgr p, v_bus_wb_count := p_wb p,
         v_bus_busy_cycles := p_busy p,
         v_l1_hit := p_hit p, v_l1_miss := p_miss p, v_inv_count := p_inv p, v_stall_cycles := p_stall p,
         v_fsm_req_txn := BusTxn_val (fsm_req_txn cur pr), v_fsm_needs_bus := fsm_needs_bus cur pr,
         v_fsm_pr_next := State_val (fsm_pr_next cur pr (v_fsm_shared_in t)),
         v_fsm_snoop_next := State_val (fsm_snoop_next cur txn), v_fsm_snoop_wb := fsm_snoop_wb cur txn,
         v_sb_full := sb_full (v_sb t) (h_sb h), v_sb_drain_valid := drain_valid (h_sb h),
         v_sb_drain_addr := drain_addr (h_sb h), v_sb_drain_data := drain_data (h_sb h),
         v_sb_bypass_hit := fst (bypass (v_sb t) (h_sb h)), v_sb_bypass_data := snd (bypass (v_sb t) (h_sb h)),
         v_sb_fence_ack := fence_ack (v_sb t) (h_sb h), v_sb_count := ucast (q_cnt (h_sb h)),
         v_stub_req := v_stub_enable t, v_stub_we := stub_we_of 0 (h_step h),
         v_stub_addr := stub_addr_of 1 0 (v_stub_base t) (h_step h), v_stub_wdata := stub_wdata_of 1 (h_step h), v_stub_issued := h_step h\<rparr>)"

definition rtl_eval :: "rtl_hidden Vmesi_tb_top \<Rightarrow> rtl_hidden Vmesi_tb_top" where
  "rtl_eval t = tb_outputs (t\<lparr>v_hidden := tb_registers t\<rparr>)"

section \<open>The loop of an operation\<close>

text \<open>One turn of the loop of \<^verbatim>\<open>op\<close>: what core \<open>c\<close> sees before the clock edge, and the state after it.\<close>

definition op_done :: "('h Vmesi_tb_top \<Rightarrow> 'h Vmesi_tb_top) \<Rightarrow> nat \<Rightarrow> 'h Vmesi_tb_top \<Rightarrow> bool" where
  "op_done ev c t \<longleftrightarrow> get_bit_of (v_cpu_done (Driver_settle ev t)) c"

definition op_turn :: "('h Vmesi_tb_top \<Rightarrow> 'h Vmesi_tb_top) \<Rightarrow> 'h Vmesi_tb_top \<Rightarrow> 'h Vmesi_tb_top" where
  "op_turn ev t = ev ((Driver_settle ev t)\<lparr>v_clk := True\<rparr>)"

lemma op_cycles_Suc:
  "op_cycles ev c (Suc n) t =
     (if op_done ev c t then Inr (v_cpu_rdata (Driver_settle ev t) c, op_turn ev t) else op_cycles ev c n (op_turn ev t))"
  by (simp add: op_done_def op_turn_def Let_def)

lemma op_cycles_deadlock:
  "op_cycles ev c n t = Inl e \<longleftrightarrow>
     e = Runtime_Error ''CPU op did not complete (deadlock)'' \<and> (\<forall>j < n. \<not> op_done ev c ((op_turn ev ^^ j) t))"
proof (induction n arbitrary: t)
  case (Suc n)
  have "(\<forall>j < Suc n. \<not> op_done ev c ((op_turn ev ^^ j) t))
      \<longleftrightarrow> \<not> op_done ev c t \<and> (\<forall>j < n. \<not> op_done ev c ((op_turn ev ^^ j) (op_turn ev t)))"
    by (auto simp: less_Suc_eq_0_disj funpow_swap1)
  with Suc [of "op_turn ev t"] show ?case by (auto simp: op_cycles_Suc simp del: op_cycles.simps(2))
qed auto

lemma op_cycles_returns:
  assumes "op_done ev c ((op_turn ev ^^ j) t)" and "j < n" and "\<And>i. i < j \<Longrightarrow> \<not> op_done ev c ((op_turn ev ^^ i) t)"
  shows "op_cycles ev c n t = Inr (v_cpu_rdata (Driver_settle ev ((op_turn ev ^^ j) t)) c, (op_turn ev ^^ Suc j) t)"
  using assms
proof (induction n arbitrary: t j)
  case (Suc n)
  show ?case
  proof (cases j)
    case 0
    with Suc.prems(1) show ?thesis by (simp add: op_cycles_Suc del: op_cycles.simps(2))
  next
    case (Suc i)
    have "\<not> op_done ev c t" using Suc.prems(3) [of 0] Suc by simp
    moreover have "op_cycles ev c n (op_turn ev t)
        = Inr (v_cpu_rdata (Driver_settle ev ((op_turn ev ^^ i) (op_turn ev t))) c, (op_turn ev ^^ Suc i) (op_turn ev t))"
      using Suc.prems(1,2) Suc.prems(3) [of "Suc _"] Suc by (intro Suc.IH) (simp_all add: funpow_swap1)
    ultimately show ?thesis by (simp add: op_cycles_Suc Suc funpow_swap1 del: op_cycles.simps(2))
  qed
qed simp

definition op_request :: "nat \<Rightarrow> bool \<Rightarrow> u32 \<Rightarrow> u32 \<Rightarrow> 'h Vmesi_tb_top \<Rightarrow> 'h Vmesi_tb_top" where
  "op_request c we a x t = t\<lparr>v_cpu_req := set_bit_of (v_cpu_req t) c True, v_cpu_we := set_bit_of (v_cpu_we t) c we,
     v_cpu_addr := (v_cpu_addr t)(c := a), v_cpu_wdata := (v_cpu_wdata t)(c := x)\<rparr>"

definition op_release :: "('h Vmesi_tb_top \<Rightarrow> 'h Vmesi_tb_top) \<Rightarrow> nat \<Rightarrow> 'h Vmesi_tb_top \<Rightarrow> 'h Vmesi_tb_top" where
  "op_release ev c t = Driver_settle ev (t\<lparr>v_cpu_req := set_bit_of (v_cpu_req t) c False\<rparr>)"

lemma Driver_op_eq:
  "Driver_op ev c we a x t = sbind (op_cycles ev c 1000 (op_request c we a x t)) (\<lambda>(rd, t). Inr (rd, op_release ev c t))"
  by (simp add: Driver_op_def op_request_def op_release_def Let_def)

lemma set_get_bit: "i < 8 \<Longrightarrow> bit (set_bit_of v i b) j \<longleftrightarrow> (if j = i then b else bit v j)"
  by (auto simp: set_bit_of_def bit_simps dest: bit_imp_le_length)

lemma get_bit_of_iff: "get_bit_of v i \<longleftrightarrow> bit v i"
  by (simp add: get_bit_of_def and_one_eq odd_iff_mod_2_eq_one bit_iff_odd_drop_bit)

text \<open>For every device: the first turn with the answer ends the operation, and a thousand turns without one
  are a deadlock.\<close>

lemma Driver_op_find:
  "Driver_op ev c we a x t = (let T = (\<lambda>j. (op_turn ev ^^ j) (op_request c we a x t)) in
     case find (\<lambda>j. op_done ev c (T j)) [0..<1000] of
       None \<Rightarrow> Inl (Runtime_Error ''CPU op did not complete (deadlock)'')
     | Some j \<Rightarrow> Inr (v_cpu_rdata (Driver_settle ev (T j)) c, op_release ev c (T (Suc j))))"
proof -
  let ?T = "\<lambda>j. (op_turn ev ^^ j) (op_request c we a x t)"
  show ?thesis
  proof (cases "find (\<lambda>j. op_done ev c (?T j)) [0..<1000]")
    case None
    then have "op_cycles ev c 1000 (op_request c we a x t) = Inl (Runtime_Error ''CPU op did not complete (deadlock)'')"
      unfolding op_cycles_deadlock by (auto simp: find_None_iff)
    with None show ?thesis by (simp add: Driver_op_eq Let_def)
  next
    case (Some j)
    then have "op_done ev c (?T j)" "j < 1000" "\<And>i. i < j \<Longrightarrow> \<not> op_done ev c (?T i)"
      by (auto simp: find_Some_iff nth_upt)
    from op_cycles_returns [of ev c j, OF this] Some show ?thesis by (simp add: Driver_op_eq Let_def)
  qed
qed

section \<open>The ports after an evaluation\<close>

lemma bit_pack_bits: "bit (pack_bits f) k \<longleftrightarrow> k < N_CORES \<and> f k"
proof -
  have "bit (fold (\<lambda>k w. set_bit_of w k (f k)) [0..<n] 0) k \<longleftrightarrow> k < n \<and> f k" if "n \<le> 8" for n
    using that by (induction n) (auto simp: set_get_bit less_Suc_eq)
  from this [of N_CORES] show ?thesis by (simp add: pack_bits_def N_CORES_def)
qed

lemma State_val_bits: "bit (State_val st) n \<Longrightarrow> n < 2"
  by (cases st) (auto simp: bit_simps bit_numeral_rec split: nat.splits)

lemma bit_pack_states: "bit (pack_states f) n \<longleftrightarrow> n < 2 * N_CORES \<and> bit (State_val (f (n div 2))) (n mod 2)"
proof -
  have "bit (fold (\<lambda>k w. w OR push_bit (2 * k) (State_val (f k))) [0..<m] (0 :: u8)) n
      \<longleftrightarrow> n < 2 * m \<and> bit (State_val (f (n div 2))) (n mod 2)" if "m \<le> 4" for m
    using that
  proof (induction m)
    case (Suc m)
    have "bit (push_bit (2 * m) (State_val (f m))) n \<longleftrightarrow> n div 2 = m \<and> bit (State_val (f m)) (n mod 2)"
      using State_val_bits [of "f m" "n - 2 * m"] Suc.prems
      by (cases "n div 2 = m") (auto simp: bit_simps minus_mod_eq_mult_div [symmetric] modulo_nat_def)
    moreover have "n < 2 * Suc m \<longleftrightarrow> n < 2 * m \<or> n div 2 = m" by presburger
    ultimately show ?case using Suc by (auto simp: bit_or_iff simp del: mult_Suc_right)
  qed simp
  from this [of N_CORES] show ?thesis by (simp add: pack_states_def N_CORES_def)
qed

lemma unpack_state: "k < N_CORES \<Longrightarrow> drop_bit (2 * k) (pack_states f) AND 3 = State_val (f k)"
proof -
  assume k: "k < N_CORES"
  have "2 * k + n < 2 * N_CORES" if "bit (State_val (f k)) n" for n
    using State_val_bits [OF that] k by linarith
  then have "(drop_bit (2 * k) (pack_states f) :: u8) AND mask 2 = State_val (f k)"
    using State_val_bits [of "f k"]
    by (intro bit_eqI) (auto simp: bit_simps bit_pack_states less_2_cases_iff)
  then show ?thesis by (simp add: mask_eq_exp_minus_1)
qed

lemma eval_inputs [simp]:
  "v_clk (rtl_eval t) = v_clk t" "v_rst_n (rtl_eval t) = v_rst_n t" "v_cpu_req (rtl_eval t) = v_cpu_req t"
  "v_cpu_we (rtl_eval t) = v_cpu_we t" "v_cpu_addr (rtl_eval t) = v_cpu_addr t" "v_cpu_wdata (rtl_eval t) = v_cpu_wdata t"
  "v_sb (rtl_eval t) = v_sb t" "v_dbg_addr (rtl_eval t) = v_dbg_addr t" "v_hidden (rtl_eval t) = tb_registers t"
  "v_stub_enable (rtl_eval t) = v_stub_enable t" "v_stub_base (rtl_eval t) = v_stub_base t" "v_stub_done (rtl_eval t) = v_stub_done t"
  by (simp_all add: rtl_eval_def tb_outputs_def Let_def)

lemma eval_outputs:
  "v_cpu_done (rtl_eval t) = pack_bits (cpu_done (tb_inputs t) (h_regs (tb_registers t)))"
  "v_cpu_rdata (rtl_eval t) = cpu_rdata (tb_inputs t) (h_regs (tb_registers t))"
  "v_dbg_state (rtl_eval t) = pack_states (\<lambda>k. lk_state (r_l1 (h_regs (tb_registers t)) k) (v_dbg_addr t))"
  "v_dbg_data (rtl_eval t) = (\<lambda>k. lk_data (r_l1 (h_regs (tb_registers t)) k) (v_dbg_addr t))"
  "v_bus_rd_count (rtl_eval t) = p_rd (r_perf (h_regs (tb_registers t)))"
  "v_bus_rdx_count (rtl_eval t) = p_rdx (r_perf (h_regs (tb_registers t)))"
  "v_bus_upgr_count (rtl_eval t) = p_upgr (r_perf (h_regs (tb_registers t)))"
  "v_bus_wb_count (rtl_eval t) = p_wb (r_perf (h_regs (tb_registers t)))"
  "v_l1_hit (rtl_eval t) = p_hit (r_perf (h_regs (tb_registers t)))"
  "v_l1_miss (rtl_eval t) = p_miss (r_perf (h_regs (tb_registers t)))"
  "v_inv_count (rtl_eval t) = p_inv (r_perf (h_regs (tb_registers t)))"
  by (simp_all add: rtl_eval_def tb_outputs_def Let_def tb_inputs_def)

end
