(* ===== verification/Rtl_Agreement.thy ===== *)
theory Rtl_Agreement
  imports Rtl_Memory Rtl_Driver
begin

text \<open>
  The hardware behind its C++ driver keeps the contract of a coherent memory: with one request at a time the
  operation is done in its first cycle, and registers, values and counters follow \<open>view_op\<close>.
\<close>

section \<open>The registers\<close>

definition shows_counts :: "perf_regs \<Rightarrow> nat \<Rightarrow> core_counts \<Rightarrow> bool" where
  "shows_counts p k n \<longleftrightarrow> p_hit p k = ucast (n_hit n) \<and> p_miss p k = ucast (n_miss n) \<and> p_inv p k = ucast (n_inv n)"

definition regs_look :: "u32 set \<Rightarrow> mesi_view \<Rightarrow> rtl_regs \<Rightarrow> bool" where
  "regs_look A v r \<longleftrightarrow> holds_mem A (w_val v) r
     \<and> p_rd (r_perf r) = ucast (t_rd (w_traffic v)) \<and> p_rdx (r_perf r) = ucast (t_rdx (w_traffic v))
     \<and> p_upgr (r_perf r) = ucast (t_upgr (w_traffic v)) \<and> p_wb (r_perf r) = ucast (t_wb (w_traffic v))
     \<and> (\<forall>k < N_CORES. shows_counts (r_perf r) k (w_counts v k))
     \<and> (\<forall>a \<in> A. \<forall>k < N_CORES. lk_state (r_l1 r k) a = w_states v a ! k)"

lemma regs_lookD:
  assumes "regs_look A v r" and "a \<in> A" and "k < N_CORES"
  shows "lk_state (r_l1 r k) a = w_states v a ! k" "w_states v a ! k \<noteq> State_I \<Longrightarrow> lk_data (r_l1 r k) a = w_val v a"
  using assms holds_memD(2) [of A "w_val v" r a k] by (simp_all add: regs_look_def)

section \<open>One core at a time\<close>

text \<open>The nets of a cycle in which only core \<open>c\<close> requests.\<close>

lemma alone_nets:
  assumes "alone i c"
  shows "grant i r k \<longleftrightarrow> k = c \<and> needs_bus i r c" "bus_active i r = needs_bus i r c"
    "needs_bus i r c \<Longrightarrow> bus_txn i r = req_txn i r c" "needs_bus i r c \<Longrightarrow> bus_addr i r = i_addr i c"
    "k \<noteq> c \<Longrightarrow> \<not> local_write_done i r k"
  using alone_winner [OF assms, of r] assms
  by (auto simp: grant_def bus_active_def bus_txn_def bus_addr_def local_write_done_def alone_def)

text \<open>What the bus collects for a request of core \<open>c\<close> to a line of the view.\<close>

lemma alone_aggregate:
  assumes "alone i c" and "needs_bus i r c" and "regs_look A v r" and "i_addr i c \<in> A"
  shows "agg_shared i r = peer_in (\<lambda>st. st \<noteq> State_I) c (w_states v (i_addr i c))"
    and "agg_dirty i r = (if peer_in (\<lambda>st. st = State_M) c (w_states v (i_addr i c)) then Some (w_val v (i_addr i c)) else None)"
proof -
  note n = alone_nets(1,2) [OF assms(1), of r] alone_nets(4) [OF assms(1,2)]
  have s: "snp_state i r k = w_states v (i_addr i c) ! k" if "k < N_CORES" for k
    using regs_lookD(1) [OF assms(3,4) that] n(3) by (simp add: snp_state_def)
  have h: "snoop_had_copy i r k \<longleftrightarrow> k \<noteq> c \<and> w_states v (i_addr i c) ! k \<noteq> State_I" if "k < N_CORES" for k
    using s [OF that] assms(2) n(1) [of k] n(2) by (simp add: snoop_had_copy_def)
  then show "agg_shared i r = peer_in (\<lambda>st. st \<noteq> State_I) c (w_states v (i_addr i c))"
    by (auto simp: agg_shared_iff peer_in_iff)
  have d: "snoop_dirty i r k \<longleftrightarrow> k \<noteq> c \<and> w_states v (i_addr i c) ! k = State_M" if "k < N_CORES" for k
    using h [OF that] s [OF that] by (auto simp: snoop_dirty_def)
  have "lk_data (r_l1 r k) (bus_addr i r) = w_val v (i_addr i c)" if "k < N_CORES" "snoop_dirty i r k" for k
    using d [OF that(1)] that(2) regs_lookD(2) [OF assms(3,4) that(1)] n(3) by simp
  from agg_dirty_eq [of i r, OF this] d
  show "agg_dirty i r = (if peer_in (\<lambda>st. st = State_M) c (w_states v (i_addr i c)) then Some (w_val v (i_addr i c)) else None)"
    by (simp add: peer_in_iff cong: conj_cong)
qed

lemma alone_requests: "alone i c \<Longrightarrow> i_addr i c \<in> A \<Longrightarrow> requests_in A i"
  by (auto simp: requests_in_def alone_def)

lemma alone_done_iff: "alone i c \<Longrightarrow> cpu_done i r k \<longleftrightarrow> k = c"
  using alone_done [of i c r] done_requests [of i r k] by (auto simp: alone_def)

lemma alone_read:
  assumes "alone i c" and "regs_look A v r" and "i_addr i c \<in> A" and "\<not> i_we i c"
  shows "cpu_rdata i r c = w_val v (i_addr i c)"
proof (rule reader_value)
  show "holds_mem A (w_val v) r" using assms(2) by (simp add: regs_look_def)
  show "requests_in A i" "reads_now i r c" "c < N_CORES"
    using alone_requests [OF assms(1,3)] alone_done [OF assms(1)] assms(1,4) by (simp_all add: reads_now_def alone_def)
qed

text \<open>States, copies, memory and counters after the cycle.\<close>

lemma alone_mem:
  assumes "alone i c"
  shows "cycle_mem i r m = (if i_we i c then m(i_addr i c := i_wdata i c) else m)"
proof
  fix b
  have w: "k \<in> set (filter (writes_now i r) [0..<N_CORES]) \<longleftrightarrow> i_we i c \<and> k = c" for k
    using alone_done_iff [OF assms, of r] assms by (auto simp: writes_now_def alone_def)
  show "cycle_mem i r m b = (if i_we i c then m(i_addr i c := i_wdata i c) else m) b"
  proof (cases "i_we i c \<and> b = i_addr i c")
    case True
    then have "cycle_mem i r m (i_addr i c) = i_wdata i c" by (intro after_writes_one) (simp_all only: w simp_thms)
    with True show ?thesis by simp
  next
    case False
    then have "cycle_mem i r m b = m b" by (intro after_writes_none) (unfold w, blast)
    with False show ?thesis by auto
  qed
qed

lemma alone_pr: "alone i c \<Longrightarrow> l1_pr i c = (if i_we i c then PrWr else PrRd)"
  by (simp add: l1_pr_def alone_def)

lemma alone_states:
  assumes "alone i c" and "apart A" and "regs_look A v r" and "i_addr i c \<in> A" and "b \<in> A" and "k < N_CORES"
  shows "lk_state (r_l1 (rtl_clock i r) k) b
    = (if b = i_addr i c then next_states c (l1_pr i c) (w_states v b) else w_states v b) ! k"
proof -
  let ?a = "i_addr i c"
  note d = apart_index [OF assms(2,5,4)] apart_line [OF assms(2,5,4)]
    and st = regs_lookD(1) [OF assms(3,5,6)]
  have c: "c < N_CORES" using assms(1) by (simp add: alone_def)
  have cs: "cpu_state i r c = w_states v ?a ! c" using regs_lookD(1) [OF assms(3,4) c] by (simp add: cpu_state_def)
  show ?thesis
  proof (cases "needs_bus i r c")
    case True
    note n = alone_nets(1-4) [OF assms(1), of r] and n5 = alone_nets(5) [OF assms(1)] and ad = alone_nets(4) [OF assms(1) True]
    have w: "bus_winner i r = Some c" using alone_winner [OF assms(1)] True by simp
    show ?thesis
    proof (cases "k = c")
      case True
      with \<open>needs_bus i r c\<close> n(1) [of k] d st cs alone_aggregate(1) [OF assms(1) \<open>needs_bus i r c\<close> assms(3,4)]
      show ?thesis using c by (auto simp: clock_state nth_next_states)
    next
      case False
      with True n(1) [of k] n5 [of k r] d st ad have "b \<noteq> ?a \<Longrightarrow> ?thesis" by (simp add: clock_state)
      moreover have "b = ?a \<Longrightarrow> ?thesis"
        using clock_snooped [OF w False, of b] False assms(6) ad st cs by (simp add: nth_next_states req_txn_def)
      ultimately show ?thesis by blast
    qed
  next
    case False
    note n = alone_nets(1-4) [OF assms(1), of r] and n5 = alone_nets(5) [OF assms(1)]
    have "\<not> snoop_write i r k" "\<not> grant i r k" using n(1) [of k] n(2) False by (simp_all add: snoop_write_def)
    moreover have "local_write_done i r k \<longleftrightarrow> k = c \<and> i_we i c"
      using n5 [of k r] n(2) False assms(1) by (auto simp: local_write_done_def alone_def snoop_write_def)
    moreover have "fsm_req_txn (w_states v ?a ! c) (l1_pr i c) = BusTxn_None"
      using False cs by (simp add: needs_bus_def fsm_needs_bus_def)
    ultimately show ?thesis using d st assms(6) alone_pr [OF assms(1)]
      by (auto simp: clock_state nth_next_states fsm_pr_next_def fsm_snoop_next_def fsm_req_txn_def split: if_splits)
  qed
qed

lemma ucast_inc: "(ucast (x + 1 :: u64) :: u32) = ucast x + 1"
proof transfer
  fix x :: int
  have "(x mod 18446744073709551616 + 1) mod 4294967296 = (x + 1) mod 4294967296"
    using mod_add_cong [of "x mod 18446744073709551616" 4294967296 x 1 1] by (simp add: mod_mod_cancel)
  then show "take_bit LENGTH(32) (take_bit LENGTH(64) (x + 1)) = take_bit LENGTH(32) (take_bit LENGTH(64) x + 1)"
    by (simp add: take_bit_eq_mod mod_mod_cancel)
qed

lemma alone_perf:
  assumes "alone i c" and "regs_look A v r" and "i_addr i c \<in> A"
  defines "t \<equiv> txn_traffic (fsm_req_txn (w_states v (i_addr i c) ! c) (l1_pr i c))
    (peer_in (\<lambda>st. st = State_M) c (w_states v (i_addr i c))) (w_traffic v)"
  shows "p_rd (r_perf (rtl_clock i r)) = ucast (t_rd t)" "p_rdx (r_perf (rtl_clock i r)) = ucast (t_rdx t)"
    "p_upgr (r_perf (rtl_clock i r)) = ucast (t_upgr t)" "p_wb (r_perf (rtl_clock i r)) = ucast (t_wb t)"
proof -
  note n = alone_nets(1-4) [OF assms(1), of r]
  have c: "c < N_CORES" using assms(1) by (simp add: alone_def)
  have txn: "fsm_req_txn (w_states v (i_addr i c) ! c) (l1_pr i c) = req_txn i r c"
    using regs_lookD(1) [OF assms(2,3) c] by (simp add: req_txn_def cpu_state_def)
  have nb: "needs_bus i r c \<longleftrightarrow> req_txn i r c \<noteq> BusTxn_None" by (simp add: needs_bus_def fsm_needs_bus_def req_txn_def)
  have wb: "mem_wr_en i r \<longleftrightarrow> (req_txn i r c = BusRd \<or> req_txn i r c = BusRdX) \<and> peer_in (\<lambda>st. st = State_M) c (w_states v (i_addr i c))"
    using alone_aggregate(2) [OF assms(1) _ assms(2,3)] n(2,3) nb by (auto simp: mem_wr_en_def split: if_splits)
  have p: "p_rd (r_perf r) = ucast (t_rd (w_traffic v))" "p_rdx (r_perf r) = ucast (t_rdx (w_traffic v))"
    "p_upgr (r_perf r) = ucast (t_upgr (w_traffic v))" "p_wb (r_perf r) = ucast (t_wb (w_traffic v))"
    using assms(2) by (simp_all add: regs_look_def)
  show "p_rd (r_perf (rtl_clock i r)) = ucast (t_rd t)" "p_rdx (r_perf (rtl_clock i r)) = ucast (t_rdx t)"
    "p_upgr (r_perf (rtl_clock i r)) = ucast (t_upgr t)" "p_wb (r_perf (rtl_clock i r)) = ucast (t_wb t)"
    using n(2,3) nb wb p
    by (cases "req_txn i r c"; auto simp: rtl_clock_def perf_clock_def Let_def count_if_def t_def txn txn_traffic_def traffic_defs ucast_inc)+
qed

lemma alone_events:
  assumes "alone i c" and "regs_look A v r" and "i_addr i c \<in> A" and "k < N_CORES"
  defines "sts \<equiv> w_states v (i_addr i c)"
  shows "ev_hit i r k \<longleftrightarrow> k = c \<and> sts ! c \<noteq> State_I" "ev_miss i r k \<longleftrightarrow> k = c \<and> sts ! c = State_I"
    "ev_inv i r k \<longleftrightarrow> k \<noteq> c \<and> sts ! k \<noteq> State_I \<and> fsm_snoop_next (sts ! k) (fsm_req_txn (sts ! c) (l1_pr i c)) = State_I"
proof -
  note n = alone_nets(1-4) [OF assms(1), of r]
  have c: "c < N_CORES" using assms(1) by (simp add: alone_def)
  have s: "lk_state (r_l1 r j) (i_addr i c) = sts ! j" if "j < N_CORES" for j
    using regs_lookD(1) [OF assms(2,3) that] by (simp add: sts_def)
  have cs: "cpu_state i r c = sts ! c" using s [OF c] by (simp add: cpu_state_def)
  have d: "cpu_done i r k \<longleftrightarrow> k = c" by (rule alone_done_iff [OF assms(1)])
  with cs show "ev_hit i r k \<longleftrightarrow> k = c \<and> sts ! c \<noteq> State_I" "ev_miss i r k \<longleftrightarrow> k = c \<and> sts ! c = State_I"
    by (auto simp: ev_hit_def ev_miss_def)
  have t: "req_txn i r c = fsm_req_txn (sts ! c) (l1_pr i c)" by (simp add: req_txn_def cs)
  show "ev_inv i r k \<longleftrightarrow> k \<noteq> c \<and> sts ! k \<noteq> State_I \<and> fsm_snoop_next (sts ! k) (fsm_req_txn (sts ! c) (l1_pr i c)) = State_I"
  proof (cases "needs_bus i r c")
    case True
    have "snp_state i r k = sts ! k" using s [OF assms(4)] alone_nets(4) [OF assms(1) True] by (simp add: snp_state_def)
    moreover have "bus_active i r \<and> \<not> grant i r k \<longleftrightarrow> k \<noteq> c" using True n(1) [of k] n(2) by auto
    ultimately show ?thesis
      using alone_nets(3) [OF assms(1) True] by (auto simp: ev_inv_def snoop_write_def snoop_next_def t)
  next
    case False
    then have "fsm_req_txn (sts ! c) (l1_pr i c) = BusTxn_None" by (simp add: needs_bus_def fsm_needs_bus_def cs)
    with False n(2) show ?thesis by (simp add: ev_inv_def snoop_write_def fsm_snoop_next_def)
  qed
qed

lemma alone_counts:
  assumes "alone i c" and "regs_look A v r" and "i_addr i c \<in> A" and "k < N_CORES"
  shows "shows_counts (r_perf (rtl_clock i r)) k (next_counts c (l1_pr i c) (w_states v (i_addr i c)) k (w_counts v k))"
proof -
  have "shows_counts (r_perf r) k (w_counts v k)" using assms(2,4) by (simp add: regs_look_def)
  then show ?thesis
    by (auto simp: shows_counts_def rtl_clock_def perf_clock_def Let_def count_if_def alone_events [OF assms]
        next_counts_def add_access_def add_inv_def ucast_inc)
qed

lemma alone_clock:
  assumes "alone i c" and "apart A" and "regs_look A v r" and "i_addr i c \<in> A"
  shows "regs_look A (view_op c (l1_pr i c) (i_addr i c) (i_wdata i c) v) (rtl_clock i r)"
proof -
  let ?v = "view_op c (l1_pr i c) (i_addr i c) (i_wdata i c) v"
  have st: "lk_state (r_l1 (rtl_clock i r) k) b = w_states ?v b ! k" if "b \<in> A" "k < N_CORES" for b k
    using alone_states [OF assms that] by (simp add: view_op_sel)
  have val: "w_val ?v = (if i_we i c then (w_val v)(i_addr i c := i_wdata i c) else w_val v)"
    using alone_pr [OF assms(1)] by (simp add: view_op_sel)
  have "holds_mem A (w_val v) r" using assms(3) by (simp add: regs_look_def)
  from holds_mem_clock [OF this alone_requests [OF assms(1,4)] assms(2)]
  have "holds_mem A (w_val ?v) (rtl_clock i r)" by (simp only: val alone_mem [OF assms(1)])
  moreover note alone_perf [OF assms(1,3,4)]
  moreover have "shows_counts (r_perf (rtl_clock i r)) k (w_counts ?v k)" if "k < N_CORES" for k
    using alone_counts [OF assms(1,3,4) that] by (simp add: view_op_sel)
  ultimately show ?thesis using st unfolding regs_look_def view_op_sel(3) by blast
qed

lemma regs_look_reset: "regs_look A view_new (rtl_reset r)"
  using holds_mem_reset [of A r]
  by (simp add: regs_look_def view_new_def no_traffic_def no_counts_def shows_counts_def rtl_reset_def perf_reset_def
      lk_state_def N_CORES_def)

section \<open>Behind the driver\<close>

text \<open>The ports between two operations: out of reset, no request, clock seen, counters up to date.\<close>

definition counters_shown :: "rtl_hidden Vmesi_tb_top \<Rightarrow> bool" where
  "counters_shown t \<longleftrightarrow> (let p = r_perf (h_regs (v_hidden t)) in
     v_bus_rd_count t = p_rd p \<and> v_bus_rdx_count t = p_rdx p \<and> v_bus_upgr_count t = p_upgr p \<and> v_bus_wb_count t = p_wb p
     \<and> v_l1_hit t = p_hit p \<and> v_l1_miss t = p_miss p \<and> v_inv_count t = p_inv p)"

definition ready :: "rtl_hidden Vmesi_tb_top \<Rightarrow> bool" where
  "ready t \<longleftrightarrow> v_rst_n t \<and> v_cpu_req t = 0 \<and> h_clk (v_hidden t) = v_clk t \<and> counters_shown t"

lemma counters_eval: "counters_shown (rtl_eval t)"
  by (simp add: counters_shown_def eval_outputs Let_def)

lemma registers_low: "v_rst_n t \<Longrightarrow> tb_registers (t\<lparr>v_clk := False\<rparr>) = (v_hidden t)\<lparr>h_clk := False, h_rst_n := True\<rparr>"
  by (simp add: tb_registers_def tb_edge_def)

lemma settle_rtl:
  assumes "v_rst_n t"
  shows "v_hidden (Driver_settle rtl_eval t) = (v_hidden t)\<lparr>h_clk := False, h_rst_n := True\<rparr>"
    "v_cpu_done (Driver_settle rtl_eval t) = pack_bits (cpu_done (tb_inputs t) (h_regs (v_hidden t)))"
    "v_cpu_rdata (Driver_settle rtl_eval t) = cpu_rdata (tb_inputs t) (h_regs (v_hidden t))"
  using assms by (simp_all add: Driver_settle_def eval_outputs registers_low tb_inputs_def)

lemma settle_ports [simp]:
  "v_clk (Driver_settle rtl_eval t) = False" "v_rst_n (Driver_settle rtl_eval t) = v_rst_n t"
  "v_cpu_req (Driver_settle rtl_eval t) = v_cpu_req t" "tb_inputs (Driver_settle rtl_eval t) = tb_inputs t"
  by (simp_all add: Driver_settle_def tb_inputs_def)

lemma turn_rtl:
  assumes "v_rst_n t"
  shows "h_regs (v_hidden (op_turn rtl_eval t)) = rtl_clock (tb_inputs t) (h_regs (v_hidden t))"
    "v_rst_n (op_turn rtl_eval t)" "v_cpu_req (op_turn rtl_eval t) = v_cpu_req t"
proof -
  have i: "tb_inputs (t'\<lparr>v_clk := b\<rparr>) = tb_inputs t'" for t' :: "rtl_hidden Vmesi_tb_top" and b by (simp add: tb_inputs_def)
  show "h_regs (v_hidden (op_turn rtl_eval t)) = rtl_clock (tb_inputs t) (h_regs (v_hidden t))"
    using assms by (simp add: op_turn_def tb_registers_def tb_edge_def Let_def settle_rtl i)
  show "v_rst_n (op_turn rtl_eval t)" "v_cpu_req (op_turn rtl_eval t) = v_cpu_req t"
    using assms by (simp_all add: op_turn_def)
qed

lemma release_rtl:
  assumes "v_rst_n t"
  shows "h_regs (v_hidden (op_release rtl_eval c t)) = h_regs (v_hidden t)"
    "v_cpu_req (op_release rtl_eval c t) = set_bit_of (v_cpu_req t) c False" "v_rst_n (op_release rtl_eval c t)"
    "\<not> v_clk (op_release rtl_eval c t)" "\<not> h_clk (v_hidden (op_release rtl_eval c t))" "counters_shown (op_release rtl_eval c t)"
  using assms by (simp_all add: op_release_def settle_rtl) (simp add: Driver_settle_def counters_eval)

text \<open>An operation on a quiet device: one cycle of the single request.\<close>

lemma request_inputs:
  assumes "v_cpu_req t = 0" and "c < N_CORES"
  shows "alone (tb_inputs (op_request c we a x t)) c" "i_we (tb_inputs (op_request c we a x t)) c = we"
    "i_addr (tb_inputs (op_request c we a x t)) c = a" "i_wdata (tb_inputs (op_request c we a x t)) c = x"
  using assms by (auto simp: alone_def tb_inputs_def op_request_def set_get_bit N_CORES_def)

lemma Driver_op_rtl:
  fixes t :: "rtl_hidden Vmesi_tb_top" and c :: nat and we :: bool and a x :: u32
  assumes "ready t" and "c < N_CORES"
  defines "i \<equiv> tb_inputs (op_request c we a x t)" and "r \<equiv> h_regs (v_hidden t)"
  shows "\<exists>t'. Driver_op rtl_eval c we a x t = Inr (cpu_rdata i r c, t') \<and> ready t' \<and> h_regs (v_hidden t') = rtl_clock i r"
proof -
  let ?t = "op_request c we a x t"
  have p: "v_rst_n ?t" "v_hidden ?t = v_hidden t" "v_cpu_req ?t = set_bit_of 0 c True" and q: "v_cpu_req t = 0"
    using assms(1) by (simp_all add: ready_def op_request_def)
  have d: "op_done rtl_eval c ?t"
    using alone_done [OF request_inputs(1) [OF q assms(2)]] assms(2) p
    by (simp add: op_done_def get_bit_of_iff settle_rtl bit_pack_bits)
  have "op_cycles rtl_eval c 1000 ?t = Inr (cpu_rdata i r c, op_turn rtl_eval ?t)"
    using op_cycles_returns [of rtl_eval c 0 ?t 1000] d p by (simp add: settle_rtl i_def r_def)
  moreover have "set_bit_of (set_bit_of 0 c True) c False = 0"
    using assms(2) by (intro bit_eqI) (simp add: set_get_bit N_CORES_def)
  ultimately show ?thesis using turn_rtl [OF p(1)] p release_rtl [of "op_turn rtl_eval ?t" c]
    by (simp add: Driver_op_eq ready_def i_def r_def)
qed

definition rtl_looks :: "u32 set \<Rightarrow> mesi_view \<Rightarrow> rtl_hidden Vmesi_tb_top \<Rightarrow> bool" where
  "rtl_looks A v t \<longleftrightarrow> ready t \<and> regs_look A v (h_regs (v_hidden t))"

lemma rtl_op:
  assumes "apart A" and "rtl_looks A v t" and "c < N_CORES" and "a \<in> A"
  shows "\<exists>rd t'. Driver_op rtl_eval c we a x t = Inr (rd, t')
    \<and> rtl_looks A (view_op c (if we then PrWr else PrRd) a x v) t' \<and> (\<not> we \<longrightarrow> rd = w_val v a)"
proof -
  let ?i = "tb_inputs (op_request c we a x t)"
  have q: "ready t" "v_cpu_req t = 0" "regs_look A v (h_regs (v_hidden t))"
    using assms(2) by (simp_all add: rtl_looks_def ready_def)
  note i = request_inputs [OF q(2) assms(3), of we a x]
  from Driver_op_rtl [OF q(1) assms(3), of we a x] alone_clock [OF i(1) assms(1) q(3)] alone_read [OF i(1) q(3)]
  show ?thesis using i assms(4) alone_pr [OF i(1)] by (auto simp: rtl_looks_def)
qed

lemma rtl_read:
  assumes "apart A" and "rtl_looks A v t" and "c < N_CORES" and "a \<in> A"
  shows "\<exists>t'. Driver_read rtl_eval c a t = Inr (w_val v a, t') \<and> rtl_looks A (view_op c PrRd a 0 v) t'"
  using rtl_op [OF assms, of False 0] by (auto simp: Driver_read_def)

lemma rtl_write:
  assumes "apart A" and "rtl_looks A v t" and "c < N_CORES" and "a \<in> A"
  shows "\<exists>t'. Driver_write rtl_eval c a x t = Inr t' \<and> rtl_looks A (view_op c PrWr a x v) t'"
  using rtl_op [OF assms, of True x] by (auto simp: Driver_write_def)

interpretation rtl: mesi_device rtl_looks "Driver_read rtl_eval" "Driver_write rtl_eval"
  by unfold_locales (rule rtl_read rtl_write; assumption)+

section \<open>Reset and the debug port\<close>

lemma idle_clock:
  assumes "\<And>k. \<not> i_req i k"
  shows "rtl_clock i r = r"
proof -
  have w: "bus_winner i r = None" using bus_winner_valid(2) [of i r] assms by (cases "bus_winner i r") auto
  then have n: "\<not> grant i r k" "\<not> snoop_write i r k" "\<not> cpu_done i r k" "l1_write i r k = None" "\<not> cpu_stall i r k" for k
    using assms by (simp_all add: grant_def snoop_write_def bus_active_def cpu_done_def local_read_done_def
        local_write_done_def l1_write_def cpu_stall_def)
  have "perf_clock i r = r_perf r"
    using w n by (simp add: perf_clock_def Let_def bus_active_def count_if_def mem_wr_en_def ev_hit_def ev_miss_def ev_inv_def)
  with w n show ?thesis by (simp add: rtl_clock_def array_write_def mem_wr_en_def bus_active_def)
qed

lemma tick_ports [simp]:
  "v_clk (Driver_tick rtl_eval t)" "v_rst_n (Driver_tick rtl_eval t) = v_rst_n t"
  "v_cpu_req (Driver_tick rtl_eval t) = v_cpu_req t" "v_sb (Driver_tick rtl_eval t) = v_sb t"
  "v_stub_enable (Driver_tick rtl_eval t) = v_stub_enable t" "v_stub_done (Driver_tick rtl_eval t) = v_stub_done t"
  "v_stub_base (Driver_tick rtl_eval t) = v_stub_base t"
  "h_clk (v_hidden (Driver_tick rtl_eval t))" "counters_shown (Driver_tick rtl_eval t)"
  by (simp_all add: Driver_tick_def Let_def counters_eval) (simp add: tb_registers_def Let_def)

lemma tick_reset:
  assumes "\<not> v_rst_n t"
  shows "\<exists>r. h_regs (v_hidden (Driver_tick rtl_eval t)) = rtl_reset r" "\<exists>q. h_sb (v_hidden (Driver_tick rtl_eval t)) = sb_reset q"
    "h_step (v_hidden (Driver_tick rtl_eval t)) = 0"
  using assms by (auto simp: Driver_tick_def Let_def tb_registers_def tb_edge_def)

lemma tick_run:
  assumes "v_rst_n t"
  shows "h_regs (v_hidden (Driver_tick rtl_eval t)) = rtl_clock (tb_inputs t) (h_regs (v_hidden t))"
    "h_sb (v_hidden (Driver_tick rtl_eval t)) = sb_clock (v_sb t) (h_sb (v_hidden t))"
    "h_step (v_hidden (Driver_tick rtl_eval t)) = stub_clock (v_stub_enable t) (v_stub_done t) (h_step (v_hidden t))"
proof -
  have i: "tb_inputs (rtl_eval (t\<lparr>v_clk := False\<rparr>)\<lparr>v_clk := True\<rparr>) = tb_inputs t" by (simp add: tb_inputs_def)
  show "h_regs (v_hidden (Driver_tick rtl_eval t)) = rtl_clock (tb_inputs t) (h_regs (v_hidden t))"
    "h_sb (v_hidden (Driver_tick rtl_eval t)) = sb_clock (v_sb t) (h_sb (v_hidden t))"
    "h_step (v_hidden (Driver_tick rtl_eval t)) = stub_clock (v_stub_enable t) (v_stub_done t) (h_step (v_hidden t))"
    using assms i by (simp_all add: Driver_tick_def Let_def tb_registers_def tb_edge_def)
qed

lemma idle_inputs: "v_cpu_req t = 0 \<Longrightarrow> \<not> i_req (tb_inputs t) k"
  by (simp add: tb_inputs_def)

lemma sb_idle: "\<not> st_valid i \<Longrightarrow> \<not> drain_ready i \<Longrightarrow> sb_clock i r = r"
  by (cases r) (simp add: sb_clock_def do_push_def do_pop_def)

lemma Driver_reset_rtl:
  shows "ready (Driver_reset rtl_eval t)" "\<exists>r. h_regs (v_hidden (Driver_reset rtl_eval t)) = rtl_reset r"
    "\<exists>q. h_sb (v_hidden (Driver_reset rtl_eval t)) = sb_reset q"
    "h_step (v_hidden (Driver_reset rtl_eval t)) = 0"
    "v_sb (Driver_reset rtl_eval t) = \<lparr>st_valid = False, st_addr = 0, st_data = 0, drain_ready = False, bypass_addr = 0, fence_req = False\<rparr>"
    "\<not> v_stub_enable (Driver_reset rtl_eval t)"
proof -
  let ?t = "t\<lparr>v_rst_n := False, v_cpu_req := 0, v_cpu_we := 0, v_dbg_addr := 0,
            v_fsm_cur_state := 0, v_fsm_pr_req := 0, v_fsm_shared_in := False, v_fsm_snoop_txn := 0,
            v_sb := \<lparr>st_valid = False, st_addr = 0, st_data = 0, drain_ready = False, bypass_addr = 0, fence_req = False\<rparr>,
            v_stub_enable := False, v_stub_base := 0, v_stub_done := False\<rparr>"
  define u where "u = fold (\<lambda>_. Driver_tick rtl_eval) [0..<5] ?t"
  have u: "\<not> v_rst_n u" "v_cpu_req u = 0" "\<not> v_stub_enable u"
    "v_sb u = \<lparr>st_valid = False, st_addr = 0, st_data = 0, drain_ready = False, bypass_addr = 0, fence_req = False\<rparr>"
    by (simp_all add: u_def upt_rec)
  have e: "Driver_reset rtl_eval t = Driver_tick rtl_eval ((Driver_tick rtl_eval u)\<lparr>v_rst_n := True\<rparr>)"
    by (simp add: Driver_reset_def u_def upt_rec Let_def)
  note r = tick_reset [OF u(1)] and q = tick_run [of "(Driver_tick rtl_eval u)\<lparr>v_rst_n := True\<rparr>"]
  show "ready (Driver_reset rtl_eval t)" using u by (simp add: e ready_def)
  show "\<exists>r. h_regs (v_hidden (Driver_reset rtl_eval t)) = rtl_reset r"
    using r(1) q(1) idle_clock [OF idle_inputs, of "(Driver_tick rtl_eval u)\<lparr>v_rst_n := True\<rparr>"] u(2) by (simp add: e)
  show "\<exists>q. h_sb (v_hidden (Driver_reset rtl_eval t)) = sb_reset q"
    using r(2) q(2) u(4) by (simp add: e sb_idle)
  show "h_step (v_hidden (Driver_reset rtl_eval t)) = 0" using r(3) q(3) u(3) by (simp add: e stub_clock_def)
  show "v_sb (Driver_reset rtl_eval t) = \<lparr>st_valid = False, st_addr = 0, st_data = 0, drain_ready = False, bypass_addr = 0, fence_req = False\<rparr>"
    "\<not> v_stub_enable (Driver_reset rtl_eval t)" using u by (simp_all add: e)
qed

lemma rtl_looks_reset: "rtl_looks A view_new (Driver_reset rtl_eval t)"
  using Driver_reset_rtl(1,2) [of t] regs_look_reset by (auto simp: rtl_looks_def)

lemma rtl_state:
  assumes "rtl_looks A v t" and "c < N_CORES" and "a \<in> A"
  shows "\<exists>t'. Driver_state rtl_eval c a t = (State_val (w_states v a ! c), t') \<and> rtl_looks A v t'"
proof -
  let ?t = "t\<lparr>v_dbg_addr := a\<rparr>"
  have t: "v_rst_n t" "h_clk (v_hidden t) = v_clk t" "v_cpu_req t = 0" using assms(1) by (simp_all add: rtl_looks_def ready_def)
  then have h: "tb_registers ?t = (v_hidden t)\<lparr>h_clk := v_clk t, h_rst_n := True\<rparr>"
    by (simp add: tb_registers_def tb_edge_def)
  have "ready (rtl_eval ?t)" using t by (simp add: ready_def counters_eval h)
  with assms(1) regs_lookD(1) [of A v "h_regs (v_hidden t)" a c] assms(2,3) show ?thesis
    by (auto simp: Driver_state_def Let_def eval_outputs h unpack_state rtl_looks_def)
qed

lemma rtl_counters:
  assumes "rtl_looks A v t"
  shows "v_bus_rd_count t = ucast (t_rd (w_traffic v))" "v_bus_rdx_count t = ucast (t_rdx (w_traffic v))"
    "v_bus_upgr_count t = ucast (t_upgr (w_traffic v))" "v_bus_wb_count t = ucast (t_wb (w_traffic v))"
  using assms by (simp_all add: rtl_looks_def ready_def counters_shown_def regs_look_def Let_def)

lemma rtl_core_counters:
  assumes "rtl_looks A v t" and "k < N_CORES"
  shows "v_l1_hit t k = ucast (n_hit (w_counts v k))" "v_l1_miss t k = ucast (n_miss (w_counts v k))"
    "v_inv_count t k = ucast (n_inv (w_counts v k))"
  using assms by (simp_all add: rtl_looks_def ready_def counters_shown_def regs_look_def shows_counts_def Let_def)

section \<open>The model and the hardware agree\<close>

lemma model_and_rtl:
  assumes "apart A" and "list_all (op_within A) ops" and "MesiSystem_new (int N_CORES) = Inr s"
  shows "\<exists>out s' t'. run_ops (\<lambda>c. MesiSystem_read (int c)) (\<lambda>c. MesiSystem_write (int c)) ops s = Inr (out, s')
    \<and> run_ops (Driver_read rtl_eval) (Driver_write rtl_eval) ops (Driver_reset rtl_eval t) = Inr (out, t')
    \<and> (\<forall>a \<in> A. \<forall>k < N_CORES. fst (Driver_state rtl_eval k a t') = State_val (sys_state s' k (line_of a)))
    \<and> Driver_bus_rd t' = ucast (t_rd (sys_traffic s')) \<and> Driver_bus_rdx t' = ucast (t_rdx (sys_traffic s'))
    \<and> Driver_bus_upgr t' = ucast (t_upgr (sys_traffic s')) \<and> Driver_bus_wb t' = ucast (t_wb (sys_traffic s'))
    \<and> (\<forall>k < N_CORES. Driver_l1_hit k t' = ucast (n_hit (sys_counts s' k)) \<and> Driver_l1_miss k t' = ucast (n_miss (sys_counts s' k))
        \<and> Driver_inv_count k t' = ucast (n_inv (sys_counts s' k)))"
proof -
  let ?v = "snd (view_run ops view_new)"
  obtain s' where s': "run_ops (\<lambda>c. MesiSystem_read (int c)) (\<lambda>c. MesiSystem_write (int c)) ops s = Inr (fst (view_run ops view_new), s')"
    "model_looks A ?v s'" using model.run_law [OF assms(1) model_looks_new [OF assms(3)] assms(2)] by blast
  obtain t' where t': "run_ops (Driver_read rtl_eval) (Driver_write rtl_eval) ops (Driver_reset rtl_eval t) = Inr (fst (view_run ops view_new), t')"
    "rtl_looks A ?v t'" using rtl.run_law [OF assms(1) rtl_looks_reset assms(2)] by blast
  have "fst (Driver_state rtl_eval k a t') = State_val (sys_state s' k (line_of a))" if "a \<in> A" "k < N_CORES" for a k
    using rtl_state [OF t'(2) that(2,1)] s'(2) that by (auto simp: model_looks_def)
  moreover have "sys_traffic s' = w_traffic ?v" "\<And>k. k < N_CORES \<Longrightarrow> sys_counts s' k = w_counts ?v k"
    using s'(2) by (simp_all add: model_looks_def)
  ultimately show ?thesis using s'(1) t'(1) rtl_counters [OF t'(2)] rtl_core_counters [OF t'(2)]
    by (simp add: driver_counters Driver_l1_hit_def Driver_l1_miss_def Driver_inv_count_def)
qed

end
