(* ===== verification/Rtl_Liveness.thy ===== *)
theory Rtl_Liveness
  imports Rtl_Agreement
begin

text \<open>
  No request of a core waits for ever, whatever the other cores request. A core that needs the bus gets it
  after at most three transactions of others, because the priority pointer of the arbiter only moves towards
  it. A write to an owned line needs no bus but the write port of the array, which a snoop may take; every
  snoop that takes it lowers the state of a line of this cache, and that can happen at most \<open>3 * 64\<close> times.
  So the 1000 cycles the driver waits are enough.
\<close>

section \<open>The arbiter serves in turn\<close>

lemma arb_winner_find:
  "arb_winner rv ptr = map_option (\<lambda>j. unat (ptr + of_nat j)) (find (\<lambda>j. rv (unat (ptr + of_nat j))) [0..<N_CORES])"
proof -
  have step: "arb_step rv ptr k (Some w) = Some w"
    "arb_step rv ptr k None = (if rv (unat (ptr + of_nat k)) then Some (unat (ptr + of_nat k)) else None)" for k w
    by (simp_all add: arb_step_def Let_def)
  have some: "fold (arb_step rv ptr) ks (Some w) = Some w" for ks w
    by (induction ks) (simp_all add: step)
  have "fold (arb_step rv ptr) ks None = map_option (\<lambda>j. unat (ptr + of_nat j)) (find (\<lambda>j. rv (unat (ptr + of_nat j))) ks)" for ks
    by (induction ks) (simp_all add: step some)
  then show ?thesis by (simp add: arb_winner_def)
qed

text \<open>How far core \<open>k\<close> is from the front.\<close>

definition turn_distance :: "2 word \<Rightarrow> nat \<Rightarrow> nat" where
  "turn_distance ptr k = unat (of_nat k - ptr)"

lemma turn_distance_bound: "turn_distance ptr k < N_CORES"
  by (simp add: turn_distance_def core_of_pointer)

lemma arb_turn:
  assumes "rv k" and "k < N_CORES" and "arb_winner rv ptr = Some w" and "w \<noteq> k"
  shows "turn_distance (of_nat w + 1) k < turn_distance ptr k"
proof -
  let ?d = "of_nat k - ptr :: 2 word"
  obtain j where j: "j < N_CORES" "w = unat (ptr + of_nat j)" "\<And>i. i < j \<Longrightarrow> \<not> rv (unat (ptr + of_nat i))"
    using assms(3) by (auto simp: arb_winner_find find_Some_iff)
  have d: "unat (ptr + of_nat (unat ?d)) = k" using assms(2) by (simp add: unat_of_nat take_bit_nat_eq_self N_CORES_def)
  have "j \<le> unat ?d" using j(3) [of "unat ?d"] d assms(1) by (metis not_le)
  moreover have "j \<noteq> unat ?d" using d j(2) assms(4) by auto
  ultimately have lt: "j < unat ?d" by simp
  have "of_nat w = ptr + of_nat j" by (simp add: j(2))
  then have e: "of_nat k - (of_nat w + 1) = ?d - (of_nat j + 1)" by simp
  have j1: "unat (of_nat j + 1 :: 2 word) = Suc j"
  proof -
    have "Suc j < 4" using lt turn_distance_bound [of ptr k] by (simp add: turn_distance_def N_CORES_def)
    then show ?thesis using unat_of_nat [of "Suc j", where ?'a = 2] by (simp add: take_bit_nat_eq_self add.commute)
  qed
  have "unat (?d - (of_nat j + 1)) = unat ?d - Suc j"
    using lt j1 by (subst unat_sub) (simp_all add: word_le_nat_alt)
  with lt show ?thesis unfolding turn_distance_def e by simp
qed

section \<open>Snoops lower the states\<close>

definition state_rank :: "State \<Rightarrow> nat" where
  "state_rank st = unat (State_val st)"

definition array_rank :: "cache_array \<Rightarrow> nat" where
  "array_rank c = (\<Sum>x \<in> UNIV. state_rank (state_arr c x))"

lemma state_rank_le: "state_rank st \<le> 3"
  by (cases st) (simp_all add: state_rank_def)

lemma array_rank_le: "array_rank c \<le> 192"
proof -
  have "array_rank c \<le> (\<Sum>x \<in> (UNIV :: 6 word set). 3)" unfolding array_rank_def by (rule sum_mono) (rule state_rank_le)
  also have "\<dots> = 192" by (simp add: card_word)
  finally show ?thesis .
qed

lemma snoop_lowers: "fsm_snoop_next st txn \<noteq> st \<Longrightarrow> state_rank (fsm_snoop_next st txn) < state_rank st"
  by (cases st; cases txn) (simp_all add: fsm_snoop_next_def state_rank_def)

lemma snoop_write_rank:
  assumes "snoop_write i r k" and "\<not> grant i r k"
  shows "array_rank (r_l1 (rtl_clock i r) k) < array_rank (r_l1 r k)"
proof -
  let ?c = "r_l1 r k" and ?x = "addr_index (bus_addr i r)"
  have s: "snp_state i r k = state_arr ?c ?x"
    using snoop_write_held [OF assms(1)] by (auto simp: snp_state_def lk_state_def split: if_splits)
  have low: "state_rank (snoop_next i r k) < state_rank (state_arr ?c ?x)"
    using assms(1) snoop_lowers unfolding snoop_write_def snoop_next_def s [symmetric] by blast
  have c: "state_arr (r_l1 (rtl_clock i r) k) = (state_arr ?c)(?x := snoop_next i r k)"
    using assms by (simp add: rtl_clock_def l1_write_def array_write_def)
  show ?thesis unfolding array_rank_def c
    by (rule sum_strict_mono_ex1) (use low in auto)
qed

section \<open>A held request is served\<close>

fun rtl_run :: "(nat \<Rightarrow> rtl_inputs) \<Rightarrow> rtl_regs \<Rightarrow> nat \<Rightarrow> rtl_regs" where
  "rtl_run f r 0 = r"
| "rtl_run f r (Suc n) = rtl_clock (f n) (rtl_run f r n)"

definition served :: "(nat \<Rightarrow> rtl_inputs) \<Rightarrow> rtl_regs \<Rightarrow> nat \<Rightarrow> nat \<Rightarrow> bool" where
  "served f r k n \<longleftrightarrow> cpu_done (f n) (rtl_run f r n) k"

text \<open>The core keeps its request, address and direction until it is served.\<close>

definition held :: "(nat \<Rightarrow> rtl_inputs) \<Rightarrow> rtl_regs \<Rightarrow> nat \<Rightarrow> bool \<Rightarrow> u32 \<Rightarrow> bool" where
  "held f r k we a \<longleftrightarrow> (\<forall>n. (\<forall>m < n. \<not> served f r k m) \<longrightarrow> i_req (f n) k \<and> i_we (f n) k = we \<and> i_addr (f n) k = a)"

text \<open>An upper bound of the cycles still to wait.\<close>

definition wait_bound :: "rtl_inputs \<Rightarrow> rtl_regs \<Rightarrow> nat \<Rightarrow> nat" where
  "wait_bound i r k = (if needs_bus i r k then turn_distance (r_ptr r) k else N_CORES + array_rank (r_l1 r k))"

lemma wait_bound_le: "wait_bound i r k \<le> 196"
  using array_rank_le [of "r_l1 r k"] turn_distance_bound [of "r_ptr r" k]
  by (simp add: wait_bound_def N_CORES_def)

lemma waiting_needs_bus:
  assumes "needs_bus i r k" and "\<not> cpu_done i r k" and "i_req j k" and "i_we j k = i_we i k" and "i_addr j k = i_addr i k"
    and "i_req i k"
  shows "needs_bus j (rtl_clock i r) k"
proof -
  have g: "\<not> grant i r k" "\<not> local_write_done i r k" using assms(1,2) by (simp_all add: cpu_done_def local_write_done_def)
  have pr: "l1_pr j k = l1_pr i k" using assms(3-) by (simp add: l1_pr_def)
  have "cpu_state j (rtl_clock i r) k = cpu_state i r k
      \<or> (\<exists>txn. cpu_state j (rtl_clock i r) k = fsm_snoop_next (cpu_state i r k) txn)"
    using g lk_state_line [of "i_addr i k" "bus_addr i r" "r_l1 r k"]
    by (auto simp: cpu_state_def assms(5) clock_state snoop_next_def snp_state_def)
  moreover have "fsm_snoop_next State_I txn = State_I" "fsm_snoop_next State_S txn = State_I \<or> fsm_snoop_next State_S txn = State_S" for txn
    by (cases txn; simp add: fsm_snoop_next_def)+
  ultimately have "cpu_state i r k = State_I \<Longrightarrow> cpu_state j (rtl_clock i r) k = State_I"
    "cpu_state i r k = State_S \<Longrightarrow> cpu_state j (rtl_clock i r) k = State_I \<or> cpu_state j (rtl_clock i r) k = State_S" by metis+
  with needs_bus_cases [OF assms(1)] pr show ?thesis
    by (auto simp: needs_bus_def fsm_needs_bus_def fsm_req_txn_def)
qed

lemma wait_decreases:
  assumes "k < N_CORES" and "i_req i k" and "\<not> cpu_done i r k"
    and "i_req j k" and "i_we j k = i_we i k" and "i_addr j k = i_addr i k"
  shows "wait_bound j (rtl_clock i r) k < wait_bound i r k"
proof (cases "needs_bus i r k")
  case True
  then have v: "req_valid i r k" using assms(2) by (simp add: req_valid_def)
  then obtain w where w: "bus_winner i r = Some w" using arb_winner_some [of "req_valid i r" k "r_ptr r"] assms(1) by (auto simp: bus_winner_def)
  have "w \<noteq> k" using w assms(3) by (auto simp: cpu_done_def grant_def)
  from arb_turn [of "req_valid i r", OF v assms(1) _ this] w have "turn_distance (r_ptr (rtl_clock i r)) k < turn_distance (r_ptr r) k"
    by (simp add: bus_winner_def rtl_clock_def)
  with True waiting_needs_bus [OF True assms(3-6,2)] show ?thesis by (simp add: wait_bound_def)
next
  case False
  then have "snoop_write i r k" "\<not> grant i r k"
    using assms(2,3) by (auto simp: cpu_done_def local_read_done_def local_write_done_def)
  from snoop_write_rank [OF this] False turn_distance_bound [of "r_ptr (rtl_clock i r)" k] show ?thesis
    by (auto simp: wait_bound_def)
qed

lemma held_served:
  assumes "k < N_CORES" and "held f r k we a"
  shows "\<exists>n \<le> wait_bound (f 0) r k. served f r k n"
proof (rule ccontr)
  let ?b = "\<lambda>n. wait_bound (f n) (rtl_run f r n) k"
  assume no: "\<not> (\<exists>n \<le> wait_bound (f 0) r k. served f r k n)"
  have h: "i_req (f n) k \<and> i_we (f n) k = we \<and> i_addr (f n) k = a" if "n \<le> Suc (wait_bound (f 0) r k)" for n
    using assms(2) no that unfolding held_def by (meson less_Suc_eq_le order_less_le_trans)
  have "n + ?b n \<le> wait_bound (f 0) r k" if "n \<le> Suc (wait_bound (f 0) r k)" for n
    using that
  proof (induction n)
    case (Suc n)
    then have "\<not> cpu_done (f n) (rtl_run f r n) k" using no by (auto simp: served_def)
    from wait_decreases [OF assms(1) _ this, of "f (Suc n)"] h [of n] h [of "Suc n"] Suc.prems
    have "?b (Suc n) < ?b n" by simp
    with Suc show ?case by simp
  qed simp
  from this [of "Suc (wait_bound (f 0) r k)"] show False by simp
qed

text \<open>The bus itself is granted within four cycles.\<close>

lemma held_granted:
  assumes "k < N_CORES" and "held f r k we a" and "needs_bus (f 0) r k"
  shows "\<exists>n < N_CORES. served f r k n"
  using held_served [OF assms(1,2)] le_less_trans [OF _ turn_distance_bound] assms(3)
  by (auto simp: wait_bound_def)

section \<open>The driver never gives up\<close>

lemma turns_rtl:
  assumes "v_rst_n t"
  shows "h_regs (v_hidden ((op_turn rtl_eval ^^ n) t)) = rtl_run (\<lambda>_. tb_inputs t) (h_regs (v_hidden t)) n
    \<and> v_rst_n ((op_turn rtl_eval ^^ n) t) \<and> tb_inputs ((op_turn rtl_eval ^^ n) t) = tb_inputs t"
proof (induction n)
  case (Suc n)
  have "tb_inputs (op_turn rtl_eval t') = tb_inputs t'" for t'
    by (simp add: op_turn_def Driver_settle_def tb_inputs_def)
  with Suc turn_rtl [of "(op_turn rtl_eval ^^ n) t"] show ?case by simp
qed (use assms in simp)

lemma Driver_op_completes:
  assumes "v_rst_n t" and "c < N_CORES"
  shows "\<exists>rd t'. Driver_op rtl_eval c we a x t = Inr (rd, t')"
proof -
  let ?t = "op_request c we a x t"
  let ?f = "\<lambda>_ :: nat. tb_inputs ?t" and ?r = "h_regs (v_hidden ?t)"
  have p: "v_rst_n ?t" using assms(1) by (simp add: op_request_def)
  have "held ?f ?r c (i_we (tb_inputs ?t) c) (i_addr (tb_inputs ?t) c)"
    using assms(2) by (simp add: held_def tb_inputs_def op_request_def set_get_bit N_CORES_def)
  from held_served [OF assms(2) this] obtain n where "served ?f ?r c n" "n \<le> 196"
    using wait_bound_le order_trans by blast
  then have "op_done rtl_eval c ((op_turn rtl_eval ^^ n) ?t)" "n < 1000"
    using turns_rtl [OF p, of n] assms(2) by (simp_all add: op_done_def get_bit_of_iff settle_rtl bit_pack_bits served_def)
  then have "find (\<lambda>j. op_done rtl_eval c ((op_turn rtl_eval ^^ j) ?t)) [0..<1000] \<noteq> None"
    by (auto simp: find_None_iff)
  then show ?thesis by (auto simp: Driver_op_find Let_def)
qed

end
