(* ===== verification/Rtl_Consistency.thy ===== *)
theory Rtl_Consistency
  imports Rtl_Liveness Sc_Checker
begin

text \<open>
  Runs of the hardware with simultaneous requests are sequentially consistent. The operations that complete in a
  cycle are put in an order, the reads before the writes; replaying this order cycle by cycle on one flat
  memory gives every read its value, and the search of \<^verbatim>\<open>model/sc_checker.cpp\<close> accepts it as a trace.
\<close>

section \<open>The operations of a cycle\<close>

definition cycle_event :: "nat \<Rightarrow> rtl_inputs \<Rightarrow> rtl_regs \<Rightarrow> nat \<Rightarrow> TraceEvent" where
  "cycle_event n i r k = \<lparr>core_id = int k, ev_op = (if i_we i k then OpWrite else OpRead), ev_addr = i_addr i k,
     ev_value = (if i_we i k then i_wdata i k else cpu_rdata i r k), timestamp = of_nat n, program_idx = of_nat n\<rparr>"

definition cycle_cores :: "rtl_inputs \<Rightarrow> rtl_regs \<Rightarrow> nat list" where
  "cycle_cores i r = filter (reads_now i r) [0..<N_CORES] @ filter (writes_now i r) [0..<N_CORES]"

definition cycle_trace :: "nat \<Rightarrow> rtl_inputs \<Rightarrow> rtl_regs \<Rightarrow> Trace" where
  "cycle_trace n i r = map (cycle_event n i r) (cycle_cores i r)"

text \<open>All operations of the first \<open>n\<close> cycles, in the order of the cycles.\<close>

fun rtl_trace :: "(nat \<Rightarrow> rtl_inputs) \<Rightarrow> rtl_regs \<Rightarrow> nat \<Rightarrow> Trace" where
  "rtl_trace f r 0 = []"
| "rtl_trace f r (Suc n) = rtl_trace f r n @ cycle_trace n (f n) (rtl_run f r n)"

section \<open>A run is a sequence of operations on a flat memory\<close>

lemma replay_reads:
  "(\<And>e. e \<in> set es \<Longrightarrow> ev_op e = OpRead \<and> m (ev_addr e) = ev_value e) \<Longrightarrow> replay m es = Some m"
  by (induction es) auto

lemma replay_writes: "(\<And>k. k \<in> set ks \<Longrightarrow> i_we i k) \<Longrightarrow> replay m (map (cycle_event n i r) ks) = Some (after_writes i ks m)"
  by (induction ks arbitrary: m) (auto simp: cycle_event_def after_writes_def)

lemma replay_cycle:
  assumes "holds_mem A m r" and "requests_in A i"
  shows "replay m (cycle_trace n i r) = Some (cycle_mem i r m)"
proof -
  have "replay m (map (cycle_event n i r) (filter (reads_now i r) [0..<N_CORES])) = Some m"
    by (rule replay_reads) (auto simp: cycle_event_def reads_now_def intro!: reader_value [OF assms, symmetric])
  moreover have "replay m (map (cycle_event n i r) (filter (writes_now i r) [0..<N_CORES])) = Some (cycle_mem i r m)"
    by (rule replay_writes) (auto simp: writes_now_def)
  ultimately show ?thesis by (simp add: cycle_trace_def cycle_cores_def replay_append)
qed

lemma rtl_trace_replay:
  assumes "apart A" and "\<And>n. requests_in A (f n)"
  shows "\<exists>m. replay zeroed (rtl_trace f (rtl_reset r) n) = Some m \<and> holds_mem A m (rtl_run f (rtl_reset r) n)"
proof (induction n)
  case 0
  show ?case by (simp add: holds_mem_reset)
next
  case (Suc n)
  then obtain m where "replay zeroed (rtl_trace f (rtl_reset r) n) = Some m" "holds_mem A m (rtl_run f (rtl_reset r) n)" by blast
  with replay_cycle [OF _ assms(2), of m "rtl_run f (rtl_reset r) n" n n] holds_mem_clock [OF _ assms(2,1)] show ?case
    by (simp add: replay_append)
qed

text \<open>The order keeps the program order of every core: a core completes at most one operation per cycle.\<close>

lemma cycle_trace_idx: "e \<in> set (cycle_trace n i r) \<Longrightarrow> program_idx e = of_nat n \<and> 0 \<le> core_id e \<and> core_id e < int N_CORES"
  by (auto simp: cycle_trace_def cycle_event_def cycle_cores_def)

lemma cycle_trace_core: "length (filter (\<lambda>e. core_id e = c) (cycle_trace n i r)) \<le> 1"
proof -
  have "distinct (cycle_cores i r)" by (auto simp: cycle_cores_def reads_now_def writes_now_def)
  then have "length (filter (\<lambda>k. int k = c) (cycle_cores i r)) = card {k \<in> set (cycle_cores i r). int k = c}"
    by (simp flip: set_filter distinct_card)
  also have "\<dots> \<le> card {nat c}" by (rule card_mono) auto
  finally show ?thesis by (simp add: cycle_trace_def filter_map comp_def cycle_event_def)
qed

lemma rtl_trace_idx: "e \<in> set (rtl_trace f r n) \<Longrightarrow> \<exists>j < n. program_idx e = of_nat j \<and> 0 \<le> core_id e \<and> core_id e < int N_CORES"
  by (induction n) (use cycle_trace_idx less_SucI in \<open>fastforce+\<close>)

lemma sorted_wrt_short: "length xs \<le> 1 \<Longrightarrow> sorted_wrt R xs"
  by (cases xs) auto

lemma rtl_trace_numbered:
  assumes "n \<le> 2 ^ 64"
  shows "sorted_wrt (<) (map program_idx (filter (\<lambda>e. core_id e = c) (rtl_trace f r n)))"
  using assms
proof (induction n)
  case (Suc n)
  have "program_idx e < of_nat n" if e: "e \<in> set (rtl_trace f r n)" for e
  proof -
    obtain j where "j < n" "program_idx e = of_nat j" using rtl_trace_idx [OF e] by blast
    with Suc.prems show ?thesis by (simp add: word_less_nat_alt unat_of_nat take_bit_nat_eq_self)
  qed
  with Suc cycle_trace_core [of c n "f n" "rtl_run f r n"] cycle_trace_idx [of _ n "f n" "rtl_run f r n"] show ?case
    by (auto simp: sorted_wrt_append sorted_wrt_short)
qed simp

lemma rtl_trace_accepted:
  assumes "sort_ok srt" and "apart A" and "\<And>n. requests_in A (f n)" and "n \<le> 2 ^ 64"
  shows "exists_sc_order srt (rtl_trace f (rtl_reset r) n) = Some True"
proof -
  let ?t = "rtl_trace f (rtl_reset r) n"
  have "numbered ?t" using rtl_trace_numbered [OF assms(4)] by (simp add: numbered_def)
  moreover have "replay zeroed ?t \<noteq> None" using rtl_trace_replay [where f = f, OF assms(2,3)] by force
  ultimately have "sc_order srt ?t ?t" by (intro serial_order_sc_order assms(1))
  moreover have "\<forall>e \<in> set ?t. 0 \<le> core_id e \<and> core_id e < 2 ^ 31 - 1" using rtl_trace_idx by (fastforce simp: N_CORES_def)
  ultimately show ?thesis using exists_sc_order_correct [OF assms(1)] by auto
qed

end
