(* ===== verification/Rtl_Testbench.thy ===== *)
theory Rtl_Testbench
  imports Rtl_Agreement
begin

text \<open>
  The testbench \<^verbatim>\<open>sim/tb_top.cpp\<close>: its checks, its four groups of tests and its \<^verbatim>\<open>main\<close>, for any device \<open>ev\<close> behind the
  generated class. On the hardware of \<^verbatim>\<open>sim/mesi_tb_top.sv\<close>, whatever its registers hold at power-up, it makes 59
  checks, none fails, and it prints and returns what a passing run does. The state is the two counters of
  the file, the text printed so far, and the ports. \<^verbatim>\<open>Verilated::commandArgs\<close>, \<^verbatim>\<open>final\<close> and \<^verbatim>\<open>delete\<close> do not touch them.
\<close>

section \<open>Checks\<close>

record 'h tb_state =
  g_fail :: int
  g_checks :: int
  tb_out :: string
  tb_ports :: "'h Vmesi_tb_top"

definition tb_printf :: "string \<Rightarrow> 'h tb_state \<Rightarrow> 'h tb_state" where
  "tb_printf m s = s\<lparr>tb_out := tb_out s @ m\<rparr>"

definition tb_check :: "bool \<Rightarrow> string \<Rightarrow> 'h tb_state \<Rightarrow> 'h tb_state" where
  "tb_check c msg s =
     (let s = s\<lparr>g_checks := g_checks s + 1\<rparr>
      in if \<not> c then (tb_printf (''  [FAIL] '' @ msg @ newline) s)\<lparr>g_fail := 1\<rparr> else s)"

definition sname :: "int \<Rightarrow> string" where
  "sname s = (if s = 0 then ''I'' else if s = 1 then ''S'' else if s = 2 then ''E'' else if s = 3 then ''M'' else ''?'')"

text \<open>A statement on the ports, a check of the ports, and statements in turn.\<close>

definition on_ports :: "('h Vmesi_tb_top \<Rightarrow> 'h Vmesi_tb_top) \<Rightarrow> 'h tb_state \<Rightarrow> 'h tb_state" where
  "on_ports f s = s\<lparr>tb_ports := f (tb_ports s)\<rparr>"

definition check_ports :: "('h Vmesi_tb_top \<Rightarrow> bool) \<Rightarrow> string \<Rightarrow> 'h tb_state \<Rightarrow> 'h tb_state" where
  "check_ports c msg s = tb_check (c (tb_ports s)) msg s"

definition in_turn :: "('s \<Rightarrow> 's) list \<Rightarrow> 's \<Rightarrow> 's" where
  "in_turn fs s = fold (\<lambda>f s. f s) fs s"

section \<open>The unit tests\<close>

definition fsm_set ::
    "('h Vmesi_tb_top \<Rightarrow> 'h Vmesi_tb_top) \<Rightarrow> u8 \<Rightarrow> u8 \<Rightarrow> bool \<Rightarrow> u8 \<Rightarrow> 'h tb_state \<Rightarrow> 'h tb_state" where
  "fsm_set ev cur pr shared sn = on_ports (\<lambda>t.
     ev (t\<lparr>v_fsm_cur_state := cur, v_fsm_pr_req := pr, v_fsm_shared_in := shared, v_fsm_snoop_txn := sn\<rparr>))"

definition test_fsm :: "('h Vmesi_tb_top \<Rightarrow> 'h Vmesi_tb_top) \<Rightarrow> 'h tb_state \<Rightarrow> 'h tb_state" where
  "test_fsm ev = in_turn
    [tb_printf (''-- mesi_fsm transition table --'' @ newline),
     fsm_set ev 0 1 False 0, check_ports (\<lambda>t. v_fsm_req_txn t = 1 \<and> v_fsm_needs_bus t) ''I+PrRd -> BusRd'',
     fsm_set ev 1 1 False 0, check_ports (\<lambda>t. v_fsm_req_txn t = 0 \<and> \<not> v_fsm_needs_bus t) ''S+PrRd -> hit'',
     fsm_set ev 2 1 False 0, check_ports (\<lambda>t. v_fsm_req_txn t = 0) ''E+PrRd -> hit'',
     fsm_set ev 3 1 False 0, check_ports (\<lambda>t. v_fsm_req_txn t = 0) ''M+PrRd -> hit'',
     fsm_set ev 0 2 False 0, check_ports (\<lambda>t. v_fsm_req_txn t = 2) ''I+PrWr -> BusRdX'',
     fsm_set ev 1 2 False 0, check_ports (\<lambda>t. v_fsm_req_txn t = 3) ''S+PrWr -> BusUpgr'',
     fsm_set ev 2 2 False 0, check_ports (\<lambda>t. v_fsm_req_txn t = 0) ''E+PrWr -> silent'',
     fsm_set ev 3 2 False 0, check_ports (\<lambda>t. v_fsm_req_txn t = 0) ''M+PrWr -> hit'',
     fsm_set ev 0 1 False 0, check_ports (\<lambda>t. v_fsm_pr_next t = 2) ''I+PrRd(noshare) -> E'',
     fsm_set ev 0 1 True 0, check_ports (\<lambda>t. v_fsm_pr_next t = 1) ''I+PrRd(shared) -> S'',
     fsm_set ev 0 2 False 0, check_ports (\<lambda>t. v_fsm_pr_next t = 3) ''I+PrWr -> M'',
     fsm_set ev 1 2 False 0, check_ports (\<lambda>t. v_fsm_pr_next t = 3) ''S+PrWr -> M'',
     fsm_set ev 2 2 False 0, check_ports (\<lambda>t. v_fsm_pr_next t = 3) ''E+PrWr -> M'',
     fsm_set ev 3 0 False 1, check_ports (\<lambda>t. v_fsm_snoop_next t = 1 \<and> v_fsm_snoop_wb t) ''M+BusRd -> S, wb'',
     fsm_set ev 2 0 False 1, check_ports (\<lambda>t. v_fsm_snoop_next t = 1 \<and> \<not> v_fsm_snoop_wb t) ''E+BusRd -> S'',
     fsm_set ev 1 0 False 1, check_ports (\<lambda>t. v_fsm_snoop_next t = 1) ''S+BusRd -> S'',
     fsm_set ev 3 0 False 2, check_ports (\<lambda>t. v_fsm_snoop_next t = 0 \<and> v_fsm_snoop_wb t) ''M+BusRdX -> I, wb'',
     fsm_set ev 2 0 False 2, check_ports (\<lambda>t. v_fsm_snoop_next t = 0) ''E+BusRdX -> I'',
     fsm_set ev 1 0 False 2, check_ports (\<lambda>t. v_fsm_snoop_next t = 0) ''S+BusRdX -> I'',
     fsm_set ev 1 0 False 3, check_ports (\<lambda>t. v_fsm_snoop_next t = 0) ''S+BusUpgr -> I'']"

definition sb_push ::
    "('h Vmesi_tb_top \<Rightarrow> 'h Vmesi_tb_top) \<Rightarrow> u32 \<Rightarrow> u32 \<Rightarrow> 'h tb_state \<Rightarrow> 'h tb_state" where
  "sb_push ev a d = on_ports (\<lambda>t. Driver_tick ev
     (t\<lparr>v_sb := (v_sb t)\<lparr>st_valid := True, st_addr := a, st_data := d, drain_ready := False\<rparr>\<rparr>))"

definition test_store_buffer :: "('h Vmesi_tb_top \<Rightarrow> 'h Vmesi_tb_top) \<Rightarrow> 'h tb_state \<Rightarrow> 'h tb_state" where
  "test_store_buffer ev = in_turn
    [tb_printf (''-- store_buffer (bypass / FIFO drain / fence) --'' @ newline),
     sb_push ev 0x10 111, sb_push ev 0x20 222, sb_push ev 0x10 333,
     on_ports (\<lambda>t. ev (t\<lparr>v_sb := (v_sb t)\<lparr>st_valid := False\<rparr>\<rparr>)),
     check_ports (\<lambda>t. v_sb_count t = 3) ''store buffer count == 3'',
     on_ports (\<lambda>t. ev (t\<lparr>v_sb := (v_sb t)\<lparr>bypass_addr := 0x10\<rparr>\<rparr>)),
     check_ports (\<lambda>t. v_sb_bypass_hit t \<and> v_sb_bypass_data t = 333) ''bypass 0x10 -> 333 (newest)'',
     on_ports (\<lambda>t. ev (t\<lparr>v_sb := (v_sb t)\<lparr>bypass_addr := 0x20\<rparr>\<rparr>)),
     check_ports (\<lambda>t. v_sb_bypass_hit t \<and> v_sb_bypass_data t = 222) ''bypass 0x20 -> 222'',
     on_ports (\<lambda>t. ev (t\<lparr>v_sb := (v_sb t)\<lparr>bypass_addr := 0x30\<rparr>\<rparr>)),
     check_ports (\<lambda>t. \<not> v_sb_bypass_hit t) ''bypass 0x30 -> miss'',
     on_ports (\<lambda>t. ev (t\<lparr>v_sb := (v_sb t)\<lparr>fence_req := True\<rparr>\<rparr>)),
     check_ports (\<lambda>t. \<not> v_sb_fence_ack t \<and> v_sb_full t) ''pending fence blocks stores and waits for drain'',
     on_ports (\<lambda>t. Driver_settle ev (t\<lparr>v_sb := (v_sb t)\<lparr>drain_ready := True\<rparr>\<rparr>)),
     check_ports (\<lambda>t. v_sb_drain_valid t \<and> v_sb_drain_addr t = 0x10 \<and> v_sb_drain_data t = 111) ''drain[0] = (0x10,111)'',
     on_ports (Driver_tick ev), on_ports (Driver_settle ev),
     check_ports (\<lambda>t. v_sb_drain_addr t = 0x20 \<and> v_sb_drain_data t = 222) ''drain[1] = (0x20,222)'',
     on_ports (Driver_tick ev), on_ports (Driver_settle ev),
     check_ports (\<lambda>t. v_sb_drain_addr t = 0x10 \<and> v_sb_drain_data t = 333) ''drain[2] = (0x10,333)'',
     on_ports (Driver_tick ev), on_ports (Driver_settle ev),
     check_ports (\<lambda>t. v_sb_count t = 0 \<and> v_sb_fence_ack t) ''buffer empty -> fence_ack'',
     on_ports (\<lambda>t. ev (t\<lparr>v_sb := (v_sb t)\<lparr>fence_req := False, drain_ready := False\<rparr>\<rparr>)),
     check_ports (\<lambda>t. \<not> v_sb_fence_ack t) ''fence ack deasserts with fence request'']"

definition test_cpu_stub :: "('h Vmesi_tb_top \<Rightarrow> 'h Vmesi_tb_top) \<Rightarrow> 'h tb_state \<Rightarrow> 'h tb_state" where
  "test_cpu_stub ev = in_turn
    [tb_printf (''-- cpu_stub SEQUENTIAL stimulus --'' @ newline),
     on_ports (\<lambda>t. Driver_settle ev (t\<lparr>v_stub_enable := True, v_stub_base := 0x1000, v_stub_done := True\<rparr>)),
     check_ports (\<lambda>t. v_stub_req t \<and> v_stub_addr t = 0x1000 \<and> \<not> v_stub_we t) ''stub step0: 0x1000 read'',
     on_ports (Driver_tick ev), on_ports (Driver_settle ev),
     check_ports (\<lambda>t. v_stub_addr t = 0x1040 \<and> v_stub_we t) ''stub step1: 0x1040 write'',
     on_ports (Driver_tick ev), on_ports (Driver_settle ev),
     check_ports (\<lambda>t. v_stub_addr t = 0x1080 \<and> \<not> v_stub_we t) ''stub step2: 0x1080 read'',
     check_ports (\<lambda>t. v_stub_issued t = 2) ''stub issued == 2'',
     on_ports (\<lambda>t. ev (t\<lparr>v_stub_enable := False, v_stub_done := False\<rparr>))]"

section \<open>The system test\<close>

text \<open>The driver's operations on the testbench's state.\<close>

definition tb_read ::
    "('h Vmesi_tb_top \<Rightarrow> 'h Vmesi_tb_top) \<Rightarrow> nat \<Rightarrow> u32 \<Rightarrow> 'h tb_state \<Rightarrow> exn + (u32 \<times> 'h tb_state)" where
  "tb_read ev c a s = sbind (Driver_read ev c a (tb_ports s)) (\<lambda>(x, t). Inr (x, s\<lparr>tb_ports := t\<rparr>))"

definition tb_write ::
    "('h Vmesi_tb_top \<Rightarrow> 'h Vmesi_tb_top) \<Rightarrow> nat \<Rightarrow> u32 \<Rightarrow> u32 \<Rightarrow> 'h tb_state \<Rightarrow> exn + 'h tb_state" where
  "tb_write ev c a x s = sbind (Driver_write ev c a x (tb_ports s)) (\<lambda>t. Inr (s\<lparr>tb_ports := t\<rparr>))"

text \<open>A conjunction of comparisons of \<^verbatim>\<open>d.state(core, addr)\<close>, left to right, up to the first that fails.\<close>

fun states_are ::
    "('h Vmesi_tb_top \<Rightarrow> 'h Vmesi_tb_top) \<Rightarrow> u32 \<Rightarrow> (nat \<times> u8) list \<Rightarrow> 'h tb_state \<Rightarrow> bool \<times> 'h tb_state" where
  "states_are ev a [] s = (True, s)"
| "states_are ev a ((c, st) # cs) s =
     (let (x, t) = Driver_state ev c a (tb_ports s); s = s\<lparr>tb_ports := t\<rparr>
      in if x = st then states_are ev a cs s else (False, s))"

definition check_states ::
    "('h Vmesi_tb_top \<Rightarrow> 'h Vmesi_tb_top) \<Rightarrow> u32 \<Rightarrow> (nat \<times> u8) list \<Rightarrow> string \<Rightarrow> 'h tb_state \<Rightarrow> 'h tb_state" where
  "check_states ev a cs msg s = (let (ok, s) = states_are ev a cs s in tb_check ok msg s)"

definition sys_fill :: "('h Vmesi_tb_top \<Rightarrow> 'h Vmesi_tb_top) \<Rightarrow> 'h tb_state \<Rightarrow> exn + 'h tb_state" where
  "sys_fill ev s =
     sbind (tb_read ev 0 0x040 s) (\<lambda>(x, s).
     let s = tb_check (x = 0) ''read A returns 0 (fresh)'' s;
         s = check_states ev 0x040 [(0, 2)] ''core0 A -> E'' s
     in sbind (tb_read ev 1 0x040 s) (\<lambda>(_, s).
     Inr (check_states ev 0x040 [(0, 1), (1, 1)] ''A shared S/S'' s)))"

definition sys_silent :: "('h Vmesi_tb_top \<Rightarrow> 'h Vmesi_tb_top) \<Rightarrow> 'h tb_state \<Rightarrow> exn + 'h tb_state" where
  "sys_silent ev s =
     sbind (tb_read ev 0 0x080 s) (\<lambda>(_, s).
     let s = check_states ev 0x080 [(0, 2)] ''core0 B -> E'' s;
         rdx0 = Driver_bus_rdx (tb_ports s);
         upg0 = Driver_bus_upgr (tb_ports s)
     in sbind (tb_write ev 0 0x080 0xBB s) (\<lambda>s.
     let s = check_states ev 0x080 [(0, 3)] ''core0 B -> M (silent)'' s;
         s = tb_check (Driver_bus_rdx (tb_ports s) = rdx0 \<and> Driver_bus_upgr (tb_ports s) = upg0) ''E->M issues no bus txn'' s
     in sbind (tb_read ev 0 0x080 s) (\<lambda>(x, s).
     Inr (tb_check (x = 0xBB) ''B reads back 0xBB'' s))))"

definition sys_upgrade :: "('h Vmesi_tb_top \<Rightarrow> 'h Vmesi_tb_top) \<Rightarrow> 'h tb_state \<Rightarrow> exn + 'h tb_state" where
  "sys_upgrade ev s =
     sbind (tb_read ev 0 0x0C0 s) (\<lambda>(_, s).
     sbind (tb_read ev 1 0x0C0 s) (\<lambda>(_, s).
     let upg1 = Driver_bus_upgr (tb_ports s)
     in sbind (tb_write ev 0 0x0C0 0xCC s) (\<lambda>s.
     let s = check_states ev 0x0C0 [(0, 3), (1, 0)] ''C: core0 M, core1 I'' s
     in Inr (tb_check (Driver_bus_upgr (tb_ports s) = upg1 + 1) ''S->M issues BusUpgr'' s))))"

definition sys_read_for_ownership :: "('h Vmesi_tb_top \<Rightarrow> 'h Vmesi_tb_top) \<Rightarrow> 'h tb_state \<Rightarrow> exn + 'h tb_state" where
  "sys_read_for_ownership ev s =
     sbind (tb_read ev 1 0x100 s) (\<lambda>(_, s).
     let rdx1 = Driver_bus_rdx (tb_ports s)
     in sbind (tb_write ev 0 0x100 0xDD s) (\<lambda>s.
     let s = check_states ev 0x100 [(0, 3), (1, 0)] ''D: core0 M, core1 I'' s
     in Inr (tb_check (Driver_bus_rdx (tb_ports s) = rdx1 + 1) ''I->M issues BusRdX'' s)))"

definition sys_intervention :: "('h Vmesi_tb_top \<Rightarrow> 'h Vmesi_tb_top) \<Rightarrow> 'h tb_state \<Rightarrow> exn + 'h tb_state" where
  "sys_intervention ev s =
     sbind (tb_write ev 0 0x140 0xEE s) (\<lambda>s.
     let s = check_states ev 0x140 [(0, 3)] ''E line: core0 M'' s;
         wb0 = Driver_bus_wb (tb_ports s)
     in sbind (tb_read ev 1 0x140 s) (\<lambda>(got, s).
     let s = tb_check (got = 0xEE) ''core1 reads dirty value 0xEE via intervention'' s;
         s = check_states ev 0x140 [(0, 1), (1, 1)] ''E line both S after BusRd'' s
     in Inr (tb_check (Driver_bus_wb (tb_ports s) = wb0 + 1) ''dirty intervention triggers writeback'' s)))"

definition sys_dirty_handover :: "('h Vmesi_tb_top \<Rightarrow> 'h Vmesi_tb_top) \<Rightarrow> 'h tb_state \<Rightarrow> exn + 'h tb_state" where
  "sys_dirty_handover ev s =
     sbind (tb_write ev 0 0x180 0x11 s) (\<lambda>s.
     sbind (tb_write ev 1 0x180 0x22 s) (\<lambda>s.
     let s = check_states ev 0x180 [(0, 0), (1, 3)] ''F: core0 I, core1 M'' s
     in sbind (tb_read ev 1 0x180 s) (\<lambda>(x, s).
     Inr (tb_check (x = 0x22) ''core1 F reads 0x22'' s))))"

definition sys_ping_pong :: "('h Vmesi_tb_top \<Rightarrow> 'h Vmesi_tb_top) \<Rightarrow> 'h tb_state \<Rightarrow> exn + 'h tb_state" where
  "sys_ping_pong ev s =
     (let rdx_before = Driver_bus_rdx (tb_ports s)
      in sbind (for_each (\<lambda>i s. sbind (tb_write ev 0 0x1C0 (of_nat (2 * i)) s) (tb_write ev 1 0x1C0 (of_nat (2 * i + 1)))) [0..<20] s) (\<lambda>s.
     let s = tb_check (Driver_bus_rdx (tb_ports s) - rdx_before = 40) ''ping-pong: each write a BusRdX'' s
     in sbind (tb_read ev 0 0x1C0 s) (\<lambda>(x, s).
     Inr (tb_check (x = 39) ''ping-pong final value'' s))))"

definition sys_reader_storm :: "('h Vmesi_tb_top \<Rightarrow> 'h Vmesi_tb_top) \<Rightarrow> 'h tb_state \<Rightarrow> exn + 'h tb_state" where
  "sys_reader_storm ev s =
     (let rd_before = Driver_bus_rd (tb_ports s);
          rdx_b2 = Driver_bus_rdx (tb_ports s)
      in sbind (for_each (\<lambda>c s. sbind (tb_read ev c 0x200 s) (\<lambda>(_, s). Inr s)) [0..<4] s) (\<lambda>s.
     let s = tb_check (Driver_bus_rd (tb_ports s) - rd_before = 4) ''reader storm: 4 BusRd'' s;
         s = tb_check (Driver_bus_rdx (tb_ports s) - rdx_b2 = 0) ''reader storm: no BusRdX'' s
     in Inr (fold (\<lambda>c. check_states ev 0x200 [(c, 1)] (''reader core '' @ dec_of_nat c @ '' -> S'')) [0..<4] s)))"

definition test_system :: "('h Vmesi_tb_top \<Rightarrow> 'h Vmesi_tb_top) \<Rightarrow> 'h tb_state \<Rightarrow> exn + 'h tb_state" where
  "test_system ev s =
     for_each (\<lambda>f. f ev) [sys_fill, sys_silent, sys_upgrade, sys_read_for_ownership, sys_intervention, sys_dirty_handover,
       sys_ping_pong, sys_reader_storm] (tb_printf (''-- multi-core coherence (directed) --'' @ newline) s)"

section \<open>The main program\<close>

text \<open>The exit code and what was printed; an exception that escapes ends the program.\<close>

definition tb_main :: "('h Vmesi_tb_top \<Rightarrow> 'h Vmesi_tb_top) \<Rightarrow> 'h Vmesi_tb_top \<Rightarrow> exn + (int \<times> string)" where
  "tb_main ev t =
     (let s = \<lparr>g_fail = 0, g_checks = 0, tb_out = [], tb_ports = t\<rparr>;
          s = tb_printf (''==== MESI RTL testbench (Verilator) ===='' @ newline) s;
          s = on_ports (Driver_reset ev) s;
          s = test_fsm ev s;
          s = test_store_buffer ev s;
          s = test_cpu_stub ev s;
          s = on_ports (Driver_reset ev) s
      in sbind (test_system ev s) (\<lambda>s.
      let s = tb_printf (''---- RTL: '' @ dec_of_int (g_checks s) @ '' checks, ''
                @ (if g_fail s \<noteq> 0 then ''FAILURES'' else ''all passed'') @ '' ----'' @ newline) s
      in if g_fail s \<noteq> 0 then Inr (1, tb_out (tb_printf (''RTL TESTBENCH FAILED'' @ newline) s))
         else Inr (0, tb_out (tb_printf (''RTL TESTBENCH PASSED'' @ newline) s))))"

section \<open>The unit tests pass\<close>

text \<open>All checks passed so far, \<open>n\<close> of them, and the unit-test ports: the store buffer holds \<open>es\<close>.\<close>

definition unit_at ::
    "int \<Rightarrow> string \<Rightarrow> SBEntry list \<Rightarrow> sb_inputs \<Rightarrow> u32 \<Rightarrow> bool \<Rightarrow> u32 \<Rightarrow> rtl_hidden tb_state \<Rightarrow> bool" where
  "unit_at n out es z k en base s \<longleftrightarrow> (let t = tb_ports s; h = v_hidden t in
     g_fail s = 0 \<and> g_checks s = n \<and> tb_out s = out
     \<and> v_rst_n t \<and> h_clk h = v_clk t \<and> tb_outputs t = t \<and> ring_ok (h_sb h) \<and> ring_entries (h_sb h) = es \<and> v_sb t = z
     \<and> h_step h = k \<and> v_stub_enable t = en \<and> v_stub_done t = en \<and> v_stub_base t = base)"

lemma outputs_eval: "tb_outputs (rtl_eval t) = rtl_eval t"
  by (simp add: rtl_eval_def tb_outputs_def Let_def tb_inputs_def)

lemma outputs_seen:
  assumes "tb_outputs t = t"
  shows "v_sb_count t = ucast (q_cnt (h_sb (v_hidden t)))" "v_sb_full t = sb_full (v_sb t) (h_sb (v_hidden t))"
    "v_sb_drain_valid t = drain_valid (h_sb (v_hidden t))" "v_sb_drain_addr t = drain_addr (h_sb (v_hidden t))"
    "v_sb_drain_data t = drain_data (h_sb (v_hidden t))" "v_sb_bypass_hit t = fst (bypass (v_sb t) (h_sb (v_hidden t)))"
    "v_sb_bypass_data t = snd (bypass (v_sb t) (h_sb (v_hidden t)))" "v_sb_fence_ack t = fence_ack (v_sb t) (h_sb (v_hidden t))"
    "v_stub_req t = v_stub_enable t" "v_stub_we t = stub_we_of 0 (h_step (v_hidden t))"
    "v_stub_addr t = stub_addr_of 1 0 (v_stub_base t) (h_step (v_hidden t))" "v_stub_issued t = h_step (v_hidden t)"
  by (subst assms [symmetric], simp add: tb_outputs_def Let_def)+

lemma unit_sees:
  assumes "unit_at n out es z k en base s"
  shows "v_sb_count (tb_ports s) = of_nat (length es)" "v_sb_full (tb_ports s) \<longleftrightarrow> length es = 8 \<or> fence_req z"
    "v_sb_drain_valid (tb_ports s) \<longleftrightarrow> es \<noteq> []"
    "es = e # es' \<Longrightarrow> v_sb_drain_addr (tb_ports s) = e_addr e \<and> v_sb_drain_data (tb_ports s) = e_val e"
    "v_sb_bypass_hit (tb_ports s) \<longleftrightarrow> scan (bypass_addr z) (rev es) \<noteq> None"
    "scan (bypass_addr z) (rev es) = Some v \<Longrightarrow> v_sb_bypass_data (tb_ports s) = v"
    "v_sb_fence_ack (tb_ports s) \<longleftrightarrow> fence_req z \<and> es = []"
    "v_stub_req (tb_ports s) = en" "v_stub_we (tb_ports s) = stub_we_of 0 k"
    "v_stub_addr (tb_ports s) = stub_addr_of 1 0 base k" "v_stub_issued (tb_ports s) = k"
proof -
  let ?q = "h_sb (v_hidden (tb_ports s))"
  have u: "tb_outputs (tb_ports s) = tb_ports s" "ring_ok ?q" "ring_entries ?q = es" "v_sb (tb_ports s) = z"
    "h_step (v_hidden (tb_ports s)) = k" "v_stub_enable (tb_ports s) = en" "v_stub_base (tb_ports s) = base"
    using assms by (simp_all add: unit_at_def Let_def)
  note o = outputs_seen [OF u(1), unfolded u(4-7)] and b = ring_bypass [OF u(2), of z, unfolded u(3)]
  have "length es = unat (q_cnt ?q)" using ring_length [of ?q] u(3) by simp
  then show "v_sb_count (tb_ports s) = of_nat (length es)" by (simp add: o)
  show "v_sb_full (tb_ports s) \<longleftrightarrow> length es = 8 \<or> fence_req z" using ring_full [OF u(2)] u(3) by (simp add: o)
  show "v_sb_drain_valid (tb_ports s) \<longleftrightarrow> es \<noteq> []" using ring_empty [of ?q] u(3) by (simp add: o)
  show "es = e # es' \<Longrightarrow> v_sb_drain_addr (tb_ports s) = e_addr e \<and> v_sb_drain_data (tb_ports s) = e_val e"
    using ring_head [of ?q] u(3) by (auto simp: o)
  show "v_sb_bypass_hit (tb_ports s) \<longleftrightarrow> scan (bypass_addr z) (rev es) \<noteq> None"
    "scan (bypass_addr z) (rev es) = Some v \<Longrightarrow> v_sb_bypass_data (tb_ports s) = v"
    using b by (auto simp: o split: option.splits)
  show "v_sb_fence_ack (tb_ports s) \<longleftrightarrow> fence_req z \<and> es = []"
    using ring_empty [of ?q] u(3) by (auto simp: o fence_ack_def drain_valid_def)
qed (use assms in \<open>simp_all add: unit_at_def Let_def outputs_seen\<close>)

text \<open>What a list of statements reaches.\<close>

definition reaches :: "('s \<Rightarrow> bool) \<Rightarrow> ('s \<Rightarrow> 's) list \<Rightarrow> 's \<Rightarrow> bool" where
  "reaches Q fs s \<longleftrightarrow> Q (in_turn fs s)"

lemma reaches_Nil: "Q s \<Longrightarrow> reaches Q [] s"
  by (simp add: reaches_def in_turn_def)

lemma reaches_Cons: "reaches Q fs (f s) \<Longrightarrow> reaches Q (f # fs) s"
  by (simp add: reaches_def in_turn_def)

lemma turn_printf:
  assumes "unit_at n out es z k en base s" and "\<And>s'. unit_at n (out @ m) es z k en base s' \<Longrightarrow> reaches Q fs s'"
  shows "reaches Q (tb_printf m # fs) s"
  by (rule reaches_Cons, rule assms(2)) (use assms(1) in \<open>simp add: unit_at_def tb_printf_def Let_def\<close>)

lemma turn_check:
  assumes "unit_at n out es z k en base s" and "C (tb_ports s)" and "m = n + 1"
    and "\<And>s'. unit_at m out es z k en base s' \<Longrightarrow> reaches Q fs s'"
  shows "reaches Q (check_ports C msg # fs) s"
  by (rule reaches_Cons, rule assms(4))
    (use assms(1-3) in \<open>simp add: unit_at_def check_ports_def tb_check_def Let_def\<close>)

text \<open>New inputs, then \<^verbatim>\<open>eval\<close>, \<^verbatim>\<open>settle\<close> or \<^verbatim>\<open>tick\<close>.\<close>

definition keeps_clock :: "(rtl_hidden Vmesi_tb_top \<Rightarrow> rtl_hidden Vmesi_tb_top) \<Rightarrow> bool" where
  "keeps_clock f \<longleftrightarrow> (\<forall>t. v_clk (f t) = v_clk t \<and> v_rst_n (f t) = v_rst_n t \<and> v_hidden (f t) = v_hidden t)"

lemma turn_eval:
  assumes "unit_at n out es z k en base s" and "keeps_clock f"
    and "v_sb (f (tb_ports s)) = z'" and "v_stub_enable (f (tb_ports s)) = en'" and "v_stub_done (f (tb_ports s)) = en'"
    and "v_stub_base (f (tb_ports s)) = base'"
    and "\<And>s'. unit_at n out es z' k en' base' s' \<Longrightarrow> reaches Q fs s'"
  shows "reaches Q (on_ports (\<lambda>t. rtl_eval (f t)) # fs) s"
proof (rule reaches_Cons, rule assms(7))
  let ?t = "f (tb_ports s)"
  have "tb_registers ?t = (v_hidden ?t)\<lparr>h_clk := v_clk ?t, h_rst_n := v_rst_n ?t\<rparr>"
    using assms(1,2) by (simp add: tb_registers_def tb_edge_def unit_at_def Let_def keeps_clock_def)
  with assms(1-6) show "unit_at n out es z' k en' base' (on_ports (\<lambda>t. rtl_eval (f t)) s)"
    by (simp add: unit_at_def on_ports_def Let_def keeps_clock_def outputs_eval)
qed

lemma turn_settle:
  assumes "unit_at n out es z k en base s" and "keeps_clock f"
    and "v_sb (f (tb_ports s)) = z'" and "v_stub_enable (f (tb_ports s)) = en'" and "v_stub_done (f (tb_ports s)) = en'"
    and "v_stub_base (f (tb_ports s)) = base'"
    and "\<And>s'. unit_at n out es z' k en' base' s' \<Longrightarrow> reaches Q fs s'"
  shows "reaches Q (on_ports (\<lambda>t. Driver_settle rtl_eval (f t)) # fs) s"
proof (rule reaches_Cons, rule assms(7))
  have "v_rst_n (f (tb_ports s))" using assms(1,2) by (simp add: unit_at_def Let_def keeps_clock_def)
  from registers_low [OF this] assms(1-6) show "unit_at n out es z' k en' base' (on_ports (\<lambda>t. Driver_settle rtl_eval (f t)) s)"
    by (simp add: unit_at_def on_ports_def Let_def keeps_clock_def outputs_eval Driver_settle_def)
qed

lemma turn_tick:
  assumes "unit_at n out es z k en base s" and "keeps_clock f"
    and "v_sb (f (tb_ports s)) = z'" and "v_stub_enable (f (tb_ports s)) = en" and "v_stub_done (f (tb_ports s)) = en"
    and "v_stub_base (f (tb_ports s)) = base" and "k' = (if en then k + 1 else k)"
    and "es' = (let xs = (if st_valid z' \<and> \<not> (length es = 8 \<or> fence_req z') then es @ [\<lparr>e_addr = st_addr z', e_val = st_data z'\<rparr>] else es)
       in if es \<noteq> [] \<and> drain_ready z' then tl xs else xs)"
    and "\<And>s'. unit_at n out es' z' k' en base s' \<Longrightarrow> reaches Q fs s'"
  shows "reaches Q (on_ports (\<lambda>t. Driver_tick rtl_eval (f t)) # fs) s"
proof (rule reaches_Cons, rule assms(9))
  let ?t = "f (tb_ports s)" and ?q = "h_sb (v_hidden (tb_ports s))"
  have u: "v_rst_n ?t" "ring_ok ?q" "ring_entries ?q = es" "v_hidden ?t = v_hidden (tb_ports s)" "h_step (v_hidden (tb_ports s)) = k"
    using assms(1,2) by (simp_all add: unit_at_def Let_def keeps_clock_def)
  have "do_push z' ?q \<longleftrightarrow> st_valid z' \<and> \<not> (length es = 8 \<or> fence_req z')" "do_pop z' ?q \<longleftrightarrow> es \<noteq> [] \<and> drain_ready z'"
    using ring_full [OF u(2)] ring_empty [of ?q] u(3) by (auto simp: do_push_def do_pop_def)
  then have "ring_entries (sb_clock z' ?q) = es'" using ring_clock_entries [OF u(2), of z'] u(3) assms(8) by simp
  moreover have "tb_outputs (Driver_tick rtl_eval ?t) = Driver_tick rtl_eval ?t" by (simp add: Driver_tick_def Let_def outputs_eval)
  ultimately show "unit_at n out es' z' k' en base (on_ports (\<lambda>t. Driver_tick rtl_eval (f t)) s)"
    using assms(1,3-7) tick_run(2,3) [OF u(1)] u ring_clock_ok [OF u(2), of z'] tick_ports [of ?t]
    by (simp add: unit_at_def on_ports_def Let_def stub_clock_def)
qed

lemma keeps_clock_inputs:
  "keeps_clock (\<lambda>t. t)" "keeps_clock (\<lambda>t. t\<lparr>v_sb := g (v_sb t)\<rparr>)"
  "keeps_clock (\<lambda>t. t\<lparr>v_stub_enable := b, v_stub_base := base, v_stub_done := d\<rparr>)"
  "keeps_clock (\<lambda>t. t\<lparr>v_stub_enable := b, v_stub_done := d\<rparr>)"
  "keeps_clock (\<lambda>t. t\<lparr>v_fsm_cur_state := cur, v_fsm_pr_req := pr, v_fsm_shared_in := sh, v_fsm_snoop_txn := sn\<rparr>)"
  by (simp_all add: keeps_clock_def)

lemma unit_ports:
  assumes "unit_at n out es z k en base s"
  shows "v_sb (tb_ports s) = z" "v_stub_enable (tb_ports s) = en" "v_stub_done (tb_ports s) = en" "v_stub_base (tb_ports s) = base"
  using assms by (simp_all add: unit_at_def Let_def)

text \<open>A row of the transition table.\<close>

lemma turn_fsm:
  fixes cur pr sn :: u8 and sh :: bool
  defines "st \<equiv> mesi_state_cast cur" and "p \<equiv> pr_req_cast pr" and "x \<equiv> bus_txn_cast sn"
  assumes "unit_at n out es z k en base s"
    and "\<And>t :: rtl_hidden Vmesi_tb_top. v_fsm_req_txn t = BusTxn_val (fsm_req_txn st p) \<Longrightarrow> v_fsm_needs_bus t = fsm_needs_bus st p
      \<Longrightarrow> v_fsm_pr_next t = State_val (fsm_pr_next st p sh) \<Longrightarrow> v_fsm_snoop_next t = State_val (fsm_snoop_next st x)
      \<Longrightarrow> v_fsm_snoop_wb t = fsm_snoop_wb st x \<Longrightarrow> C t"
    and "m = n + 1" and "\<And>s'. unit_at m out es z k en base s' \<Longrightarrow> reaches Q fs s'"
  shows "reaches Q (fsm_set rtl_eval cur pr sh sn # check_ports C msg # fs) s"
proof -
  let ?f = "\<lambda>t :: rtl_hidden Vmesi_tb_top. t\<lparr>v_fsm_cur_state := cur, v_fsm_pr_req := pr, v_fsm_shared_in := sh, v_fsm_snoop_txn := sn\<rparr>"
  have c: "C (rtl_eval (?f (tb_ports s)))"
    by (rule assms(5)) (simp_all add: rtl_eval_def tb_outputs_def Let_def st_def p_def x_def)
  have "reaches (\<lambda>s'. unit_at n out es z k en base s') [on_ports (\<lambda>t. rtl_eval (?f t))] s"
    by (rule turn_eval [OF assms(4) keeps_clock_inputs(5)]) (simp_all add: unit_ports [OF assms(4)] reaches_def in_turn_def)
  then have u: "unit_at n out es z k en base (fsm_set rtl_eval cur pr sh sn s)" by (simp add: reaches_def in_turn_def fsm_set_def)
  have "C (tb_ports (fsm_set rtl_eval cur pr sh sn s))" using c by (simp add: fsm_set_def on_ports_def)
  from turn_check [where C = C, OF u this assms(6,7)] show ?thesis by (rule reaches_Cons)
qed

lemmas fsm_row = fsm_defs mesi_state_cast_def pr_req_cast_def bus_txn_cast_def

lemma test_fsm_passes:
  assumes "unit_at 0 out es z k en base s"
  shows "unit_at 20 (out @ ''-- mesi_fsm transition table --'' @ newline) es z k en base (test_fsm rtl_eval s)"
  unfolding test_fsm_def
  by (fold reaches_def, rule turn_printf [OF assms], (erule turn_fsm, simp add: fsm_row, simp)+, rule reaches_Nil)

lemma turn_sb:
  assumes "unit_at n out es z k en base s"
  shows "(\<And>s'. unit_at n out es (g z) k en base s' \<Longrightarrow> reaches Q fs s')
      \<Longrightarrow> reaches Q (on_ports (\<lambda>t. rtl_eval (t\<lparr>v_sb := g (v_sb t)\<rparr>)) # fs) s"
    and "(\<And>s'. unit_at n out es (g z) k en base s' \<Longrightarrow> reaches Q fs s')
      \<Longrightarrow> reaches Q (on_ports (\<lambda>t. Driver_settle rtl_eval (t\<lparr>v_sb := g (v_sb t)\<rparr>)) # fs) s"
    and "es' = (let xs = (if st_valid (g z) \<and> \<not> (length es = 8 \<or> fence_req (g z)) then es @ [\<lparr>e_addr = st_addr (g z), e_val = st_data (g z)\<rparr>] else es)
       in if es \<noteq> [] \<and> drain_ready (g z) then tl xs else xs) \<Longrightarrow> k' = (if en then k + 1 else k)
      \<Longrightarrow> (\<And>s'. unit_at n out es' (g z) k' en base s' \<Longrightarrow> reaches Q fs s')
      \<Longrightarrow> reaches Q (on_ports (\<lambda>t. Driver_tick rtl_eval (t\<lparr>v_sb := g (v_sb t)\<rparr>)) # fs) s"
  subgoal by (rule turn_eval [OF assms keeps_clock_inputs(2)]) (simp_all add: unit_ports [OF assms])
  subgoal by (rule turn_settle [OF assms keeps_clock_inputs(2)]) (simp_all add: unit_ports [OF assms])
  subgoal by (rule turn_tick [OF assms keeps_clock_inputs(2)]) (simp_all add: unit_ports [OF assms])
  done

lemma turn_clock:
  assumes "unit_at n out es z k en base s"
  shows "(\<And>s'. unit_at n out es z k en base s' \<Longrightarrow> reaches Q fs s') \<Longrightarrow> reaches Q (on_ports (Driver_settle rtl_eval) # fs) s"
    and "es' = (let xs = (if st_valid z \<and> \<not> (length es = 8 \<or> fence_req z) then es @ [\<lparr>e_addr = st_addr z, e_val = st_data z\<rparr>] else es)
       in if es \<noteq> [] \<and> drain_ready z then tl xs else xs) \<Longrightarrow> k' = (if en then k + 1 else k)
      \<Longrightarrow> (\<And>s'. unit_at n out es' z k' en base s' \<Longrightarrow> reaches Q fs s') \<Longrightarrow> reaches Q (on_ports (Driver_tick rtl_eval) # fs) s"
  subgoal by (rule turn_settle [OF assms keeps_clock_inputs(1)]) (simp_all add: unit_ports [OF assms])
  subgoal by (rule turn_tick [OF assms keeps_clock_inputs(1)]) (simp_all add: unit_ports [OF assms])
  done

lemma turn_check_unit:
  assumes "unit_at n out es z k en base s"
    and "\<And>t :: rtl_hidden Vmesi_tb_top. v_sb_count t = of_nat (length es) \<Longrightarrow> v_sb_full t \<longleftrightarrow> length es = 8 \<or> fence_req z
      \<Longrightarrow> v_sb_drain_valid t \<longleftrightarrow> es \<noteq> []
      \<Longrightarrow> (\<And>e es'. es = e # es' \<Longrightarrow> v_sb_drain_addr t = e_addr e \<and> v_sb_drain_data t = e_val e)
      \<Longrightarrow> v_sb_bypass_hit t \<longleftrightarrow> scan (bypass_addr z) (rev es) \<noteq> None
      \<Longrightarrow> (\<And>v. scan (bypass_addr z) (rev es) = Some v \<Longrightarrow> v_sb_bypass_data t = v)
      \<Longrightarrow> v_sb_fence_ack t \<longleftrightarrow> fence_req z \<and> es = []
      \<Longrightarrow> v_stub_req t = en \<Longrightarrow> v_stub_we t = stub_we_of 0 k \<Longrightarrow> v_stub_addr t = stub_addr_of 1 0 base k \<Longrightarrow> v_stub_issued t = k \<Longrightarrow> C t"
    and "m = n + 1" and "\<And>s'. unit_at m out es z k en base s' \<Longrightarrow> reaches Q fs s'"
  shows "reaches Q (check_ports C msg # fs) s"
  by (rule turn_check [where C = C, OF assms(1) assms(2) assms(3,4)]) (use unit_sees [OF assms(1)] in blast)+

lemma reachesD: "reaches Q fs s \<Longrightarrow> Q (in_turn fs s)"
  by (simp add: reaches_def)

lemma test_store_buffer_passes:
  assumes "unit_at 20 out [] z k False base s" and "\<not> fence_req z"
  shows "\<exists>z'. unit_at 30 (out @ ''-- store_buffer (bypass / FIFO drain / fence) --'' @ newline) [] z' k False base (test_store_buffer rtl_eval s)
    \<and> \<not> st_valid z'"
  unfolding test_store_buffer_def sb_push_def
  by (rule reachesD [where Q = "\<lambda>s. \<exists>z'. unit_at 30 (out @ ''-- store_buffer (bypass / FIFO drain / fence) --'' @ newline) [] z' k False base s
        \<and> \<not> st_valid z'"], rule turn_printf [OF assms(1)], (erule turn_sb(3), simp add: assms(2), simp)+,
      (erule turn_sb(1) turn_sb(2) turn_clock(1) | (erule turn_clock(2), simp add: assms(2), simp) | (erule turn_check_unit, force, simp))+,
      rule reaches_Nil) (intro exI conjI, assumption, simp)

lemma turn_stub:
  assumes "unit_at n out es z k en base s"
  shows "(\<And>s'. unit_at n out es z k b base' s' \<Longrightarrow> reaches Q fs s')
      \<Longrightarrow> reaches Q (on_ports (\<lambda>t. Driver_settle rtl_eval (t\<lparr>v_stub_enable := b, v_stub_base := base', v_stub_done := b\<rparr>)) # fs) s"
    and "(\<And>s'. unit_at n out es z k b base s' \<Longrightarrow> reaches Q fs s')
      \<Longrightarrow> reaches Q (on_ports (\<lambda>t. rtl_eval (t\<lparr>v_stub_enable := b, v_stub_done := b\<rparr>)) # fs) s"
  subgoal by (rule turn_settle [OF assms keeps_clock_inputs(3)]) (simp_all add: unit_ports [OF assms])
  subgoal by (rule turn_eval [OF assms keeps_clock_inputs(4)]) (simp_all add: unit_ports [OF assms])
  done

lemma test_cpu_stub_passes:
  assumes "unit_at 30 out [] z 0 False base s" and "\<not> st_valid z"
  shows "\<exists>k' base'. unit_at 34 (out @ ''-- cpu_stub SEQUENTIAL stimulus --'' @ newline) [] z k' False base' (test_cpu_stub rtl_eval s)"
  unfolding test_cpu_stub_def
  by (rule reachesD [where Q = "\<lambda>s. \<exists>k' base'. unit_at 34 (out @ ''-- cpu_stub SEQUENTIAL stimulus --'' @ newline) [] z k' False base' s"],
      rule turn_printf [OF assms(1)],
      (erule turn_stub turn_clock(1) | (erule turn_clock(2), simp add: assms(2), simp) | (erule turn_check_unit, simp add: stub_addr_of_def stub_we_of_def, simp))+,
      rule reaches_Nil) blast

section \<open>The system test passes\<close>

definition tb_lines :: "u32 set" where
  "tb_lines = {0x040, 0x080, 0x0C0, 0x100, 0x140, 0x180, 0x1C0, 0x200}"

lemma apart_tb_lines: "apart tb_lines"
  by (simp add: apart_def tb_lines_def addr_index_def)

text \<open>All checks passed, and the lines of \<open>L\<close> are untouched; then also what is known of one other line.\<close>

definition fresh_lines :: "u32 set \<Rightarrow> mesi_view \<Rightarrow> bool" where
  "fresh_lines L v \<longleftrightarrow> (\<forall>b \<in> L. w_states v b = replicate N_CORES State_I \<and> w_val v b = 0)"

definition fresh_at :: "u32 set \<Rightarrow> int \<Rightarrow> string \<Rightarrow> rtl_hidden tb_state \<Rightarrow> bool" where
  "fresh_at L n out s \<longleftrightarrow> g_fail s = 0 \<and> g_checks s = n \<and> tb_out s = out
     \<and> (\<exists>v. rtl_looks tb_lines v (tb_ports s) \<and> fresh_lines L v)"

definition sys_at ::
    "u32 \<Rightarrow> State list \<Rightarrow> u32 \<Rightarrow> traffic \<Rightarrow> u32 set \<Rightarrow> int \<Rightarrow> string \<Rightarrow> rtl_hidden tb_state \<Rightarrow> bool" where
  "sys_at a sts x T L n out s \<longleftrightarrow> g_fail s = 0 \<and> g_checks s = n \<and> tb_out s = out \<and> a \<in> tb_lines - L
     \<and> (\<exists>v. rtl_looks tb_lines v (tb_ports s) \<and> fresh_lines L v \<and> w_states v a = sts \<and> w_val v a = x \<and> w_traffic v = T)"

lemma sys_at_start:
  assumes "fresh_at (insert a L) n out s" and "a \<in> tb_lines - L"
  obtains T where "sys_at a [State_I, State_I, State_I, State_I] 0 T L n out s"
  using assms by (auto simp: fresh_at_def sys_at_def fresh_lines_def N_CORES_def numeral_eq_Suc)

lemma sys_at_end: "sys_at a sts x T L n out s \<Longrightarrow> fresh_at L n out s"
  by (auto simp: fresh_at_def sys_at_def)

lemma sys_counters:
  assumes "sys_at a sts x T L n out s"
  shows "v_bus_rd_count (tb_ports s) = ucast (t_rd T)" "v_bus_rdx_count (tb_ports s) = ucast (t_rdx T)"
    "v_bus_upgr_count (tb_ports s) = ucast (t_upgr T)" "v_bus_wb_count (tb_ports s) = ucast (t_wb T)"
  using assms rtl_counters unfolding sys_at_def by blast+

text \<open>What a part of the test yields, statement by statement.\<close>

definition yields :: "('s \<Rightarrow> bool) \<Rightarrow> exn + 's \<Rightarrow> bool" where
  "yields Q m \<longleftrightarrow> (\<exists>s. m = Inr s \<and> Q s)"

lemma yields_return: "Q s \<Longrightarrow> yields Q (Inr s)"
  by (simp add: yields_def)

lemma yields_read:
  assumes "sys_at a sts x T L n out s" and "c < N_CORES" and "sts' = next_states c PrRd sts"
    and "T' = txn_traffic (fsm_req_txn (sts ! c) PrRd) (peer_in (\<lambda>st. st = State_M) c sts) T"
    and "\<And>s'. sys_at a sts' x T' L n out s' \<Longrightarrow> yields Q (K x s')"
  shows "yields Q (sbind (tb_read rtl_eval c a s) (case_prod K))"
proof -
  obtain v where v: "rtl_looks tb_lines v (tb_ports s)" "fresh_lines L v" "w_states v a = sts" "w_val v a = x" "w_traffic v = T"
    and a: "a \<in> tb_lines" "a \<notin> L" using assms(1) by (auto simp: sys_at_def)
  obtain t where t: "Driver_read rtl_eval c a (tb_ports s) = Inr (x, t)" "rtl_looks tb_lines (view_op c PrRd a 0 v) t"
    using rtl.rd_law [OF apart_tb_lines v(1) assms(2) a(1)] v(4) by blast
  have "sys_at a sts' x T' L n out (s\<lparr>tb_ports := t\<rparr>)"
    using assms(1) t(2) v(2-) a assms(3,4) unfolding sys_at_def fresh_lines_def
    by (auto intro!: exI [of _ "view_op c PrRd a 0 v"] simp: view_op_sel)
  from assms(5) [OF this] t(1) show ?thesis by (simp add: tb_read_def)
qed

lemma yields_write:
  assumes "sys_at a sts x T L n out s" and "c < N_CORES" and "sts' = next_states c PrWr sts"
    and "T' = txn_traffic (fsm_req_txn (sts ! c) PrWr) (peer_in (\<lambda>st. st = State_M) c sts) T"
    and "\<And>s'. sys_at a sts' y T' L n out s' \<Longrightarrow> yields Q (K s')"
  shows "yields Q (sbind (tb_write rtl_eval c a y s) K)"
proof -
  obtain v where v: "rtl_looks tb_lines v (tb_ports s)" "fresh_lines L v" "w_states v a = sts" "w_val v a = x" "w_traffic v = T"
    and a: "a \<in> tb_lines" "a \<notin> L" using assms(1) by (auto simp: sys_at_def)
  obtain t where t: "Driver_write rtl_eval c a y (tb_ports s) = Inr t" "rtl_looks tb_lines (view_op c PrWr a y v) t"
    using rtl.wr_law [OF apart_tb_lines v(1) assms(2) a(1)] by blast
  have "sys_at a sts' y T' L n out (s\<lparr>tb_ports := t\<rparr>)"
    using assms(1) t(2) v(2-) a assms(3,4) unfolding sys_at_def fresh_lines_def
    by (auto intro!: exI [of _ "view_op c PrWr a y v"] simp: view_op_sel)
  from assms(5) [OF this] t(1) show ?thesis by (simp add: tb_write_def)
qed

lemma sys_check:
  assumes "sys_at a sts x T L n out s"
    and "v_bus_rd_count (tb_ports s) = ucast (t_rd T) \<Longrightarrow> v_bus_rdx_count (tb_ports s) = ucast (t_rdx T)
      \<Longrightarrow> v_bus_upgr_count (tb_ports s) = ucast (t_upgr T) \<Longrightarrow> v_bus_wb_count (tb_ports s) = ucast (t_wb T) \<Longrightarrow> b"
    and "m = n + 1"
  shows "sys_at a sts x T L m out (tb_check b msg s)"
proof -
  have "tb_check b msg s = s\<lparr>g_checks := m\<rparr>"
    using assms(2) [OF sys_counters [OF assms(1)]] assms(1,3) by (simp add: tb_check_def Let_def sys_at_def)
  with assms(1) show ?thesis by (simp add: sys_at_def)
qed

lemma sys_states_are:
  assumes "sys_at a sts x T L n out s" and "list_all (\<lambda>(c, st). c < N_CORES \<and> State_val (sts ! c) = st) cs"
  shows "\<exists>s'. states_are rtl_eval a cs s = (True, s') \<and> sys_at a sts x T L n out s'"
  using assms
proof (induction cs arbitrary: s)
  case (Cons p cs)
  obtain c st where p: "p = (c, st)" by (cases p)
  obtain v where v: "rtl_looks tb_lines v (tb_ports s)" "fresh_lines L v" "w_states v a = sts" "w_val v a = x" "w_traffic v = T"
    and a: "a \<in> tb_lines" "a \<notin> L" using Cons.prems(1) by (auto simp: sys_at_def)
  obtain t where t: "Driver_state rtl_eval c a (tb_ports s) = (State_val (sts ! c), t)" "rtl_looks tb_lines v t"
    using rtl_state [OF v(1) _ a(1), of c] v(3) Cons.prems(2) p by auto
  have "sys_at a sts x T L n out (s\<lparr>tb_ports := t\<rparr>)" using Cons.prems(1) v t(2) a by (auto simp: sys_at_def)
  from Cons.IH [OF this] Cons.prems(2) t(1) p show ?case by auto
qed simp

lemma sys_check_states:
  assumes "sys_at a sts x T L n out s" and "list_all (\<lambda>(c, st). c < N_CORES \<and> State_val (sts ! c) = st) cs" and "m = n + 1"
  shows "sys_at a sts x T L m out (check_states rtl_eval a cs msg s)"
proof -
  obtain s' where s': "states_are rtl_eval a cs s = (True, s')" "sys_at a sts x T L n out s'" using sys_states_are [OF assms(1,2)] by blast
  have "sys_at a sts x T L m out (tb_check True msg s')" by (rule sys_check [OF s'(2) _ assms(3)]) (rule TrueI)
  with s'(1) show ?thesis by (simp add: check_states_def)
qed

lemma yields_check:
  assumes "sys_at a sts x T L n out s"
    and "v_bus_rd_count (tb_ports s) = ucast (t_rd T) \<Longrightarrow> v_bus_rdx_count (tb_ports s) = ucast (t_rdx T)
      \<Longrightarrow> v_bus_upgr_count (tb_ports s) = ucast (t_upgr T) \<Longrightarrow> v_bus_wb_count (tb_ports s) = ucast (t_wb T) \<Longrightarrow> b"
    and "m = n + 1" and "\<And>s'. sys_at a sts x T L m out s' \<Longrightarrow> yields Q (K s')"
  shows "yields Q (let s = tb_check b msg s in K s)"
  unfolding Let_def by (rule assms(4), rule sys_check [OF assms(1) _ assms(3)], rule assms(2))

lemma yields_states:
  assumes "sys_at a sts x T L n out s" and "list_all (\<lambda>(c, st). c < N_CORES \<and> State_val (sts ! c) = st) cs"
    and "m = n + 1" and "\<And>s'. sys_at a sts x T L m out s' \<Longrightarrow> yields Q (K s')"
  shows "yields Q (let s = check_states rtl_eval a cs msg s in K s)"
  unfolding Let_def by (rule assms(4), rule sys_check_states [OF assms(1-3)])

lemma yields_counter:
  assumes "sys_at a sts x T L n out s"
  shows "(sys_at a sts x T L n out s \<Longrightarrow> yields Q (K (ucast (t_rd T)))) \<Longrightarrow> yields Q (let k = v_bus_rd_count (tb_ports s) in K k)"
    "(sys_at a sts x T L n out s \<Longrightarrow> yields Q (K (ucast (t_rdx T)))) \<Longrightarrow> yields Q (let k = v_bus_rdx_count (tb_ports s) in K k)"
    "(sys_at a sts x T L n out s \<Longrightarrow> yields Q (K (ucast (t_upgr T)))) \<Longrightarrow> yields Q (let k = v_bus_upgr_count (tb_ports s) in K k)"
    "(sys_at a sts x T L n out s \<Longrightarrow> yields Q (K (ucast (t_wb T)))) \<Longrightarrow> yields Q (let k = v_bus_wb_count (tb_ports s) in K k)"
  using assms sys_counters [OF assms] by simp_all

lemmas line_eval = next_states_def peer_in_def fsm_defs txn_traffic_def traffic_defs N_CORES_def upt_rec

lemma yields_return_check:
  assumes "sys_at a sts x T L n out s"
    and "v_bus_rd_count (tb_ports s) = ucast (t_rd T) \<Longrightarrow> v_bus_rdx_count (tb_ports s) = ucast (t_rdx T)
      \<Longrightarrow> v_bus_upgr_count (tb_ports s) = ucast (t_upgr T) \<Longrightarrow> v_bus_wb_count (tb_ports s) = ucast (t_wb T) \<Longrightarrow> b"
    and "m = n + 1"
  shows "yields (fresh_at L m out) (Inr (tb_check b msg s))"
  by (rule yields_return, rule sys_at_end, rule sys_check [OF assms(1) _ assms(3)], rule assms(2))

lemma yields_return_states:
  assumes "sys_at a sts x T L n out s" and "list_all (\<lambda>(c, st). c < N_CORES \<and> State_val (sts ! c) = st) cs" and "m = n + 1"
  shows "yields (fresh_at L m out) (Inr (check_states rtl_eval a cs msg s))"
  by (rule yields_return, rule sys_at_end, rule sys_check_states [OF assms])

lemma sys_fill_passes:
  assumes "fresh_at (insert 0x040 L) 34 out s" and "0x040 \<in> tb_lines - L"
  shows "yields (fresh_at L 37 out) (sys_fill rtl_eval s)"
  unfolding sys_fill_def
  by (rule sys_at_start [OF assms], ((erule yields_read yields_write, simp add: N_CORES_def, simp add: line_eval, simp add: line_eval)
      | (erule yields_check, simp add: ucast_inc, simp) | (erule yields_states, simp add: N_CORES_def, simp) | erule yields_counter
      | (erule yields_return_check, simp add: ucast_inc, simp) | (erule yields_return_states, simp add: N_CORES_def, simp))+)

lemma sys_silent_passes:
  assumes "fresh_at (insert 0x080 L) 37 out s" and "0x080 \<in> tb_lines - L"
  shows "yields (fresh_at L 41 out) (sys_silent rtl_eval s)"
  unfolding sys_silent_def driver_counters
  by (rule sys_at_start [OF assms], ((erule yields_read yields_write, simp add: N_CORES_def, simp add: line_eval, simp add: line_eval)
      | (erule yields_check, simp add: ucast_inc, simp) | (erule yields_states, simp add: N_CORES_def, simp) | erule yields_counter
      | (erule yields_return_check, simp add: ucast_inc, simp) | (erule yields_return_states, simp add: N_CORES_def, simp))+)

lemma sys_upgrade_passes:
  assumes "fresh_at (insert 0x0C0 L) 41 out s" and "0x0C0 \<in> tb_lines - L"
  shows "yields (fresh_at L 43 out) (sys_upgrade rtl_eval s)"
  unfolding sys_upgrade_def driver_counters
  by (rule sys_at_start [OF assms], ((erule yields_read yields_write, simp add: N_CORES_def, simp add: line_eval, simp add: line_eval)
      | (erule yields_check, simp add: ucast_inc, simp) | (erule yields_states, simp add: N_CORES_def, simp) | erule yields_counter
      | (erule yields_return_check, simp add: ucast_inc, simp) | (erule yields_return_states, simp add: N_CORES_def, simp))+)

lemma sys_read_for_ownership_passes:
  assumes "fresh_at (insert 0x100 L) 43 out s" and "0x100 \<in> tb_lines - L"
  shows "yields (fresh_at L 45 out) (sys_read_for_ownership rtl_eval s)"
  unfolding sys_read_for_ownership_def driver_counters
  by (rule sys_at_start [OF assms], ((erule yields_read yields_write, simp add: N_CORES_def, simp add: line_eval, simp add: line_eval)
      | (erule yields_check, simp add: ucast_inc, simp) | (erule yields_states, simp add: N_CORES_def, simp) | erule yields_counter
      | (erule yields_return_check, simp add: ucast_inc, simp) | (erule yields_return_states, simp add: N_CORES_def, simp))+)

lemma sys_intervention_passes:
  assumes "fresh_at (insert 0x140 L) 45 out s" and "0x140 \<in> tb_lines - L"
  shows "yields (fresh_at L 49 out) (sys_intervention rtl_eval s)"
  unfolding sys_intervention_def driver_counters
  by (rule sys_at_start [OF assms], ((erule yields_read yields_write, simp add: N_CORES_def, simp add: line_eval, simp add: line_eval)
      | (erule yields_check, simp add: ucast_inc, simp) | (erule yields_states, simp add: N_CORES_def, simp) | erule yields_counter
      | (erule yields_return_check, simp add: ucast_inc, simp) | (erule yields_return_states, simp add: N_CORES_def, simp))+)

lemma sys_dirty_handover_passes:
  assumes "fresh_at (insert 0x180 L) 49 out s" and "0x180 \<in> tb_lines - L"
  shows "yields (fresh_at L 51 out) (sys_dirty_handover rtl_eval s)"
  unfolding sys_dirty_handover_def
  by (rule sys_at_start [OF assms], ((erule yields_read yields_write, simp add: N_CORES_def, simp add: line_eval, simp add: line_eval)
      | (erule yields_check, simp add: ucast_inc, simp) | (erule yields_states, simp add: N_CORES_def, simp) | erule yields_counter
      | (erule yields_return_check, simp add: ucast_inc, simp) | (erule yields_return_states, simp add: N_CORES_def, simp))+)


lemma ucast_plus: "(ucast (x + of_nat n :: u64) :: u32) = ucast x + of_nat n"
  by (induction n) (simp_all add: ucast_inc add.assoc [symmetric] add.commute [of 1])

lemma sbind_Inr: "sbind m Inr = m"
  by (cases m) simp_all

lemma yields_loop:
  assumes "P 0 s" and "\<And>i s. i < n \<Longrightarrow> P i s \<Longrightarrow> yields (P (Suc i)) (f i s)" and "\<And>s. P n s \<Longrightarrow> yields Q (K s)"
  shows "yields Q (sbind (for_each f [0..<n] s) K)"
  using for_each_upt [of P s n f] assms by (auto simp: yields_def)

definition ping_pong_at :: "traffic \<Rightarrow> u32 set \<Rightarrow> int \<Rightarrow> string \<Rightarrow> nat \<Rightarrow> rtl_hidden tb_state \<Rightarrow> bool" where
  "ping_pong_at T0 L n out i s \<longleftrightarrow> (\<exists>T. sys_at 0x1C0 (if i = 0 then [State_I, State_I, State_I, State_I] else [State_I, State_M, State_I, State_I])
     (if i = 0 then 0 else of_nat (2 * i - 1)) T L n out s \<and> t_rdx T = t_rdx T0 + of_nat (2 * i))"

lemma ping_pong_round:
  assumes "ping_pong_at T0 L n out i s"
  shows "yields (ping_pong_at T0 L n out (Suc i))
    (sbind (tb_write rtl_eval 0 0x1C0 (of_nat (2 * i)) s) (tb_write rtl_eval 1 0x1C0 (of_nat (2 * i + 1))))"
proof -
  obtain T where T: "sys_at 0x1C0 (if i = 0 then [State_I, State_I, State_I, State_I] else [State_I, State_M, State_I, State_I])
     (if i = 0 then 0 else of_nat (2 * i - 1)) T L n out s" "t_rdx T = t_rdx T0 + of_nat (2 * i)"
    using assms by (auto simp: ping_pong_at_def)
  have fin: "ping_pong_at T0 L n out (Suc i) s''"
    if "sys_at 0x1C0 [State_I, State_M, State_I, State_I] (of_nat (2 * i + 1)) T2 L n out s''" "t_rdx T2 = t_rdx T + 2" for T2 s''
    unfolding ping_pong_at_def by (intro exI [of _ T2]) (use that T(2) in \<open>simp add: algebra_simps\<close>)
  have "yields (ping_pong_at T0 L n out (Suc i)) (sbind (tb_write rtl_eval 1 0x1C0 (of_nat (2 * i + 1)) s') Inr)"
    if "sys_at 0x1C0 [State_M, State_I, State_I, State_I] x T1 L n out s'" "t_rdx T1 = t_rdx T + 1" for x T1 s'
    by (rule yields_write [OF that(1) _ refl refl], simp add: N_CORES_def, rule yields_return, rule fin)
      (use that(2) in \<open>simp_all add: line_eval\<close>, simp add: add.commute)
  then have one: "yields (ping_pong_at T0 L n out (Suc i)) (tb_write rtl_eval 1 0x1C0 (of_nat (2 * i + 1)) s')"
    if "sys_at 0x1C0 [State_M, State_I, State_I, State_I] x T1 L n out s'" "t_rdx T1 = t_rdx T + 1" for x T1 s'
    using that by (simp add: sbind_Inr)
  let ?sts = "if i = 0 then [State_I, State_I, State_I, State_I] else [State_I, State_M, State_I, State_I]"
  have st: "[State_M, State_I, State_I, State_I] = next_states 0 PrWr ?sts"
    and t: "t_rdx (txn_traffic (fsm_req_txn (?sts ! 0) PrWr) (peer_in (\<lambda>st. st = State_M) 0 ?sts) T) = t_rdx T + 1"
    by (simp_all add: line_eval)
  show ?thesis by (rule yields_write [OF T(1) _ st refl], simp add: N_CORES_def, erule one, rule t)
qed

lemma sys_ping_pong_passes:
  assumes "fresh_at (insert 0x1C0 L) 51 out s" and "0x1C0 \<in> tb_lines - L"
  shows "yields (fresh_at L 53 out) (sys_ping_pong rtl_eval s)"
proof -
  obtain T0 where s: "sys_at 0x1C0 [State_I, State_I, State_I, State_I] 0 T0 L 51 out s" by (rule sys_at_start [OF assms])
  show ?thesis unfolding sys_ping_pong_def driver_counters
  proof (rule yields_counter(2) [OF s], rule yields_loop [where P = "ping_pong_at T0 L 51 out"])
    show "ping_pong_at T0 L 51 out 0 s" using s by (auto simp: ping_pong_at_def)
    fix s' assume "ping_pong_at T0 L 51 out 20 s'"
    then obtain T where "sys_at 0x1C0 [State_I, State_M, State_I, State_I] 39 T L 51 out s'" and T: "t_rdx T = t_rdx T0 + of_nat 40"
      by (auto simp: ping_pong_at_def)
    then show "yields (fresh_at L 53 out) (let s = tb_check (v_bus_rdx_count (tb_ports s') - ucast (t_rdx T0) = 40) ''ping-pong: each write a BusRdX'' s'
        in sbind (tb_read rtl_eval 0 0x1C0 s) (\<lambda>(x, s). Inr (tb_check (x = 39) ''ping-pong final value'' s)))"
      by - (erule yields_check, simp only: T ucast_plus, simp, simp, erule yields_read, simp add: N_CORES_def, simp add: line_eval,
          simp add: line_eval, erule yields_return_check, simp, simp)
  qed (rule ping_pong_round)
qed

definition storm_states :: "nat \<Rightarrow> State list" where
  "storm_states i = map (\<lambda>k. if k < i then (if i = 1 then State_E else State_S) else State_I) [0..<4]"

definition storm_at :: "traffic \<Rightarrow> u32 set \<Rightarrow> int \<Rightarrow> string \<Rightarrow> nat \<Rightarrow> rtl_hidden tb_state \<Rightarrow> bool" where
  "storm_at T0 L n out i s \<longleftrightarrow>
     (\<exists>T. sys_at 0x200 (storm_states i) 0 T L n out s \<and> t_rd T = t_rd T0 + of_nat i \<and> t_rdx T = t_rdx T0)"

lemma storm_round:
  assumes "i < 4" and "storm_at T0 L n out i s"
  shows "yields (storm_at T0 L n out (Suc i)) (sbind (tb_read rtl_eval i 0x200 s) (\<lambda>(_, s). Inr s))"
proof -
  obtain T where T: "sys_at 0x200 (storm_states i) 0 T L n out s" "t_rd T = t_rd T0 + of_nat i" "t_rdx T = t_rdx T0"
    using assms(2) by (auto simp: storm_at_def)
  have "i = 0 \<or> i = 1 \<or> i = 2 \<or> i = 3" using assms(1) by linarith
  then have n: "next_states i PrRd (storm_states i) = storm_states (Suc i)" "fsm_req_txn (storm_states i ! i) PrRd = BusRd"
    "\<not> peer_in (\<lambda>st. st = State_M) i (storm_states i)"
    by (elim disjE; simp add: storm_states_def line_eval)+
  have fin: "storm_at T0 L n out (Suc i) s'" if "sys_at 0x200 (storm_states (Suc i)) 0 (add_rd (add_wb 0 T)) L n out s'" for s'
    unfolding storm_at_def by (intro exI conjI, rule that) (use T(2,3) in \<open>simp_all add: traffic_defs add.commute\<close>)
  show ?thesis
    by (rule yields_read [OF T(1) _ n(1) [symmetric] refl])
      (use assms(1) n in \<open>simp_all add: N_CORES_def txn_traffic_def yields_def fin\<close>)
qed

lemma sys_check_each:
  "sys_at a sts x T L n out s \<Longrightarrow> \<forall>c \<in> set cs. c < N_CORES \<and> State_val (sts ! c) = st
    \<Longrightarrow> sys_at a sts x T L (n + int (length cs)) out (fold (\<lambda>c. check_states rtl_eval a [(c, st)] (msg c)) cs s)"
proof (induction cs arbitrary: n s)
  case (Cons c cs)
  have "sys_at a sts x T L (n + 1) out (check_states rtl_eval a [(c, st)] (msg c) s)"
    by (rule sys_check_states [OF Cons.prems(1)]) (use Cons.prems(2) in simp_all)
  from Cons.IH [OF this] Cons.prems(2) show ?case by (simp add: add.assoc)
qed simp

lemma sys_reader_storm_passes:
  assumes "fresh_at (insert 0x200 L) 53 out s" and "0x200 \<in> tb_lines - L"
  shows "yields (fresh_at L 59 out) (sys_reader_storm rtl_eval s)"
proof -
  obtain T0 where s: "sys_at 0x200 [State_I, State_I, State_I, State_I] 0 T0 L 53 out s" by (rule sys_at_start [OF assms])
  show ?thesis unfolding sys_reader_storm_def driver_counters
  proof (rule yields_counter(1) [OF s], rule yields_counter(2) [OF s], rule yields_loop [where P = "storm_at T0 L 53 out"])
    show "storm_at T0 L 53 out 0 s" using s by (auto simp: storm_at_def storm_states_def upt_rec)
    fix s' assume "storm_at T0 L 53 out 4 s'"
    then obtain T where s': "sys_at 0x200 (storm_states 4) 0 T L 53 out s'" and T: "t_rd T = t_rd T0 + of_nat 4" "t_rdx T = t_rdx T0"
      by (auto simp: storm_at_def)
    have st: "\<forall>c \<in> set [0..<4]. c < N_CORES \<and> State_val (storm_states 4 ! c) = 1" by (simp add: storm_states_def N_CORES_def)
    show "yields (fresh_at L 59 out) (let s = tb_check (v_bus_rd_count (tb_ports s') - ucast (t_rd T0) = 4) ''reader storm: 4 BusRd'' s';
         s = tb_check (v_bus_rdx_count (tb_ports s) - ucast (t_rdx T0) = 0) ''reader storm: no BusRdX'' s
       in Inr (fold (\<lambda>c. check_states rtl_eval 0x200 [(c, 1)] (''reader core '' @ dec_of_nat c @ '' -> S'')) [0..<4] s))"
      by (rule yields_check [OF s'], simp only: T ucast_plus, simp, simp, erule yields_check, simp only: T, simp, simp,
          rule yields_return, rule sys_at_end, drule sys_check_each [OF _ st]) simp
  qed (rule storm_round)
qed

text \<open>The parts one after the other, each on its own line.\<close>

lemma yields_each:
  "yields P (f rtl_eval s) \<Longrightarrow> (\<And>s'. P s' \<Longrightarrow> yields Q (for_each (\<lambda>f. f rtl_eval) fs s'))
    \<Longrightarrow> yields Q (for_each (\<lambda>f. f rtl_eval) (f # fs) s)"
  by (auto simp: yields_def)

lemma test_system_passes:
  assumes "fresh_at tb_lines 34 out s"
  shows "yields (fresh_at {} 59 (out @ ''-- multi-core coherence (directed) --'' @ newline)) (test_system rtl_eval s)"
proof -
  let ?out = "out @ ''-- multi-core coherence (directed) --'' @ newline"
  have "fresh_at {0x040, 0x080, 0x0C0, 0x100, 0x140, 0x180, 0x1C0, 0x200} 34 ?out
      (tb_printf (''-- multi-core coherence (directed) --'' @ newline) s)"
    using assms unfolding fresh_at_def tb_printf_def by (auto simp: tb_lines_def)
  then show ?thesis unfolding test_system_def
    by - ((rule yields_each, erule sys_fill_passes sys_silent_passes sys_upgrade_passes sys_read_for_ownership_passes
          sys_intervention_passes sys_dirty_handover_passes sys_ping_pong_passes sys_reader_storm_passes, simp add: tb_lines_def)+,
        simp add: yields_def)
qed

text \<open>What a passing run prints.\<close>

definition passing_output :: string where
  "passing_output = ''==== MESI RTL testbench (Verilator) ===='' @ newline @ ''-- mesi_fsm transition table --'' @ newline
     @ ''-- store_buffer (bypass / FIFO drain / fence) --'' @ newline @ ''-- cpu_stub SEQUENTIAL stimulus --'' @ newline
     @ ''-- multi-core coherence (directed) --'' @ newline @ ''---- RTL: 59 checks, all passed ----'' @ newline
     @ ''RTL TESTBENCH PASSED'' @ newline"

lemma reset_unit:
  assumes "g_fail s = 0" and "g_checks s = n" and "tb_out s = out"
  shows "\<exists>z base. unit_at n out [] z 0 False base (on_ports (Driver_reset rtl_eval) s) \<and> \<not> fence_req z"
    and "fresh_at tb_lines n out (on_ports (Driver_reset rtl_eval) s)"
proof -
  let ?t = "Driver_reset rtl_eval (tb_ports s)"
  note r = Driver_reset_rtl [of "tb_ports s"]
  have "tb_outputs ?t = ?t" by (simp add: Driver_reset_def Driver_tick_def Let_def outputs_eval)
  moreover have "\<not> v_stub_done ?t" by (simp add: Driver_reset_def Let_def upt_rec)
  moreover have "ring_ok (h_sb (v_hidden ?t))" "ring_entries (h_sb (v_hidden ?t)) = []" using r(3) ring_reset by auto
  ultimately show "\<exists>z base. unit_at n out [] z 0 False base (on_ports (Driver_reset rtl_eval) s) \<and> \<not> fence_req z"
    using r(1,4-6) assms by (auto simp: unit_at_def on_ports_def Let_def ready_def)
  show "fresh_at tb_lines n out (on_ports (Driver_reset rtl_eval) s)"
    using rtl_looks_reset [of tb_lines "tb_ports s"] assms
    by (auto simp: fresh_at_def on_ports_def fresh_lines_def view_new_def intro!: exI [of _ view_new])
qed

lemma dec_59: "dec_of_int 59 = ''59''"
  by (simp add: dec_of_int_def dec_of_nat.simps digit_char_def)

lemma tb_main_passes: "tb_main rtl_eval t = Inr (0, passing_output)"
proof -
  define s0 where "s0 = tb_printf (''==== MESI RTL testbench (Verilator) ===='' @ newline) \<lparr>g_fail = 0, g_checks = 0, tb_out = [], tb_ports = t\<rparr>"
  have "g_fail s0 = 0" "g_checks s0 = 0" "tb_out s0 = ''==== MESI RTL testbench (Verilator) ===='' @ newline"
    by (simp_all add: s0_def tb_printf_def)
  from reset_unit(1) [OF this] obtain z base where
    "unit_at 0 (''==== MESI RTL testbench (Verilator) ===='' @ newline) [] z 0 False base (on_ports (Driver_reset rtl_eval) s0)" "\<not> fence_req z"
    by blast
  from test_store_buffer_passes [OF test_fsm_passes [OF this(1)] this(2)] obtain z' where
    "unit_at 30 (((''==== MESI RTL testbench (Verilator) ===='' @ newline) @ ''-- mesi_fsm transition table --'' @ newline)
       @ ''-- store_buffer (bypass / FIFO drain / fence) --'' @ newline) [] z' 0 False base
       (test_store_buffer rtl_eval (test_fsm rtl_eval (on_ports (Driver_reset rtl_eval) s0)))" "\<not> st_valid z'" by blast
  from test_cpu_stub_passes [OF this] obtain k b where
    u: "unit_at 34 ((((''==== MESI RTL testbench (Verilator) ===='' @ newline) @ ''-- mesi_fsm transition table --'' @ newline)
       @ ''-- store_buffer (bypass / FIFO drain / fence) --'' @ newline) @ ''-- cpu_stub SEQUENTIAL stimulus --'' @ newline) [] z' k False b
       (test_cpu_stub rtl_eval (test_store_buffer rtl_eval (test_fsm rtl_eval (on_ports (Driver_reset rtl_eval) s0))))" by blast
  let ?s = "test_cpu_stub rtl_eval (test_store_buffer rtl_eval (test_fsm rtl_eval (on_ports (Driver_reset rtl_eval) s0)))"
  have g: "g_fail ?s = 0" "g_checks ?s = 34" using u by (simp_all add: unit_at_def Let_def)
  from test_system_passes [OF reset_unit(2) [OF g refl]] obtain s' where
    s': "test_system rtl_eval (on_ports (Driver_reset rtl_eval) ?s) = Inr s'" "g_fail s' = 0" "g_checks s' = 59"
    "tb_out s' = tb_out ?s @ ''-- multi-core coherence (directed) --'' @ newline"
    by (auto simp: yields_def fresh_at_def)
  have "tb_out ?s = (((''==== MESI RTL testbench (Verilator) ===='' @ newline) @ ''-- mesi_fsm transition table --'' @ newline)
       @ ''-- store_buffer (bypass / FIFO drain / fence) --'' @ newline) @ ''-- cpu_stub SEQUENTIAL stimulus --'' @ newline"
    using u by (simp add: unit_at_def Let_def)
  with s'(2-) show ?thesis unfolding tb_main_def Let_def s0_def [symmetric] s'(1)
    by (simp add: passing_output_def tb_printf_def dec_59)
qed

end
