(* ===== verification/Test_Framework.thy ===== *)
theory Test_Framework
  imports Mesi_Prelude
begin

text \<open>
  The harness of the unit tests, \<^verbatim>\<open>sim/test_framework.hpp\<close>, and its entry point \<^verbatim>\<open>sim/tests/test_main.cpp\<close>. A test case
  is its name and what running it does: it returns, a failed \<^verbatim>\<open>CHECK\<close> throws \<^verbatim>\<open>AssertFail\<close>, or another exception escapes,
  of which the harness prints the message.
\<close>

datatype test_end = Returns | Assert_Fail string | Escapes string

record TestCase =
  tc_name :: string
  tc_run :: test_end

definition do_check :: "bool \<Rightarrow> string \<Rightarrow> string \<Rightarrow> int \<Rightarrow> string \<Rightarrow> test_end" where
  "do_check cond expr file line extra =
     (if \<not> cond then
        Assert_Fail (file @ '':'' @ dec_of_int line @ '': CHECK failed: '' @ expr @ (if extra \<noteq> [] then ''  ['' @ extra @ '']'' else []))
      else Returns)"

definition run_case :: "TestCase \<Rightarrow> int \<times> int \<times> string \<Rightarrow> int \<times> int \<times> string" where
  "run_case tc = (\<lambda>(passed, failed, out). case tc_run tc of
     Returns \<Rightarrow> (passed + 1, failed, out @ ''  [PASS] '' @ tc_name tc @ newline)
   | Assert_Fail msg \<Rightarrow> (passed, failed + 1, out @ ''  [FAIL] '' @ tc_name tc @ newline @ ''         '' @ msg @ newline)
   | Escapes what \<Rightarrow> (passed, failed + 1, out @ ''  [FAIL] '' @ tc_name tc @ newline @ ''         exception: '' @ what @ newline))"

definition run_all :: "TestCase list \<Rightarrow> int \<times> string" where
  "run_all registry = (case fold run_case registry (0, 0, []) of (passed, failed, out) \<Rightarrow>
     (failed, out @ ''---- '' @ dec_of_int passed @ '' passed, '' @ dec_of_int failed @ '' failed (''
        @ dec_of_nat (length registry) @ '' total) ----'' @ newline))"

definition test_main :: "TestCase list \<Rightarrow> int \<times> string" where
  "test_main registry = (case run_all registry of (failed, out) \<Rightarrow>
     (if failed = 0 then 0 else 1,
      ''==== MESI C++ model / layers test suite ===='' @ newline @ out
        @ (if failed = 0 then ''ALL TESTS PASSED'' @ newline else dec_of_int failed @ '' TEST(S) FAILED'' @ newline)))"

lemma run_cases_count:
  "fst (snd (fold run_case ts (p, f, out))) = f + int (length (filter (\<lambda>tc. tc_run tc \<noteq> Returns) ts))"
proof (induction ts arbitrary: p f out)
  case (Cons tc ts)
  then show ?case by (cases "tc_run tc") (simp_all add: run_case_def)
qed simp

lemma run_all_count: "fst (run_all ts) = int (length (filter (\<lambda>tc. tc_run tc \<noteq> Returns) ts))"
  using run_cases_count [of ts 0 0 "[]"] by (simp add: run_all_def case_prod_beta)

text \<open>The suite exits with 0 exactly when every registered test returns.\<close>

lemma test_main_exit: "fst (test_main ts) = 0 \<longleftrightarrow> list_all (\<lambda>tc. tc_run tc = Returns) ts"
  using run_all_count [of ts] by (auto simp: test_main_def case_prod_beta list_all_iff filter_empty_conv)

lemma do_check_returns: "do_check cond expr file line extra = Returns \<longleftrightarrow> cond"
  by (simp add: do_check_def)

end
