(* ===== verification/Examples.thy ===== *)
theory Examples
  imports Barrier Seqlock Lockfree_Stack Hazard_Pointers Model_Main Rtl_Consistency Rtl_Testbench Test_Framework
begin

text \<open>
  Small systems that the development instantiates its theorems on: two cores that have just been
  created, after one write, after a write and a remote read, and with the two litmus flags cleared.
\<close>

definition two_cores :: MesiSystem where
  "two_cores = \<lparr>s_bus = SnoopingBus_new 2, s_timestamp = 0, s_tracing = False, s_trace = [],
     s_prog_idx = [0, 0]\<rparr>"

definition written :: MesiSystem where
  "written = snd (exec_calls [Call_write 0 0x40 7] two_cores)"

definition shared_line :: MesiSystem where
  "shared_line = snd (exec_calls [Call_write 0 0x40 7, Call_read 1 0x44] two_cores)"

lemma two_cores_new: "MesiSystem_new 2 = Inr two_cores"
  by (simp add: MesiSystem_new_def checked_core_count_def two_cores_def numeral_2_eq_2)

lemma example_reachable: "reachable 2 two_cores" "reachable 2 written" "reachable 2 shared_line"
  unfolding written_def shared_line_def
  by (intro reachable_calls reach_new [OF two_cores_new]; simp)+

lemmas example_ok = example_reachable [THEN reachable_ok, THEN conjunct1]

lemma example_cores:
  "n_cores two_cores = 2" "n_cores written = 2" "n_cores shared_line = 2"
  using example_reachable [THEN reachable_ok] by simp_all

lemma example_values:
  "sys_val two_cores a = 0"
  "sys_val written = (\<lambda>_. 0)(0x40 := 7)"
  "sys_val shared_line = (\<lambda>_. 0)(0x40 := 7)"
proof -
  have z: "sys_val two_cores = (\<lambda>_. 0)" by (rule MesiSystem_newD [OF two_cores_new])
  then show "sys_val two_cores a = 0" by simp
  show "sys_val written = (\<lambda>_. 0)(0x40 := 7)" "sys_val shared_line = (\<lambda>_. 0)(0x40 := 7)"
    using exec_calls_refines [OF example_ok(1), of "[Call_write 0 0x40 7]"]
      exec_calls_refines [OF example_ok(1), of "[Call_write 0 0x40 7, Call_read 1 0x44]"]
    by (simp_all add: written_def shared_line_def example_cores flat_guard_def z fun_upd_def)
qed

lemma example_lines: "line_of 0x40 = 0x40" "line_of 0x44 = 0x40" "line_of 0x80 = 0x80"
  by (simp_all add: line_of_def LINE_BYTES_def)

lemma written_eq: "MesiSystem_write 0 0x40 7 two_cores = Inr written"
  using MesiSystem_write_ok [OF example_ok(1), of 0 "0x40" 7]
  by (auto simp: written_def lift_unit_def validate_core_eq example_cores)

lemma shared_line_eq: "MesiSystem_read 1 0x44 written = Inr (0, shared_line)"
  using MesiSystem_read_ok [OF example_ok(2), of 1 "0x44"] written_eq
  by (auto simp: shared_line_def lift_unit_def lift_value_def validate_core_eq example_cores example_values)

lemma written_states: "sys_state written 0 0x40 = State_M" "sys_state written 1 0x40 = State_I"
  using MesiSystem_write_effect [OF example_ok(1), of 0 "0x40" 7]
  by (auto simp: written_eq validate_core_eq example_cores example_lines)

lemma shared_states: "sys_state shared_line 0 0x40 = State_S" "sys_state shared_line 1 0x40 = State_S"
proof -
  have "other_copy (s_bus written) 1 0x40"
    using written_states(1) example_cores(2)
    by (auto simp: other_copy_def sys_state_def n_cores_def intro!: exI [of _ 0])
  with MesiSystem_read_effect [OF example_ok(2), of 1 "0x44"] written_states
  show "sys_state shared_line 0 0x40 = State_S" "sys_state shared_line 1 0x40 = State_S"
    by (auto simp: shared_line_eq validate_core_eq example_cores example_lines)
qed

section \<open>Runs\<close>

text \<open>Message passing in which the consumer sees the flag, and two workers that contend for a lock.\<close>

lemma replicate_two: "replicate 2 x = [x, x]"
  by (simp add: numeral_2_eq_2)

lemma pool_exists:
  assumes "map_option snd (pool_run act ks st) = Some ws"
  shows "\<exists>s. (pool_step act)\<^sup>*\<^sup>* st (s, ws)"
proof -
  obtain s where "pool_run act ks st = Some (s, ws)" using assms by auto
  then show ?thesis by (blast dest: pool_run_steps)
qed

lemma mach_exists:
  assumes "map_option (\<lambda>m. (finished m, map th_regs (m_threads m))) (mach_run cs m) = Some (True, rs)"
  shows "\<exists>m'. mach_step\<^sup>*\<^sup>* m m' \<and> finished m' \<and> map th_regs (m_threads m') = rs"
proof -
  obtain m' where "mach_run cs m = Some m'" "finished m'" "map th_regs (m_threads m') = rs" using assms by auto
  then show ?thesis by (blast dest: mach_run_steps)
qed

lemma message_run:
  "\<exists>m. mach_step\<^sup>*\<^sup>* (litmus_machine (\<lambda>_. 0) [publish 0x40 0x80 42, consume 0x40 0x80] two_cores) m
     \<and> finished m \<and> map th_regs (m_threads m) = [[], [1, 42]]"
  by (rule mach_exists [where cs = "[(0, False), (0, False), (0, True), (0, True), (1, False), (1, False)]"])
    (simp add: two_cores_def publish_def consume_def exec_simps cong: strict_cong)

lemma tas_run:
  "\<exists>s. (pool_step (tas_worker 0x40 0x80))\<^sup>*\<^sup>* (two_cores, worker_pool Tas_cas 1 2) (s, [W_done, W_done])"
  by (rule pool_exists [where ks = "[0, 1, 0, 0, 1, 0, 1, 1, 1, 1, 1]"])
    (simp add: two_cores_def exec_simps replicate_two cong: strict_cong)

lemma tas_inside:
  "\<exists>s. (pool_step (tas_worker 0x40 0x80))\<^sup>*\<^sup>* (two_cores, worker_pool Tas_cas 1 2)
     (s, [W_read 0 (), W_lock 0 Tas_spin])"
  by (rule pool_exists [where ks = "[0, 1]"])
    (simp add: two_cores_def exec_simps replicate_two cong: strict_cong)

lemma ticket_run:
  "\<exists>s. (pool_step (ticket_worker 0x40 0x80 0xC0))\<^sup>*\<^sup>* (two_cores, worker_pool Ticket_take 1 2) (s, [W_done, W_done])"
  by (rule pool_exists [where ks = "[1, 0, 0, 1, 1, 1, 1, 0, 0, 0, 0]"])
    (simp add: two_cores_def exec_simps replicate_two cong: strict_cong)

lemma ticket_waiting:
  "\<exists>s. (pool_step (ticket_worker 0x40 0x80 0xC0))\<^sup>*\<^sup>* (two_cores, worker_pool Ticket_take 1 2)
     (s, [W_lock 0 (Ticket_wait 1), W_read 0 0])"
  by (rule pool_exists [where ks = "[1, 0, 1]"])
    (simp add: two_cores_def exec_simps replicate_two cong: strict_cong)

lemma fenced_run:
  "\<exists>m. mach_step\<^sup>*\<^sup>* (litmus_machine (\<lambda>_. 0) [raise_and_look 0x40 0x80, raise_and_look 0x80 0x40] two_cores) m
     \<and> finished m \<and> map th_regs (m_threads m) = [[0], [1]]"
  by (rule mach_exists [where cs = "[(0, False), (1, False), (0, False), (0, False), (0, False), (1, False), (1, False), (1, False)]"])
    (simp add: two_cores_def raise_and_look_def exec_simps cong: strict_cong)

text \<open>Two threads at a barrier: the second arrives while the first spins, and leaves.\<close>

definition two_barrier :: Barrier where
  "two_barrier = \<lparr>count_addr = 0x40, sense_addr = 0x80, bar_n = 2\<rparr>"

lemma two_barrier_ready: "\<exists>s. Barrier_init two_barrier 0 two_cores = Inr s \<and> bar_ready two_barrier 2 s"
  using Barrier_init_ready [of 2 two_cores two_barrier 0] example_reachable(1)
  by (simp add: two_barrier_def validate_core_eq example_cores)

lemma barrier_run:
  assumes "bar_ready two_barrier 2 s"
  shows "\<exists>s'. (pool_step (bar_act two_barrier))\<^sup>*\<^sup>* (s, replicate 2 bar_fresh)
     (s', [\<lparr>b_done = 0, b_pc = Bar_spin, b_sense = 1\<rparr>, \<lparr>b_done = 1, b_pc = Bar_enter, b_sense = 1\<rparr>])"
proof -
  have "flat_pool s (length (replicate 2 bar_fresh)) (\<lambda>_. True)"
    using assms by (simp add: bar_ready_def flat_pool_def validate_core_eq)
  from bar.flat_run_pool [OF this, of "[0, 0, 1, 1, 1, 1]" two_barrier] assms show ?thesis
    by (auto simp: bar_ready_def two_barrier_def replicate_two flat_bar_def bar_next_def bar_fresh_def)
qed

text \<open>A reader of a seqlock that is disturbed by the writer, tries again and gets the new version.\<close>

definition two_words :: Seqlock where
  "two_words = \<lparr>seq_addr = 0x40, data_base = 0x80, n_words = 2\<rparr>"

lemma seqlock_run:
  "\<exists>s. (pool_step (seq_act two_words))\<^sup>*\<^sup>* (two_cores, Seq_writer [[5, 6]] Sw_read # replicate 1 (Seq_reader Sr_read [] []))
     (s, [Seq_writer [] Sw_read, Seq_reader Sr_read [5, 6] [[5, 6]]])"
proof -
  let ?ws = "[Seq_writer [[5, 6]] Sw_read, Seq_reader Sr_read [] []]"
  have "flat_pool two_cores (length ?ws) (\<lambda>_. n_words two_words \<le> 2 ^ 29)"
    using example_ok(1) by (simp add: flat_pool_def validate_core_eq example_cores two_words_def)
  from seql.flat_run_pool [OF this, of "[1, 1, 1, 0, 0, 0, 0, 0, 0, 0, 1, 1, 1, 1, 1, 1, 1, 1, 1]"] show ?thesis
    by (auto simp: example_values two_words_def word_at_def exec_simps replicate_two)
qed

text \<open>Two pushes that contend for the head of a stack, and a pop.\<close>

definition small_stack :: LockFreeStack where
  "small_stack = \<lparr>top_addr = 0x40, alloc_addr = 0x80, node_base = 0x100\<rparr>"

lemma small_stack_layout: "stack_layout small_stack 2"
proof -
  have "k = 1 \<or> k = 2" if "1 \<le> k" "k \<le> 2" for k :: nat using that by linarith
  then show ?thesis by (fastforce simp: stack_layout_def small_stack_def node_def)
qed

lemma walk_2: "walk m 2 a = (if a = 0 then [] else m (a + 4) # (if m a = 0 then [] else [m (m a + 4)]))"
  by (simp add: numeral_2_eq_2)

lemma small_stack_ready:
  "\<exists>s. LockFreeStack_init small_stack 0 two_cores = Inr s \<and> stack_ready small_stack 2 s \<and> n_cores s = 2"
  using LockFreeStack_init_ready [OF example_ok(1) _ small_stack_layout, of 0] by (simp add: validate_core_eq example_cores)

lemma stack_run:
  assumes "stack_ready small_stack 2 s" and "n_cores s = 2"
  shows "\<exists>s'. (pool_step (stack_act small_stack))\<^sup>*\<^sup>*
      (s, map (\<lambda>ops. st_next ops []) [[Op_push 7], [Op_push 8, Op_pop]]) (s', [St_done [], St_done [Some 7]])
    \<and> sys_val s' 0x40 = 0x110 \<and> sys_val s' 0x114 = 8 \<and> sys_val s' 0x110 = 0"
proof -
  let ?ws = "map (\<lambda>ops. st_next ops []) [[Op_push 7], [Op_push 8, Op_pop]]"
  have "flat_pool s (length ?ws) (\<lambda>_. True)" using assms by (simp add: stack_ready_def flat_pool_def validate_core_eq)
  from stk.flat_run_pool [OF this, of "[0, 0, 0, 1, 1, 1, 1, 1, 0, 0, 0, 0, 0, 1, 1, 1, 1]" small_stack] assms(1)
  show ?thesis by (auto simp: stack_ready_def small_stack_def push_next_def pop_next_def)
qed

text \<open>A reader that uses an object while the writer retires it.\<close>

definition two_slots :: HazardDomain where
  "two_slots = \<lparr>hazard_base = 0x40, n_threads = 2\<rparr>"

lemma hazard_run:
  "\<exists>s. (pool_step (hz_act two_slots 0x80))\<^sup>*\<^sup>*
     (two_cores, Hz_writer (Wr_next [(0xC0, 1), (0x100, 2)] []) # replicate 1 (Hz_reader (Rd_protect Hp_read [])))
     (s, [Hz_writer (Wr_next [] [0, 0xC0]), Hz_reader (Rd_protect Hp_read [1])])"
proof -
  let ?ws = "[Hz_writer (Wr_next [(0xC0, 1), (0x100, 2)] []), Hz_reader (Rd_protect Hp_read [])]"
  have "flat_pool two_cores (length ?ws) (validate_tid two_slots)"
    using example_ok(1) by (auto simp: flat_pool_def validate_core_eq example_cores validate_tid_def two_slots_def)
  from haz.flat_run_pool [OF this, of "[0, 0, 0, 0, 1, 1, 1, 1, 0, 0, 0, 0, 0, 0, 1, 1]" "0x80"] show ?thesis
    by (auto simp: example_values two_slots_def flat_hazarded_def exec_simps)
qed

section \<open>The hardware after one write\<close>

definition rtl_boot :: rtl_regs where
  "rtl_boot = \<lparr>r_l1 = (\<lambda>_. \<lparr>tag_arr = (\<lambda>_. 0), state_arr = (\<lambda>_. State_I), data_arr = (\<lambda>_. 0)\<rparr>), r_ptr = 0, r_mem = (\<lambda>_. 0),
     r_perf = perf_reset\<rparr>"

definition write_request :: "nat set \<Rightarrow> rtl_inputs" where
  "write_request K = \<lparr>i_req = (\<lambda>k. k \<in> K), i_we = (\<lambda>_. True), i_addr = (\<lambda>_. 0x40), i_wdata = (\<lambda>_. 7)\<rparr>"

definition one_write :: rtl_regs where
  "one_write = rtl_clock (write_request {0}) (rtl_reset rtl_boot)"

lemma one_write_reachable: "rtl_reachable one_write"
  unfolding one_write_def by (intro rtl_reach_clock rtl_reach_reset)

lemma one_write_state: "lk_state (r_l1 one_write 0) 0x40 = State_M"
proof -
  have "alone (write_request {0}) 0" "i_addr (write_request {0}) 0 \<in> {0x40}"
    by (simp_all add: alone_def write_request_def N_CORES_def)
  from alone_clock [OF this(1) _ regs_look_reset this(2)] have "regs_look {0x40}
      (view_op 0 (l1_pr (write_request {0}) 0) (i_addr (write_request {0}) 0) (i_wdata (write_request {0}) 0) view_new) one_write"
    by (simp add: one_write_def apart_def)
  from regs_lookD(1) [OF this, of "0x40" 0] show ?thesis
    by (simp add: view_op_sel nth_next_states N_CORES_def l1_pr_def write_request_def fsm_pr_next_def)
qed

end
