(* ===== verification/Spec2Isabelle.thy ===== *)
theory Spec2Isabelle
  imports Examples
begin

text \<open>
  Verification of the MESI cache-coherence model.

  \<^bold>\<open>The program.\<close> A C++ model of a multi-core memory system: cache controllers with the MESI protocol
  (\<^verbatim>\<open>model/cache_controller.*\<close>) on a snooping bus (\<^verbatim>\<open>model/snooping_bus.*\<close>) in front of a memory
  (\<^verbatim>\<open>model/memory.hpp\<close>), with performance counters (\<^verbatim>\<open>model/perf.hpp\<close>). The facade \<^verbatim>\<open>MesiSystem\<close>
  (\<^verbatim>\<open>model/mesi_system.hpp\<close>) serialises reads, writes, compare-and-swaps and fetch-and-adds with a mutex and
  records a trace (\<^verbatim>\<open>model/trace.hpp\<close>) that two checkers judge (\<^verbatim>\<open>model/sc_checker.*\<close>). On top of it stand the
  TSO store buffer (\<^verbatim>\<open>model/tso.hpp\<close>), the workloads (\<^verbatim>\<open>sim/workloads.hpp\<close>), the synchronisation primitives
  (\<^verbatim>\<open>primitives/\<close>) and the demo runner (\<^verbatim>\<open>model/model_main.cpp\<close>). Beside it is the same machine as hardware (\<^verbatim>\<open>rtl/\<close>):
  four caches, an arbitrated bus that serves one transaction per cycle, memory, counters, and a store
  buffer. Verilator turns it into a C++ class that the driver (\<^verbatim>\<open>sim/cpu_driver.hpp\<close>) and the testbench
  (\<^verbatim>\<open>sim/tb_top.cpp\<close>) operate through its ports.

  \<^bold>\<open>Theories and the code they model.\<close>

  \<^item> \<open>Mesi_Prelude\<close>: word types, exceptions as \<open>exn + 'a\<close>, number printing, lemmas on lists, folds, loops
    and runs in sequence. Its collections \<open>frame_simps\<close>, \<open>effect_simps\<close> and \<open>exec_simps\<close> are filled by the
    components.
  \<^item> \<open>Mesi_Types\<close>, \<open>Mesi_Memory\<close>, \<open>Mesi_Perf\<close>: \<^verbatim>\<open>mesi_types.hpp\<close>, \<^verbatim>\<open>memory.hpp\<close>, \<^verbatim>\<open>perf.hpp\<close>. Enumerations are
    datatypes with their values, addresses and data 32-bit words, counters 64-bit words that wrap around.
  \<^item> \<open>Cache_Controller\<close>, \<open>Bus_State\<close>, \<open>Snooping_Bus\<close>: the records and every method of the controller and of the
    bus. The back pointer of a controller to its bus is the bus state passed along, so \<open>processor_read\<close>,
    \<open>acquire_exclusive\<close>, \<open>processor_write\<close> and \<open>snoop\<close> transform a \<open>SnoopingBus\<close>.
  \<^item> \<open>Coherence\<close>, \<open>Coherence_Ops\<close>: the invariant \<open>coherent\<close> (one writer, copies agree with the memory or with
    the owner, registered words), kept by every bus operation and from every snoop order.
  \<^item> \<open>Mesi_System\<close>: the facade. One call under the mutex is one function on the record \<open>MesiSystem\<close>; \<open>reachable\<close>
    are the states any sequence of calls leads to. A new system refines one flat memory, \<open>sys_val\<close>.
  \<^item> \<open>Bus_Traffic\<close>, \<open>Workloads\<close>: what an operation adds to the counters and how it moves states; the four
    workloads of \<^verbatim>\<open>workloads.hpp\<close>.
  \<^item> \<open>Sc_Checker\<close>, \<open>System_Traces\<close>: \<^verbatim>\<open>check_serial_order\<close> and the backtracking \<^verbatim>\<open>exists_sc_order\<close>, which is
    sound and complete; what a system that traces from the start records is accepted, and what the linear
    check says of a recording that starts late.
  \<^item> \<open>Store_Buffer\<close>, \<open>Tso_Machine\<close>, \<open>Litmus_Trials\<close>: the buffer with both drain modes, which keeps to its depth
    and writes every store once (\<open>sb_moves\<close> relates the calls on a buffer to the reads and writes it makes on
    the system); cores with buffers as a step relation that refines an abstract TSO machine, and the litmus trials of the demo runner.
  \<^item> \<open>Mutex\<close>, \<open>Flat_Threads\<close>: threads over the coherent memory. A function that runs on a thread is cut at its
    memory accesses, because each access is one critical section; \<open>pool_step\<close> lets any thread do its next
    access. The locales \<open>mutex\<close> (mutual exclusion and an exact counter from a
    lock's protocol) and \<open>flat_threads\<close> carry an invariant of the flat memory over all interleavings and are
    interpreted for the two locks, the barrier, the seqlock, the
    stack and the hazard pointers.
  \<^item> \<open>Barrier\<close>, \<open>Seqlock\<close>, \<open>Lockfree_Stack\<close>, \<open>Hazard_Pointers\<close>: the primitives and their correctness.
  \<^item> \<open>Model_Main\<close>: \<^verbatim>\<open>main\<close> of the demo runner, as a relation with one result per schedule.
  \<^item> \<open>Rtl_Fsm\<close>, \<open>Rtl_Store_Buffer\<close>, \<open>Rtl_System\<close>: the hardware. Registers are records, a net is a function of the
    inputs and the registers, a clock edge is a function on the registers. The transition table agrees with
    the C++ controller, the ring of the store buffer refines the C++ buffer in FIFO mode, and no two caches
    own a line, from any simultaneous requests.
  \<^item> \<open>Rtl_Driver\<close>: every method of \<^verbatim>\<open>Driver\<close>, for any \<^verbatim>\<open>eval\<close> of the generated class \<^verbatim>\<open>Vmesi_tb_top\<close>, which is a parameter;
    \<open>rtl_eval\<close> is the one of \<^verbatim>\<open>sim/mesi_tb_top.sv\<close>.
  \<^item> \<open>Mesi_Device\<close>, \<open>Rtl_Agreement\<close>: the locale \<open>mesi_device\<close> is the contract of a four-core coherent memory seen by a
    client that does one operation at a time: states, values, bus counters, and hits, misses and invalidations
    of every core. It is interpreted on \<open>MesiSystem\<close> and on the driver with the hardware, so both return and
    count the same.
  \<^item> \<open>Rtl_Memory\<close>, \<open>Rtl_Consistency\<close>: the hardware under simultaneous requests of all cores. One cycle completes
    some reads and some writes; \<open>holds_mem\<close> says which flat memory the registers hold and is kept with the
    writes of the cycle done. The trace of completed operations, \<open>rtl_trace\<close>, replays on the flat memory and
    is accepted by the C++ checker. \<open>fill_drops_dirty\<close> shows why the addresses must be in different sets.
  \<^item> \<open>Rtl_Liveness\<close>: the arbiter is fair and every held request is served, so the driver's loop ends.
  \<^item> \<open>Rtl_Testbench\<close>: \<^verbatim>\<open>tb_top.cpp\<close> statement by statement, and its passing run on the hardware.
  \<^item> \<open>Test_Framework\<close>: the harness of the unit tests.
  \<^item> \<open>Examples\<close>: small systems and runs on which the theorems are instantiated.

  \<^bold>\<open>Bounds and fuel.\<close> All recursion is structural or has a measure. \<open>solo k\<close> runs an uninterrupted call for at
  most \<open>k\<close> steps; the seqlock theorem gives the exact \<open>k\<close>. Loops that spin are step relations; that they
  can end is proved for the trials of the demo runner, and that nobody is stuck for the barrier.
  Where the code computes with \<^verbatim>\<open>int\<close> and the result may not fit (\<^verbatim>\<open>2 * i\<close> and \<^verbatim>\<open>4 * i\<close> in the workloads and the
  seqlock), the model computes with \<open>int_mul\<close> and \<open>int_add\<close>, which give the error \<open>Signed_Overflow\<close> for what the
  language leaves undefined; unsigned arithmetic wraps around in words. Where \<^verbatim>\<open>max_core + 1\<close> of the search would
  overflow its result is \<open>None\<close>, as for the negative core id that indexes outside its vectors.
  The theorems name the ranges that 32-bit arithmetic needs (\<open>2 ^ 30\<close> rounds of ping-pong, \<open>2 ^ 29\<close> words of a
  seqlock or of a producer, core ids below \<open>2 ^ 31 - 1\<close>, fewer than \<open>2 ^ 32\<close> threads, fewer than
  \<open>2 ^ 31\<close> seqlock versions, fewer than \<open>2 ^ 29\<close> stack nodes, \<open>2 ^ 64\<close> trace events). The driver waits at most 1000
  cycles; 197 are enough. The hardware holds one word per line and one line per set, and a fill drops
  what the set held, so it is compared with the C++ model on addresses in pairwise different sets; its
  32-bit counters are the 64-bit ones of the model modulo \<open>2 ^ 32\<close>.

  \<^bold>\<open>Parameters.\<close> \<^verbatim>\<open>std::shuffle\<close> and \<^verbatim>\<open>std::mt19937_64\<close> are functions the definitions take: a shuffle permutes
  its list (\<open>shuffles_ok\<close>), draws are arbitrary. \<^verbatim>\<open>std::sort\<close> of the checkers is the argument \<open>srt\<close>: any function that
  returns its list with ascending keys (\<open>sort_ok\<close>); how it orders equal keys is left open. The scheduler is the nondeterminism of the step relations. \<^verbatim>\<open>eval\<close> of
  the class that Verilator generates is the argument \<open>ev\<close> of the driver and the testbench.

  \<^bold>\<open>Not modelled.\<close> Console output of the demo runner and the columns of floating-point rates in two of its CSV
  files; the bodies of the unit tests under \<^verbatim>\<open>sim/tests/\<close>, which exercise the modelled functions, and the macros
  that register them; the plotting and build scripts. Of the C++ sources only include lines,
  class heads, accessors that return a member (the selectors of the records) and the hook \<^verbatim>\<open>sc_time_stamp\<close> are left.
\<close>

section \<open>Properties\<close>

text \<open>
  C1: In every state a client can bring a system into, under any shuffle of the snoop order, a core
  that has a line Modified or Exclusive is the only core that has it.
\<close>

theorem single_owner:
  assumes "reachable n s" and "validate_core s (int i)" and "validate_core s (int j)" and "i \<noteq> j"
    and "sys_state s i l = State_M \<or> sys_state s i l = State_E"
  shows "sys_state s j l = State_I"
proof -
  have "coherent (s_bus s)" "i < bus_n_cores (s_bus s)" "j < bus_n_cores (s_bus s)"
    using reachable_ok [OF assms(1)] assms(2,3) by (simp_all add: sys_ok_def validate_core_nat)
  from single_writerD [OF coherent_lineD(1) [OF coherentD(2) [OF this(1)]] this(2,3) assms(4), of l] assms(5)
  show ?thesis by (auto simp: sys_state_def)
qed

theorem single_owner_witness: "sys_state written 0 0x40 = State_M \<and> sys_state written 1 0x40 = State_I"
  using single_owner [OF example_reachable(2), of 0 1 "0x40"] written_states(1)
  by (simp add: validate_core_eq example_cores)

text \<open>
  C2: In every reachable state, a core that has a valid copy of a line holds the current value of
  every word of the line: what its controller would return on a hit is the value every other core
  reads.
\<close>

theorem valid_copy_current:
  assumes "reachable n s" and "validate_core s (int i)" and "sys_state s i (line_of a) \<noteq> State_I"
  shows "peek (controller (s_bus s) i) a = sys_val s a"
proof -
  have "coherent (s_bus s)" "i < bus_n_cores (s_bus s)"
    using reachable_ok [OF assms(1)] assms(2) by (simp_all add: sys_ok_def validate_core_nat)
  from processor_read_coherent(1) [OF this, of a] processor_read_hit [of "s_bus s" i a] assms(3)
  show ?thesis by (simp add: sys_state_def sys_val_def)
qed

theorem valid_copy_current_witness:
  "peek (controller (s_bus shared_line) 0) 0x40 = 7 \<and> peek (controller (s_bus shared_line) 1) 0x40 = 7"
  using valid_copy_current [OF example_reachable(3), of 0 "0x40"]
    valid_copy_current [OF example_reachable(3), of 1 "0x40"] shared_states
  by (simp add: validate_core_eq example_cores example_lines example_values)

text \<open>
  C3: A new system of n cores answers any sequence of calls (reads, writes, compare-and-swaps, fetch-
  and-adds, fences, calls with an invalid core id, changes of tracing, race injection and
  registration) exactly as one flat memory that starts zeroed does, and its value function is that
  memory.
\<close>

theorem flat_memory_refinement:
  assumes "MesiSystem_new n = Inr s" and "list_all call_ok cs"
  shows "flat_calls n cs (\<lambda>_. 0) = (fst (exec_calls cs s), sys_val (snd (exec_calls cs s)))"
  using exec_calls_refines [OF MesiSystem_newD(1) [OF assms(1)] assms(2)] MesiSystem_newD [OF assms(1)] by simp

theorem flat_memory_refinement_witness:
  "fst (exec_calls [Call_write 0 0x40 7, Call_faa 1 0x40 5, Call_cas 0 0x40 12 1, Call_read 2 0x40, Call_read 1 0x40]
     two_cores) = [Done, Value 7, Swapped 12 True, Thrown core_error, Value 1]"
  using flat_memory_refinement [OF two_cores_new, of "[Call_write 0 0x40 7, Call_faa 1 0x40 5,
      Call_cas 0 0x40 12 1, Call_read 2 0x40, Call_read 1 0x40]"]
  by (simp add: flat_guard_def del: exec_calls.simps)

text \<open>
  C4: The C++ model and the hardware agree: a new MesiSystem of four cores and the hardware after
  Driver::reset, driven by Driver::read and Driver::write, run any list of operations on addresses
  in pairwise different cache sets without an exception, return the same values, and end with the
  same MESI state of every line in every core, the same four bus counters and the same hit, miss and
  invalidation counters of every core (modulo 2^32).
\<close>

theorem rtl_model_agree:
  assumes "apart A" and "list_all (op_within A) ops" and "MesiSystem_new 4 = Inr s"
  shows "\<exists>out s' t'. run_ops (\<lambda>c. MesiSystem_read (int c)) (\<lambda>c. MesiSystem_write (int c)) ops s = Inr (out, s')
    \<and> run_ops (Driver_read rtl_eval) (Driver_write rtl_eval) ops (Driver_reset rtl_eval t) = Inr (out, t')
    \<and> (\<forall>a k. a \<in> A \<and> k < N_CORES \<longrightarrow> fst (Driver_state rtl_eval k a t') = State_val (sys_state s' k (line_of a)))
    \<and> Driver_bus_rd t' = ucast (t_rd (sys_traffic s')) \<and> Driver_bus_rdx t' = ucast (t_rdx (sys_traffic s'))
    \<and> Driver_bus_upgr t' = ucast (t_upgr (sys_traffic s')) \<and> Driver_bus_wb t' = ucast (t_wb (sys_traffic s'))
    \<and> (\<forall>k. k < N_CORES \<longrightarrow> Driver_l1_hit k t' = ucast (n_hit (sys_counts s' k))
        \<and> Driver_l1_miss k t' = ucast (n_miss (sys_counts s' k)) \<and> Driver_inv_count k t' = ucast (n_inv (sys_counts s' k)))"
proof -
  have "MesiSystem_new (int N_CORES) = Inr s" using assms(3) by (simp add: N_CORES_def)
  from model_and_rtl [OF assms(1,2) this, of t] show ?thesis by blast
qed

theorem rtl_model_agree_witness:
  "\<forall>t. \<exists>s out s' t'. MesiSystem_new 4 = Inr s
    \<and> run_ops (\<lambda>c. MesiSystem_read (int c)) (\<lambda>c. MesiSystem_write (int c)) [Dev_write 0 0x40 7, Dev_read 1 0x40] s = Inr (out, s')
    \<and> run_ops (Driver_read rtl_eval) (Driver_write rtl_eval) [Dev_write 0 0x40 7, Dev_read 1 0x40] (Driver_reset rtl_eval t) = Inr (out, t')
    \<and> Driver_bus_wb t' = ucast (t_wb (sys_traffic s'))"
proof
  fix t
  obtain s where s: "MesiSystem_new 4 = Inr s" by (simp add: MesiSystem_new_def checked_core_count_def)
  have "apart {0x40, 0x80}" "list_all (op_within {0x40, 0x80}) [Dev_write 0 0x40 7, Dev_read 1 0x40]"
    by (simp_all add: apart_def addr_index_def N_CORES_def)
  from rtl_model_agree [OF this s, of t] s show "\<exists>s out s' t'. MesiSystem_new 4 = Inr s
    \<and> run_ops (\<lambda>c. MesiSystem_read (int c)) (\<lambda>c. MesiSystem_write (int c)) [Dev_write 0 0x40 7, Dev_read 1 0x40] s = Inr (out, s')
    \<and> run_ops (Driver_read rtl_eval) (Driver_write rtl_eval) [Dev_write 0 0x40 7, Dev_read 1 0x40] (Driver_reset rtl_eval t) = Inr (out, t')
    \<and> Driver_bus_wb t' = ucast (t_wb (sys_traffic s'))" by blast
qed

text \<open>
  C5: The hardware is one memory for four cores that request at the same time: for any requests to
  addresses in pairwise different cache sets, the operations completed since reset, cycle by cycle
  with the reads of a cycle before its writes, replay on one flat memory that starts with zeros;
  afterwards every valid copy holds the value of the flat memory, and so does the memory for every
  address that no cache has Modified.
\<close>

theorem rtl_flat_memory:
  assumes "apart A" and "\<And>n. requests_in A (f n)"
  shows "\<exists>m. replay zeroed (rtl_trace f (rtl_reset r) n) = Some m
    \<and> (\<forall>a k. a \<in> A \<and> k < N_CORES \<and> lk_state (r_l1 (rtl_run f (rtl_reset r) n) k) a \<noteq> State_I
        \<longrightarrow> lk_data (r_l1 (rtl_run f (rtl_reset r) n) k) a = m a)
    \<and> (\<forall>a. a \<in> A \<and> (\<forall>k. k < N_CORES \<longrightarrow> lk_state (r_l1 (rtl_run f (rtl_reset r) n) k) a \<noteq> State_M)
        \<longrightarrow> r_mem (rtl_run f (rtl_reset r) n) (midx a) = m a)"
proof -
  obtain m where "replay zeroed (rtl_trace f (rtl_reset r) n) = Some m" and h: "holds_mem A m (rtl_run f (rtl_reset r) n)"
    using rtl_trace_replay [OF assms(1), of f r n] assms(2) by blast
  with holds_memD(2,3) [OF h] show ?thesis by blast
qed

theorem rtl_flat_memory_witness:
  "\<exists>m. replay zeroed (rtl_trace (\<lambda>_. write_request {0}) (rtl_reset rtl_boot) 1) = Some m
    \<and> lk_state (r_l1 one_write 0) 0x40 = State_M \<and> lk_data (r_l1 one_write 0) 0x40 = m 0x40"
proof -
  have "requests_in {0x40} (write_request {0})" "apart {0x40}" by (simp_all add: requests_in_def write_request_def apart_def)
  from rtl_flat_memory [OF this(2), of "\<lambda>_. write_request {0}" rtl_boot 1, OF this(1)] one_write_state show ?thesis
    by (auto simp: one_write_def N_CORES_def)
qed

text \<open>
  C6: Cores that run programs of stores, loads and fences through FIFO store buffers, with background
  drains at any time and the fence releasing the mutex between two entries, only do what the
  abstract total-store-order machine can do.
\<close>

theorem tso_refinement:
  assumes "reachable n s" and "int (length progs) \<le> n"
    and "mach_step\<^sup>*\<^sup>* (litmus_machine rng progs s) m"
  shows "tso_step\<^sup>*\<^sup>* (sys_val s, map starts progs) (abs_machine m)"
  by (rule litmus_run [OF assms(3)]) (use reachable_ok [OF assms(1)] assms(2) in simp_all)

theorem tso_refinement_witness:
  "\<exists>m. finished m \<and> map th_regs (m_threads m) = [[0], [1]]
     \<and> tso_step\<^sup>*\<^sup>* (sys_val two_cores, map starts [raise_and_look 0x40 0x80, raise_and_look 0x80 0x40]) (abs_machine m)"
proof -
  obtain m where m: "mach_step\<^sup>*\<^sup>* (litmus_machine (\<lambda>_. 0) [raise_and_look 0x40 0x80, raise_and_look 0x80 0x40] two_cores) m"
    "finished m" "map th_regs (m_threads m) = [[0], [1]]" using fenced_run by (elim exE conjE)
  from tso_refinement [OF example_reachable(1) _ m(1)] m(2,3) show ?thesis by auto
qed

text \<open>
  C7: The lock-free stack implements an atomic stack: every interleaving of threads that run lists of
  pushes and pops is, operation by operation, a run of the specification whose push and pop act at
  once, and the chain of nodes from the head spells the contents of the specification's stack.
\<close>

theorem stack_refinement:
  assumes "reachable (int (length progs)) s0" and "validate_core s0 d" and "N = (\<Sum>p\<leftarrow>progs. pushes p)"
    and "stack_layout st N" and "LockFreeStack_init st d s0 = Inr s"
    and "(pool_step (stack_act st))\<^sup>*\<^sup>* (s, map (\<lambda>ops. st_next ops []) progs) (s', ws)"
  shows "spec_step\<^sup>*\<^sup>* ([], map (\<lambda>ops. (ops, [])) progs)
    (walk (sys_val s') N (sys_val s' (top_addr st)), map (spec_of (sys_val s')) ws)"
proof -
  have "stack_ready st N s" "n_cores s = int (length progs)"
    using LockFreeStack_init_ready [OF _ assms(2,4)] reachable_ok [OF assms(1)] assms(5) by auto
  from stack_pool_refines [OF assms(6) this assms(3)] show ?thesis by (simp add: spec_state_def)
qed

theorem stack_refinement_witness:
  "spec_step\<^sup>*\<^sup>* ([], [([Op_push 7], []), ([Op_push 8, Op_pop], [])]) ([8], [([], []), ([], [Some 7])])"
proof -
  obtain s where s: "LockFreeStack_init small_stack 0 two_cores = Inr s" "stack_ready small_stack 2 s" "n_cores s = 2"
    using small_stack_ready by blast
  obtain s' where s': "(pool_step (stack_act small_stack))\<^sup>*\<^sup>*
      (s, map (\<lambda>ops. st_next ops []) [[Op_push 7], [Op_push 8, Op_pop]]) (s', [St_done [], St_done [Some 7]])"
    "sys_val s' 0x40 = 0x110" "sys_val s' 0x114 = 8" "sys_val s' 0x110 = 0" using stack_run [OF s(2,3)] by blast
  have "reachable (int (length [[Op_push 7], [Op_push 8, Op_pop]])) two_cores" "validate_core two_cores 0"
    "2 = (\<Sum>p\<leftarrow>[[Op_push 7], [Op_push 8, Op_pop]]. pushes p)"
    using example_reachable(1) by (simp_all add: validate_core_eq example_cores)
  from stack_refinement [OF this small_stack_layout s(1) s'(1)] s'(2-4) show ?thesis
    by (simp add: small_stack_def walk_2)
qed

text \<open>
  C8: The demo runner has a run to its end and every run returns exit code 0: whatever the scheduler
  interleaves, whatever its random engines draw and however the snoop order is shuffled, none of its
  checks fails: the BusRdX count of ping-pong, the reader storm, 50 concurrent stress runs accepted
  by the serial-order check, the exact counter in every lock trial and the litmus counts.
\<close>

theorem main_exit_code:
  assumes "\<And>x. shuffles_ok (engine x)"
  shows "(\<exists>code. main draws engine rng code) \<and> (\<forall>code. main draws engine rng code \<longrightarrow> code = 0)"
  using main_exists [of engine draws rng, OF assms] main_returns_0 [of draws engine rng, OF _ assms] by blast

theorem main_exit_code_witness:
  "main (\<lambda>seed k. seed + of_nat k) (\<lambda>seed k xs. rev xs) (\<lambda>_. 0) 0"
proof -
  have "(\<exists>code. main (\<lambda>seed k. seed + of_nat k) (\<lambda>seed k xs. rev xs) (\<lambda>_. 0) code)
    \<and> (\<forall>code. main (\<lambda>seed k. seed + of_nat k) (\<lambda>seed k xs. rev xs) (\<lambda>_. 0) code \<longrightarrow> code = 0)"
    by (rule main_exit_code) (simp add: shuffles_ok_def)
  then show ?thesis by blast
qed

text \<open>
  C9: The RTL testbench passes: on the hardware of mesi_tb_top, whatever its registers and ports hold
  when it is built, the main program of tb_top.cpp ends without an exception, returns 0 and prints
  the text of a run in which all 59 checks pass.
\<close>

theorem testbench_passes: "tb_main rtl_eval t = Inr (0, passing_output)"
  by (rule tb_main_passes)

text \<open>
  C10: Single owner in the hardware: from reset on, after any number of cycles with any requests of
  the four cores at the same time, a core whose cache has an address Modified or Exclusive is the
  only core that has it at all.
\<close>

theorem rtl_single_owner:
  assumes "rtl_reachable r" and "j < N_CORES" and "k < N_CORES" and "j \<noteq> k"
    and "lk_state (r_l1 r j) a = State_M \<or> lk_state (r_l1 r j) a = State_E"
  shows "lk_state (r_l1 r k) a = State_I"
  by (rule rtl_swmrD [OF rtl_reachable_swmr [OF assms(1)] assms(2-)])

theorem rtl_single_owner_witness:
  "lk_state (r_l1 one_write 0) 0x40 = State_M \<and> lk_state (r_l1 one_write 3) 0x40 = State_I"
proof -
  have "lk_state (r_l1 one_write 3) 0x40 = State_I"
    by (rule rtl_single_owner [OF one_write_reachable, of 0]) (simp_all add: N_CORES_def one_write_state)
  with one_write_state show ?thesis by simp
qed

text \<open>
  C11: No core starves: a core that keeps its request until it is done is served after at most 196
  cycles, whatever the other cores request, and after at most three when its first cycle needs the
  bus (the arbiter is fair, and each snoop that takes the write port lowers one of at most 64 line
  states).
\<close>

theorem rtl_no_starvation:
  assumes "k < N_CORES" and "held f r k we a"
  shows "(\<exists>n. n \<le> 196 \<and> cpu_done (f n) (rtl_run f r n) k)
    \<and> (\<not> needs_bus (f 0) r k \<or> (\<exists>n. n < N_CORES \<and> cpu_done (f n) (rtl_run f r n) k))"
proof -
  obtain n where "n \<le> wait_bound (f 0) r k" "served f r k n" using held_served [OF assms] by blast
  with wait_bound_le [of "f 0" r k] have "\<exists>n. n \<le> 196 \<and> cpu_done (f n) (rtl_run f r n) k" by (auto simp: served_def intro: order_trans)
  with held_granted [OF assms] show ?thesis by (auto simp: served_def)
qed

theorem rtl_no_starvation_witness:
  "\<exists>n. n < 4 \<and> cpu_done (write_request {0, 1, 2, 3}) (rtl_run (\<lambda>_. write_request {0, 1, 2, 3}) (rtl_reset rtl_boot) n) 3"
proof -
  have "held (\<lambda>_. write_request {0, 1, 2, 3}) (rtl_reset rtl_boot) 3 True 0x40" by (simp add: held_def write_request_def)
  moreover have "needs_bus (write_request {0, 1, 2, 3}) (rtl_reset rtl_boot) 3"
    by (simp add: needs_bus_def cpu_state_def lk_state_def rtl_reset_def l1_pr_def write_request_def fsm_needs_bus_def fsm_req_txn_def)
  ultimately show ?thesis
    using rtl_no_starvation [of 3 "\<lambda>_. write_request {0, 1, 2, 3}" "rtl_reset rtl_boot" True "0x40"] by (simp add: N_CORES_def)
qed

text \<open>
  C12: The hardware is sequentially consistent: for up to 2^64 cycles of simultaneous requests of the
  four cores to addresses in pairwise different cache sets, the trace of the completed operations,
  numbered by their cycles, is accepted by exists_sc_order of the C++ checker; in it the operations
  of one core have strictly increasing program indices, so the sorting functions of the checker,
  whatever they do with equal keys, have no choice.
\<close>

theorem rtl_sequentially_consistent:
  assumes "sort_ok srt" and "apart A" and "\<And>n. requests_in A (f n)" and "n \<le> 2 ^ 64"
  shows "exists_sc_order srt (rtl_trace f (rtl_reset r) n) = Some True
    \<and> (\<forall>c. sorted_wrt (<) (map program_idx (filter (\<lambda>e. core_id e = c) (rtl_trace f (rtl_reset r) n))))"
  using rtl_trace_accepted [where f = f, OF assms] rtl_trace_numbered [OF assms(4)] by blast

theorem rtl_sequentially_consistent_witness:
  "exists_sc_order sort_key (rtl_trace (\<lambda>_. write_request {0, 1, 2, 3}) (rtl_reset rtl_boot) 9) = Some True"
proof -
  have "requests_in {0x40} (write_request {0, 1, 2, 3})" "apart {0x40}"
    by (simp_all add: requests_in_def write_request_def apart_def)
  from rtl_sequentially_consistent [OF sort_ok_stable this(2), of "\<lambda>_. write_request {0, 1, 2, 3}" 9, OF this(1)] show ?thesis by simp
qed

text \<open>
  C13: A system that traces from the start records, up to 2^64 events, a trace that the linear check
  accepts and, with a number of cores that is an int, for which the search finds a sequentially
  consistent order, whatever the clients do, in whatever order their calls are served and whatever
  the sorting functions of the checkers do with equal keys.
\<close>

theorem recorded_trace_accepted:
  assumes "MesiSystem_new n = Inr s" and "list_all call_ok cs" and "list_all keeps_trace cs" and "sort_ok srt"
    and "length (s_trace (snd (exec_calls cs (enable_tracing True s)))) \<le> 2 ^ 64"
  shows "ok (check_serial_order srt (s_trace (snd (exec_calls cs (enable_tracing True s)))))
    \<and> (n < 2 ^ 31 \<longrightarrow> exists_sc_order srt (s_trace (snd (exec_calls cs (enable_tracing True s)))) = Some True)"
proof -
  let ?s = "snd (exec_calls cs (enable_tracing True s))"
  have t: "traced_from zeroed (sys_val ?s) ?s" by (rule traced_calls [OF traced_new [OF assms(1)] assms(2,3)])
  have "n_cores ?s = n" "sys_ok ?s"
    using exec_calls_refines [OF traced_new(1) [OF assms(1)] assms(2)] MesiSystem_newD [OF assms(1)]
    by (simp_all add: n_cores_def enable_tracing_def)
  then have "length (s_prog_idx ?s) < 2 ^ 31" if "n < 2 ^ 31" using that by (simp add: sys_ok_def n_cores_def)
  with traced_linear [OF assms(4) t assms(5)] traced_search [OF assms(4) t assms(5)] show ?thesis by blast
qed

theorem recorded_trace_accepted_witness:
  "ok (check_serial_order sort_key (s_trace (snd (exec_calls [Call_write 0 0x40 7] (enable_tracing True two_cores)))))
   \<and> exists_sc_order sort_key (s_trace (snd (exec_calls [Call_write 0 0x40 7] (enable_tracing True two_cores)))) = Some True"
proof -
  obtain s where s: "MesiSystem_write 0 0x40 7 (enable_tracing True two_cores) = Inr s"
    using MesiSystem_write_ok [OF traced_new(1) [OF two_cores_new], of 0 "0x40" 7]
    by (auto simp: validate_core_eq enable_tracing_def n_cores_def two_cores_def)
  then have "length (s_trace s) = 1"
    by (auto simp: MesiSystem_write_def MesiSystem_log_def enable_tracing_def two_cores_def Let_def split: if_splits)
  with recorded_trace_accepted [OF two_cores_new, of "[Call_write 0 0x40 7]" sort_key] sort_ok_stable s show ?thesis
    by (simp add: lift_unit_def)
qed

text \<open>
  C14: The backtracking search is sound and complete. For a trace whose core ids are not negative and
  below the largest int, and whatever order the sorting function of the search gives events with
  equal program indices, it answers true exactly when some order of all events keeps, for every
  core, the order in which the sort put its events, and lets every read return the latest write.
  When no core has two events with the same program index, this says: some order of all events in
  which the program indices of every core ascend and every read returns the latest write.
\<close>

theorem exists_sc_order_decides:
  assumes "sort_ok srt" and "\<forall>e \<in> set t. 0 \<le> core_id e \<and> core_id e < 2 ^ 31 - 1"
  shows "exists_sc_order srt t = Some (\<exists>u. mset u = mset t
      \<and> (\<forall>c. filter (\<lambda>e. core_id e = c) u = srt program_idx (filter (\<lambda>e. core_id e = c) t)) \<and> replay zeroed u \<noteq> None)
    \<and> ((\<forall>c. distinct (map program_idx (filter (\<lambda>e. core_id e = c) t))) \<longrightarrow>
        exists_sc_order srt t = Some (\<exists>u. mset u = mset t
          \<and> (\<forall>c. sorted (map program_idx (filter (\<lambda>e. core_id e = c) u))) \<and> replay zeroed u \<noteq> None))"
  using exists_sc_order_correct [OF assms] sc_order_distinct [OF assms(1)] by (simp add: sc_order_def)

theorem exists_sc_order_decides_witness:
  "exists_sc_order sort_key [\<lparr>core_id = 0, ev_op = OpRead, ev_addr = 4, ev_value = 1, timestamp = 0, program_idx = 0\<rparr>] = Some False"
proof -
  let ?e = "\<lparr>core_id = 0, ev_op = OpRead, ev_addr = 4, ev_value = 1, timestamp = 0, program_idx = 0\<rparr> :: TraceEvent"
  have "mset u = mset [?e] \<longleftrightarrow> u = [?e]" for u by simp
  with exists_sc_order_decides [OF sort_ok_stable, of "[?e]"] show ?thesis by simp
qed

text \<open>
  C15: Workers of any number of rounds contend for a TASLock on a coherent system: at no point of any
  interleaving are two of them between lock and unlock.
\<close>

theorem tas_mutual_exclusion:
  assumes "reachable (int n) s" and "sys_val s f = 0" and "f \<noteq> ctr"
    and "(pool_step (tas_worker f ctr))\<^sup>*\<^sup>* (s, worker_pool Tas_cas K n) (s', ws)"
    and "i < n" and "j < n" and "worker_phase (ws ! i) = Inside x" and "worker_phase (ws ! j) = Inside y"
  shows "i = j"
  using tas.one_inside [OF tas_pool_inv [OF assms(4) _ _ assms(2,3)] assms(5-8)] reachable_ok [OF assms(1)] by simp

theorem tas_mutual_exclusion_witness:
  "\<exists>s. (pool_step (tas_worker 0x40 0x80))\<^sup>*\<^sup>* (two_cores, worker_pool Tas_cas 1 2)
     (s, [W_read 0 (), W_lock 0 Tas_spin])
   \<and> worker_phase ([W_read 0 (), W_lock 0 Tas_spin] ! 0) = Inside () \<and> (0 :: nat) = 0"
proof -
  obtain s where s: "(pool_step (tas_worker 0x40 0x80))\<^sup>*\<^sup>* (two_cores, worker_pool Tas_cas 1 2)
     (s, [W_read 0 (), W_lock 0 Tas_spin])" using tas_inside by blast
  have "(0 :: nat) = 0"
    by (rule tas_mutual_exclusion [OF _ _ _ s, of 0 0 "()" "()"]) (use example_reachable(1) in \<open>simp_all add: example_values\<close>)
  with s show ?thesis by auto
qed

text \<open>
  C16: The TicketLock admits one worker at a time in every interleaving of fewer than 2^32 workers,
  also when the 32-bit tickets wrap around.
\<close>

theorem ticket_mutual_exclusion:
  assumes "reachable (int n) s" and "n < 2 ^ 32" and "sys_val s nx = sys_val s sv" and "distinct [nx, sv, ctr]"
    and "(pool_step (ticket_worker nx sv ctr))\<^sup>*\<^sup>* (s, worker_pool Ticket_take K n) (s', ws)"
    and "i < n" and "j < n" and "worker_phase (ws ! i) = Inside x" and "worker_phase (ws ! j) = Inside y"
  shows "i = j"
  using ticket.one_inside [OF ticket_pool_inv [OF assms(5) _ _ assms(3,4,2)] assms(6-9)] reachable_ok [OF assms(1)]
  by simp

theorem ticket_mutual_exclusion_witness:
  "\<exists>s. (pool_step (ticket_worker 0x40 0x80 0xC0))\<^sup>*\<^sup>* (two_cores, worker_pool Ticket_take 1 2)
     (s, [W_lock 0 (Ticket_wait 1), W_read 0 0])
   \<and> worker_phase ([W_lock 0 (Ticket_wait 1), W_read 0 0] ! 1) = Inside 0 \<and> (1 :: nat) = 1"
proof -
  obtain s where s: "(pool_step (ticket_worker 0x40 0x80 0xC0))\<^sup>*\<^sup>* (two_cores, worker_pool Ticket_take 1 2)
     (s, [W_lock 0 (Ticket_wait 1), W_read 0 0])" using ticket_waiting by blast
  have "(1 :: nat) = 1"
    by (rule ticket_mutual_exclusion [OF _ _ _ _ s, of 1 1 0 0])
      (use example_reachable(1) in \<open>simp_all add: example_values\<close>)
  with s show ?thesis by auto
qed

text \<open>
  C17: A seqlock of at most 2^29 words (so that 4 * i is an int) with one writer that publishes a list
  of versions and any number of readers that retry: in every interleaving each snapshot a reader has
  got is one of the versions, the initial contents included, and never a mixture of two of them. The
  sequence counter starts even and fewer than 2^31 versions are published.
\<close>

theorem seqlock_no_torn_snapshot:
  assumes "reachable (int (Suc n)) s" and "seq_setup sl (sys_val s (seq_addr sl)) (v0 # vss)"
    and "v0 = map (\<lambda>j. sys_val s (word_at sl j)) [0..<nat (n_words sl)]"
    and "(pool_step (seq_act sl))\<^sup>*\<^sup>* (s, Seq_writer vss Sw_read # replicate n (Seq_reader Sr_read [] [])) (s', ws)"
    and "Seq_reader pc out got \<in> set ws"
  shows "set got \<subseteq> set (v0 # vss)"
proof -
  have "seq_inv sl (sys_val s (seq_addr sl)) (v0 # vss) (sys_val s') ws"
    using seq_pool_inv [OF assms(4) _ _ assms(2,3)] reachable_ok [OF assms(1)] by simp
  then show ?thesis by (rule seq_inv_got [OF _ assms(5)])
qed

theorem seqlock_no_torn_snapshot_witness:
  "\<exists>s. (pool_step (seq_act two_words))\<^sup>*\<^sup>* (two_cores, Seq_writer [[5, 6]] Sw_read # replicate 1 (Seq_reader Sr_read [] []))
     (s, [Seq_writer [] Sw_read, Seq_reader Sr_read [5, 6] [[5, 6]]]) \<and> set [[5, 6]] \<subseteq> set [[0, 0], [5, 6 :: u32]]"
proof -
  obtain s where s: "(pool_step (seq_act two_words))\<^sup>*\<^sup>* (two_cores, Seq_writer [[5, 6]] Sw_read # replicate 1 (Seq_reader Sr_read [] []))
     (s, [Seq_writer [] Sw_read, Seq_reader Sr_read [5, 6] [[5, 6]]])" using seqlock_run by blast
  have "set [[5, 6]] \<subseteq> set [[0, 0], [5, 6 :: u32]]"
    by (rule seqlock_no_torn_snapshot [OF _ _ _ s])
      (use example_reachable(1) in \<open>auto simp: seq_setup_def two_words_def word_at_def example_values upt_rec less_2_cases_iff\<close>)
  with s show ?thesis by blast
qed

text \<open>
  C18: Readers that protect an object with a hazard pointer before they use it never see a freed one:
  while a writer replaces the published object again and again, retires the old ones and poisons
  those that no slot protects, no value a reader reads through a protected pointer is the poison, in
  any interleaving.
\<close>

theorem hazard_no_use_after_free:
  assumes "reachable (int (Suc n)) s" and "n_threads h = int (Suc n)"
    and "hz_layout h ptr (insert (sys_val s ptr) (fst ` set todo))" and "distinct (sys_val s ptr # map fst todo)"
    and "sys_val s (sys_val s ptr) \<noteq> dead" and "\<forall>v \<in> snd ` set todo. v \<noteq> dead"
    and "(pool_step (hz_act h ptr))\<^sup>*\<^sup>*
      (s, Hz_writer (Wr_next todo []) # replicate n (Hz_reader (Rd_protect Hp_read []))) (s', ws)"
    and "Hz_reader r \<in> set ws"
  shows "dead \<notin> set (rd_seen r)"
proof -
  have "hz_inv h ptr (insert (sys_val s ptr) (fst ` set todo)) (sys_val s') ws"
    by (rule hz_pool_inv [OF assms(7) _ _ assms(2-6)]) (use reachable_ok [OF assms(1)] in simp_all)
  then show ?thesis by (rule hz_inv_seen [OF _ assms(8)])
qed

theorem hazard_no_use_after_free_witness:
  "\<exists>s. (pool_step (hz_act two_slots 0x80))\<^sup>*\<^sup>*
     (two_cores, Hz_writer (Wr_next [(0xC0, 1), (0x100, 2)] []) # replicate 1 (Hz_reader (Rd_protect Hp_read [])))
     (s, [Hz_writer (Wr_next [] [0, 0xC0]), Hz_reader (Rd_protect Hp_read [1])]) \<and> dead \<notin> set [1]"
proof -
  obtain s where s: "(pool_step (hz_act two_slots 0x80))\<^sup>*\<^sup>*
     (two_cores, Hz_writer (Wr_next [(0xC0, 1), (0x100, 2)] []) # replicate 1 (Hz_reader (Rd_protect Hp_read [])))
     (s, [Hz_writer (Wr_next [] [0, 0xC0]), Hz_reader (Rd_protect Hp_read [1])])" using hazard_run by blast
  have "dead \<notin> set (rd_seen (Rd_protect Hp_read [1]))"
    by (rule hazard_no_use_after_free [OF _ _ _ _ _ _ s])
      (use example_reachable(1) in \<open>auto simp: two_slots_def hz_layout_def hazard_slot_def dead_def example_values less_2_cases_iff\<close>)
  with s show ?thesis by auto
qed

text \<open>
  C19: Between n threads that call Barrier::wait again and again after Barrier::init, no thread has
  returned from a call that another thread has not begun: the number of calls one thread has
  completed never exceeds the number any other thread has started. The count wraps through 32-bit
  arithmetic and the sense flips every episode.
\<close>

theorem barrier_separates:
  assumes "reachable (int n) s0" and "bar_n b = int n" and "n < 2 ^ 32" and "count_addr b \<noteq> sense_addr b"
    and "validate_core s0 d" and "Barrier_init b d s0 = Inr s"
    and "(pool_step (bar_act b))\<^sup>*\<^sup>* (s, replicate n bar_fresh) (s', ws)" and "i < n" and "j < n"
  shows "b_done (ws ! i) \<le> b_started (ws ! j)"
proof -
  have "bar_ready b n s" using Barrier_init_ready [OF assms(1-5)] assms(6) by auto
  with bar_pool_inv [OF assms(7)] assms(8) obtain e where "bar_inv b e (sys_val s') ws" "length ws = n" by auto
  with bar_inv_order assms(8,9) show ?thesis by blast
qed

theorem barrier_separates_witness:
  "\<exists>s s' ws. Barrier_init two_barrier 0 two_cores = Inr s
     \<and> (pool_step (bar_act two_barrier))\<^sup>*\<^sup>* (s, replicate 2 bar_fresh) (s', ws) \<and> b_done (ws ! 1) = 1 \<and> 1 \<le> b_started (ws ! 0)"
proof -
  obtain s where s: "Barrier_init two_barrier 0 two_cores = Inr s" "bar_ready two_barrier 2 s" using two_barrier_ready by blast
  let ?ws = "[\<lparr>b_done = 0, b_pc = Bar_spin, b_sense = 1\<rparr>, \<lparr>b_done = 1, b_pc = Bar_enter, b_sense = 1\<rparr>]"
  obtain s' where s': "(pool_step (bar_act two_barrier))\<^sup>*\<^sup>* (s, replicate 2 bar_fresh) (s', ?ws)"
    using barrier_run [OF s(2)] by blast
  have "b_done (?ws ! 1) \<le> b_started (?ws ! 0)"
    by (rule barrier_separates [OF _ _ _ _ _ s(1) s'])
      (use example_reachable(1) in \<open>simp_all add: two_barrier_def validate_core_eq example_cores\<close>)
  with s(1) s' show ?thesis by fastforce
qed

text \<open>
  C20: A pool of threads at a barrier is never stuck: in every reachable state of every interleaving
  some thread's next step returns without a throw and takes it further, so it is not the case that
  all of them spin for ever.
\<close>

theorem barrier_no_deadlock:
  assumes "reachable (int n) s0" and "bar_n b = int n" and "n < 2 ^ 32" and "count_addr b \<noteq> sense_addr b"
    and "validate_core s0 d" and "Barrier_init b d s0 = Inr s"
    and "(pool_step (bar_act b))\<^sup>*\<^sup>* (s, replicate n bar_fresh) (s', ws)"
  shows "\<exists>i < n. \<exists>t s''. bar_act b (int i) (ws ! i) s' = Inr (t, s'') \<and> b_pc t \<noteq> b_pc (ws ! i)"
proof -
  have "bar_ready b n s" using Barrier_init_ready [OF assms(1-5)] assms(6) by auto
  moreover have n: "0 < n" using reachable_ok [OF assms(1)] assms(5) by (auto simp: validate_core_eq)
  ultimately obtain e where i: "bar_inv b e (sys_val s') ws" "length ws = n" "flat_pool s' n (\<lambda>_. True)"
    using bar_pool_inv [OF assms(7)] by auto
  then obtain k where k: "k < n" "b_pc (fst (flat_bar b (int k) (ws ! k) (sys_val s'))) \<noteq> b_pc (ws ! k)"
    using bar_inv_progress [OF i(1)] n by auto
  with bar.simulates [of s' "int k" b "ws ! k"] i(3) show ?thesis by (auto simp: flat_pool_def acts_as_def)
qed

theorem barrier_no_deadlock_witness:
  "\<exists>s s'. Barrier_init two_barrier 0 two_cores = Inr s \<and> (\<exists>i < 2. \<exists>t s''. bar_act two_barrier (int i)
     ([\<lparr>b_done = 0, b_pc = Bar_spin, b_sense = 1\<rparr>, \<lparr>b_done = 1, b_pc = Bar_enter, b_sense = 1\<rparr>] ! i) s' = Inr (t, s'')
     \<and> b_pc t \<noteq> b_pc ([\<lparr>b_done = 0, b_pc = Bar_spin, b_sense = 1\<rparr>, \<lparr>b_done = 1, b_pc = Bar_enter, b_sense = 1\<rparr>] ! i))"
proof -
  obtain s where s: "Barrier_init two_barrier 0 two_cores = Inr s" "bar_ready two_barrier 2 s" using two_barrier_ready by blast
  obtain s' where s': "(pool_step (bar_act two_barrier))\<^sup>*\<^sup>* (s, replicate 2 bar_fresh)
      (s', [\<lparr>b_done = 0, b_pc = Bar_spin, b_sense = 1\<rparr>, \<lparr>b_done = 1, b_pc = Bar_enter, b_sense = 1\<rparr>])"
    using barrier_run [OF s(2)] by blast
  have "reachable (int 2) two_cores" "bar_n two_barrier = int 2" "2 < (2 :: nat) ^ 32" "count_addr two_barrier \<noteq> sense_addr two_barrier"
    "validate_core two_cores 0"
    using example_reachable(1) by (simp_all add: two_barrier_def validate_core_eq example_cores)
  from barrier_no_deadlock [OF this s(1) s'] s(1) show ?thesis by blast
qed

text \<open>
  C21: The store-buffering litmus with fences: in no interleaving do both cores miss the flag of the
  other.
\<close>

theorem dekker_fenced:
  assumes "reachable n s" and "2 \<le> n" and "x \<noteq> y"
    and "mach_step\<^sup>*\<^sup>* (litmus_machine rng [raise_and_look x y, raise_and_look y x] s) m"
  shows "map th_regs (m_threads m) \<noteq> [[0], [0]]"
  by (rule fenced_excludes [OF assms(4) _ _ assms(3)]) (use reachable_ok [OF assms(1)] assms(2) in simp_all)

theorem dekker_fenced_witness:
  "\<exists>m. mach_step\<^sup>*\<^sup>* (litmus_machine (\<lambda>_. 0) [raise_and_look 0x40 0x80, raise_and_look 0x80 0x40] two_cores) m
     \<and> finished m \<and> map th_regs (m_threads m) \<noteq> [[0], [0]]"
proof -
  obtain m where m: "mach_step\<^sup>*\<^sup>* (litmus_machine (\<lambda>_. 0) [raise_and_look 0x40 0x80, raise_and_look 0x80 0x40] two_cores) m"
    "finished m" using fenced_run by (elim exE conjE)
  have "map th_regs (m_threads m) \<noteq> [[0], [0]]"
    by (rule dekker_fenced [OF example_reachable(1) _ _ m(1)]) simp_all
  with m show ?thesis by blast
qed

text \<open>
  C22: The hardware store buffer implements the C++ one in FIFO mode with depth 8: along any sequence
  of clock cycles from reset, a new C++ buffer that drains when the hardware pops and stores when it
  pushes never throws and holds exactly the entries of the ring in order; the bypass port answers
  what a search of the C++ buffer from its newest entry finds.
\<close>

theorem rtl_store_buffer_refines:
  assumes "reachable n s" and "StoreBuffer_new (Some s) c 8 FIFO rng = Inr sb"
  shows "\<exists>sb' s'. cycles_on_buffer is (sb_reset r) sb s = Inr (sb', s') \<and> sys_ok s'
    \<and> ring_entries (fold sb_clock is (sb_reset r)) = sb_buf sb'
    \<and> (\<forall>i. bypass i (fold sb_clock is (sb_reset r))
        = (case scan (bypass_addr i) (rev (sb_buf sb')) of None \<Rightarrow> (False, 0) | Some v \<Rightarrow> (True, v)))"
proof -
  note new = mirrors_new [OF conjunct1 [OF reachable_ok [OF assms(1)]] assms(2)]
  obtain sb' s' where "cycles_on_buffer is (sb_reset r) sb s = Inr (sb', s')" and m: "mirrors (fold sb_clock is (sb_reset r)) sb'" and "sb_ok (sb', s')"
    using mirrors_cycles [OF new] by blast
  moreover from m have "ring_ok (fold sb_clock is (sb_reset r))" "sb_buf sb' = ring_entries (fold sb_clock is (sb_reset r))"
    by (simp_all add: mirrors_def)
  ultimately show ?thesis using ring_bypass [of "fold sb_clock is (sb_reset r)"] by (auto simp: sb_ok_def)
qed

theorem rtl_store_buffer_refines_witness:
  "\<forall>r. \<exists>sb sb' s'. StoreBuffer_new (Some two_cores) 0 8 FIFO (\<lambda>_. 0) = Inr sb
    \<and> cycles_on_buffer [\<lparr>st_valid = True, st_addr = 0x10, st_data = 5, drain_ready = True, bypass_addr = 0, fence_req = False\<rparr>]
        (sb_reset r) sb two_cores = Inr (sb', s')
    \<and> ring_entries (fold sb_clock [\<lparr>st_valid = True, st_addr = 0x10, st_data = 5, drain_ready = True, bypass_addr = 0, fence_req = False\<rparr>]
        (sb_reset r)) = sb_buf sb'"
proof
  fix r
  obtain sb where sb: "StoreBuffer_new (Some two_cores) 0 8 FIFO (\<lambda>_. 0) = Inr sb" by (simp add: StoreBuffer_new_def example_cores)
  from rtl_store_buffer_refines [OF example_reachable(1) sb, of _ r] sb
  show "\<exists>sb sb' s'. StoreBuffer_new (Some two_cores) 0 8 FIFO (\<lambda>_. 0) = Inr sb
    \<and> cycles_on_buffer [\<lparr>st_valid = True, st_addr = 0x10, st_data = 5, drain_ready = True, bypass_addr = 0, fence_req = False\<rparr>]
        (sb_reset r) sb two_cores = Inr (sb', s')
    \<and> ring_entries (fold sb_clock [\<lparr>st_valid = True, st_addr = 0x10, st_data = 5, drain_ready = True, bypass_addr = 0, fence_req = False\<rparr>]
        (sb_reset r)) = sb_buf sb'" by blast
qed

text \<open>
  C23: On the hardware, out of reset, Driver::op of a valid core always returns and never throws its
  deadlock exception, from any contents of the registers and whatever requests of other cores are
  pending at the ports.
\<close>

theorem driver_op_completes:
  assumes "v_rst_n t" and "c < N_CORES"
  shows "\<exists>rd t'. Driver_op rtl_eval c we a x t = Inr (rd, t')"
  by (rule Driver_op_completes [OF assms])

theorem driver_op_completes_witness:
  "\<forall>t. \<exists>rd t'. Driver_op rtl_eval 2 True 0x40 7 (Driver_reset rtl_eval t\<lparr>v_cpu_req := 3, v_cpu_we := 3\<rparr>) = Inr (rd, t')"
proof
  fix t
  have "v_rst_n (Driver_reset rtl_eval t\<lparr>v_cpu_req := 3, v_cpu_we := 3\<rparr>)" using Driver_reset_rtl(1) [of t] by (simp add: ready_def)
  from driver_op_completes [OF this, of 2 True "0x40" 7]
  show "\<exists>rd t'. Driver_op rtl_eval 2 True 0x40 7 (Driver_reset rtl_eval t\<lparr>v_cpu_req := 3, v_cpu_we := 3\<rparr>) = Inr (rd, t')"
    by (simp add: N_CORES_def)
qed

text \<open>
  C24: What Driver::op returns, for any device behind the generated class: the read data seen in the
  first of at most 1000 cycles in which the core's done bit is set, the request bit then cleared; if
  there is none, the exception std::runtime_error with the deadlock message.
\<close>

theorem driver_op_outcome:
  "Driver_op ev c we a x t = (let T = (\<lambda>j. (op_turn ev ^^ j) (op_request c we a x t)) in
     case find (\<lambda>j. op_done ev c (T j)) [0..<1000] of
       None \<Rightarrow> Inl (Runtime_Error ''CPU op did not complete (deadlock)'')
     | Some j \<Rightarrow> Inr (v_cpu_rdata (Driver_settle ev (T j)) c, op_release ev c (T (Suc j))))"
  by (rule Driver_op_find)

text \<open>
  C25: The transition table of the hardware is the one the C++ controller implements: in every
  reachable state a snoop moves the line and intervenes as mesi_fsm says, and a processor read or an
  acquisition for writing ends in the state mesi_fsm computes and adds to the bus counters exactly
  the transaction mesi_fsm requests.
\<close>

theorem rtl_fsm_matches_controller:
  assumes "reachable n s" and "int i < n" and "int j < n"
  shows "let b = s_bus s; l = line_of a in
    lstate (snd (snoop txn a i j b)) j l = fsm_snoop_next (lstate b j l) txn
    \<and> intervened (fst (snoop txn a i j b)) = fsm_snoop_wb (lstate b j l) txn
    \<and> lstate (snd (processor_read i a b)) i l = fsm_pr_next (lstate b i l) PrRd (other_copy b i l)
    \<and> lstate (snd (acquire_exclusive i a b)) i l = fsm_pr_next (lstate b i l) PrWr (other_copy b i l)
    \<and> bus_traffic (snd (processor_read i a b)) = txn_traffic (fsm_req_txn (lstate b i l) PrRd) (dirty_peer b i l) (bus_traffic b)
    \<and> bus_traffic (snd (acquire_exclusive i a b)) = txn_traffic (fsm_req_txn (lstate b i l) PrWr) (dirty_peer b i l) (bus_traffic b)"
proof -
  have b: "coherent (s_bus s)" "i < bus_n_cores (s_bus s)" "j < bus_n_cores (s_bus s)"
    using reachable_ok [OF assms(1)] assms(2,3) by (auto simp: sys_ok_def n_cores_def)
  show ?thesis unfolding Let_def by (intro conjI fsm_snoop_agrees fsm_processor_agrees b)
qed

theorem rtl_fsm_matches_controller_witness:
  "lstate (snd (snoop BusRdX 0x40 0 1 (s_bus shared_line))) 1 (line_of 0x40) = fsm_snoop_next State_S BusRdX"
  using rtl_fsm_matches_controller [OF example_reachable(3), of 0 1 "0x40" BusRdX] shared_states(2)
  by (simp add: sys_state_def example_lines Let_def)

text \<open>
  C26: On a coherent bus the order in which the peers snoop a transaction does not matter: any two
  orders of the same peers give the same aggregated result and the same bus, memory and counters
  included. This is what race injection relies on.
\<close>

theorem snoop_order_irrelevant:
  assumes "coherent b" and "distinct order" and "\<forall>k \<in> set order. k < bus_n_cores b" and "mset order = mset order'"
  shows "snoop_all txn addr i order agg b = snoop_all txn addr i order' agg b"
  by (rule snoop_all_order [OF assms(1) _ assms(4)]) (use assms(2,3) in \<open>simp add: peers_ok_def\<close>)

theorem snoop_order_irrelevant_witness:
  "snoop_all BusRd 0x40 1 [0, 1] SnoopResult_new (s_bus written) = snoop_all BusRd 0x40 1 [1, 0] SnoopResult_new (s_bus written)"
proof -
  have "coherent (s_bus written)" "bus_n_cores (s_bus written) = 2"
    using example_ok(2) example_cores(2) by (simp_all add: sys_ok_def n_cores_def)
  with snoop_order_irrelevant [of "s_bus written" "[0, 1]" "[1, 0]" BusRd "0x40" 1 SnoopResult_new] show ?thesis
    by (simp del: snoop_all.simps)
qed

text \<open>
  C27: drain_all returns in either mode and for every sequence of random draws, with an empty buffer.
  What it does to the system is to write the entries of the buffer through the owning core one after
  the other, each exactly once, in some order, and in FIFO mode oldest first; the drained counter
  grows by their number. In FIFO mode, and in RELAXED mode when the addresses differ, the memory
  then holds what the owner saw.
\<close>

theorem drain_all_terminates:
  assumes "sys_ok s" and "validate_core s (sb_core sb)"
  shows "\<exists>sb' s' es. drain_all sb s = Inr (sb', s') \<and> sb_empty sb' \<and> sys_ok s'
    \<and> for_each (put_entry (sb_core sb)) es s = Inr s' \<and> mset es = mset (sb_buf sb) \<and> (sb_mode sb = FIFO \<longrightarrow> es = sb_buf sb)
    \<and> sb_drained sb' = sb_drained sb + of_nat (sb_size sb)
    \<and> (sb_mode sb = RELAXED \<and> \<not> distinct (map e_addr (sb_buf sb)) \<or> sys_val s' = owner_view (sb, s))"
proof -
  obtain sb' s' es where r: "drain_all sb s = Inr (sb', s')" "sb_ok (sb', s')" "sb_buf sb' = []"
    "sb_drained sb' = sb_drained sb + of_nat (length (sb_buf sb))" "mset es = mset (sb_buf sb)"
    "sys_val s' = apply_stores es (sys_val s)" "sb_mode sb = FIFO \<longrightarrow> es = sb_buf sb" "for_each (put_entry (sb_core sb)) es s = Inr s'"
    using drain_all_ok [of sb s] assms unfolding sb_ok_def by force
  have "sys_val s' = owner_view (sb, s)" if "sb_mode sb = FIFO \<or> distinct (map e_addr (sb_buf sb))"
    using that r(6,7) apply_stores_perm [OF r(5)] by (auto simp: owner_view_def)
  moreover have "sb_mode sb = FIFO \<or> sb_mode sb = RELAXED" by (cases "sb_mode sb") simp_all
  ultimately show ?thesis using r(1-5,7,8)
    by (intro exI [of _ sb'] exI [of _ s'] exI [of _ es]) (auto simp: sb_empty_def sb_ok_def sb_size_def)
qed

theorem drain_all_terminates_witness:
  "\<exists>sb' s'. drain_all ((fresh_buffer (\<lambda>_. 1) 0)\<lparr>sb_mode := RELAXED,
      sb_buf := [\<lparr>e_addr = 0x40, e_val = 1\<rparr>, \<lparr>e_addr = 0x80, e_val = 2\<rparr>]\<rparr>) two_cores = Inr (sb', s')
     \<and> sys_val s' 0x40 = 1 \<and> sys_val s' 0x80 = 2"
proof -
  let ?sb = "(fresh_buffer (\<lambda>_. 1) 0)\<lparr>sb_mode := RELAXED,
      sb_buf := [\<lparr>e_addr = 0x40, e_val = 1\<rparr>, \<lparr>e_addr = 0x80, e_val = 2\<rparr>]\<rparr>"
  have "validate_core two_cores (sb_core ?sb)" by (simp add: fresh_buffer_def validate_core_eq example_cores)
  from drain_all_terminates [OF example_ok(1) this] show ?thesis by (auto simp: owner_view_def)
qed

text \<open>
  C28: A store buffer never outgrows its depth and never loses, repeats or alters a store: in either
  drain mode and for any random draws, any sequence of stores, loads, single drains, full drains and
  fences on a new buffer of a depth below the largest int runs without an exception, and all it does
  to the system is a sequence of reads, writes and fence counts of the owning core. The entries
  these writes have put into the system and the at most depth entries left in the buffer are
  together the stores of the sequence, each once, and in FIFO mode in the order of the stores; the
  drained counter counts the writes.
\<close>

theorem store_buffer_bounded:
  assumes "reachable n s" and "StoreBuffer_new (Some s) c depth mode rng = Inr sb" and "depth < 2 ^ 31 - 1"
  shows "\<exists>sb' s' xs. for_each exec_sb cs (sb, s) = Inr (sb', s') \<and> sys_ok s' \<and> for_each (do_access c) xs s = Inr s'
    \<and> mset (writes_of xs) + mset (sb_buf sb') = mset (stores_of cs)
    \<and> (mode = FIFO \<longrightarrow> writes_of xs @ sb_buf sb' = stores_of cs)
    \<and> sb_drained sb' = of_nat (length (writes_of xs)) \<and> int (sb_size sb') \<le> depth"
proof -
  note new = StoreBuffer_newD [OF assms(2) conjunct1 [OF reachable_ok [OF assms(1)]]]
  obtain xs d where "for_each exec_sb cs (sb, s) = Inr d" "sb_moves (stores_of cs) xs (sb, s) d" "int (sb_size (fst d)) \<le> sb_depth sb"
    using run_sb_moves [OF new(2), of cs] new(1,3) assms(3) by (auto simp: sb_size_def)
  with new(1) show ?thesis by (cases d) (auto simp: sb_moves_def sb_ok_def)
qed

theorem store_buffer_bounded_witness:
  "\<exists>sb sb' s' xs. StoreBuffer_new (Some two_cores) 0 1 RELAXED (\<lambda>_. 1) = Inr sb
    \<and> for_each exec_sb [Sb_store 0x40 1, Sb_store 0x80 2, Sb_load 0x40] (sb, two_cores) = Inr (sb', s')
    \<and> for_each (do_access 0) xs two_cores = Inr s' \<and> sb_size sb' \<le> 1
    \<and> mset (writes_of xs) + mset (sb_buf sb') = {#\<lparr>e_addr = 0x40, e_val = 1\<rparr>, \<lparr>e_addr = 0x80, e_val = 2\<rparr>#}"
proof -
  obtain sb where sb: "StoreBuffer_new (Some two_cores) 0 1 RELAXED (\<lambda>_. 1) = Inr sb" by (simp add: StoreBuffer_new_def example_cores)
  from store_buffer_bounded [OF example_reachable(1) sb, of "[Sb_store 0x40 1, Sb_store 0x80 2, Sb_load 0x40]"] sb
  show ?thesis by (simp del: for_each.simps) blast
qed

text \<open>
  C29: What a seqlock write stores a later read returns, for up to 2^29 words: a write that nobody
  interrupts returns after n_words + 5 steps, and then a read through any core returns after n_words
  + 4 steps, at its first try, with exactly the words written.
\<close>

theorem seqlock_roundtrip:
  assumes "reachable n s" and "validate_core s c" and "validate_core s d" and "even (sys_val s (seq_addr sl))"
    and "length vals = nat (n_words sl)" and "n_words sl \<le> 2 ^ 29" and "\<forall>j < nat (n_words sl). word_at sl j \<noteq> seq_addr sl"
  shows "\<exists>s1 s2. solo (nat (n_words sl) + 5) (Seqlock_write sl vals c) Sw_read s = Some (Inr ((), s1))
    \<and> solo (nat (n_words sl) + 4) (Seqlock_read_retry sl d) (Sr_read, out) s1 = Some (Inr (vals, s2)) \<and> sys_ok s2"
  by (rule seqlock_write_read) (use reachable_ok [OF assms(1)] assms(2-) in simp_all)

theorem seqlock_roundtrip_witness:
  "\<exists>s1 s2. solo 7 (Seqlock_write two_words [5, 6] 0) Sw_read two_cores = Some (Inr ((), s1))
    \<and> solo 6 (Seqlock_read_retry two_words 1) (Sr_read, []) s1 = Some (Inr ([5, 6], s2))"
  using seqlock_roundtrip [OF example_reachable(1), of 0 1 two_words "[5, 6]" "[]"]
  by (auto simp: two_words_def word_at_def validate_core_eq example_cores example_values less_2_cases_iff)

text \<open>
  C30: No value is lost or duplicated: when all threads have finished their pushes and pops, the
  values still on the stack together with the values popped are, as a multiset, the values pushed.
\<close>

theorem stack_conserves:
  assumes "reachable (int (length progs)) s0" and "validate_core s0 d" and "N = (\<Sum>p\<leftarrow>progs. pushes p)"
    and "stack_layout st N" and "LockFreeStack_init st d s0 = Inr s"
    and "(pool_step (stack_act st))\<^sup>*\<^sup>* (s, map (\<lambda>ops. st_next ops []) progs) (s', map St_done gots)"
  shows "mset (walk (sys_val s') N (sys_val s' (top_addr st))) + (\<Sum>got\<leftarrow>gots. popped_values got)
    = (\<Sum>ops\<leftarrow>progs. pushed_values ops)"
proof -
  have r: "stack_ready st N s" "n_cores s = int (length progs)"
    using LockFreeStack_init_ready [OF _ assms(2,4)] reachable_ok [OF assms(1)] assms(5) by auto
  from spec_total_run [OF stack_pool_refines [OF assms(6) r assms(3)]] show ?thesis
    by (simp add: spec_total_def spec_state_def o_def pushed_values_def popped_values_def)
qed

theorem stack_conserves_witness:
  "\<exists>s'. (\<exists>s. LockFreeStack_init small_stack 0 two_cores = Inr s \<and> (pool_step (stack_act small_stack))\<^sup>*\<^sup>*
      (s, map (\<lambda>ops. st_next ops []) [[Op_push 7], [Op_push 8, Op_pop]]) (s', map St_done [[], [Some 7]]))
    \<and> mset (walk (sys_val s') 2 (sys_val s' 0x40)) + {#7#} = {#7, 8#}"
proof -
  obtain s where s: "LockFreeStack_init small_stack 0 two_cores = Inr s" "stack_ready small_stack 2 s" "n_cores s = 2"
    using small_stack_ready by blast
  obtain s' where s': "(pool_step (stack_act small_stack))\<^sup>*\<^sup>*
      (s, map (\<lambda>ops. st_next ops []) [[Op_push 7], [Op_push 8, Op_pop]]) (s', map St_done [[], [Some 7]])"
    using stack_run [OF s(2,3)] by auto
  have "reachable (int (length [[Op_push 7], [Op_push 8, Op_pop]])) two_cores" "validate_core two_cores 0"
    "2 = (\<Sum>p\<leftarrow>[[Op_push 7], [Op_push 8, Op_pop]]. pushes p)"
    using example_reachable(1) by (simp_all add: validate_core_eq example_cores)
  from stack_conserves [OF this small_stack_layout s(1) s'] have
    "mset (walk (sys_val s') 2 (sys_val s' 0x40)) + {#7#} = {#7, 8#}"
    by (simp add: small_stack_def popped_values_def pushed_values_def)
  with s(1) s' show ?thesis by blast
qed

text \<open>
  C31: The linear check decides what it documents: for a trace with different timestamps it reports ok
  exactly when every read returns the value of the write to its address that has the latest
  timestamp before its own, or 0 when there is no such write. The order of the events in the trace
  plays no role.
\<close>

theorem check_serial_order_decides:
  assumes "sort_ok srt" and "distinct (map timestamp t)"
  shows "ok (check_serial_order srt t) \<longleftrightarrow> (\<forall>e \<in> set t. ev_op e = OpRead \<longrightarrow> reads_latest t e)"
  by (rule check_serial_order_correct [OF assms])

theorem check_serial_order_decides_witness:
  "ok (check_serial_order sort_key [\<lparr>core_id = 0, ev_op = OpRead, ev_addr = 4, ev_value = 7, timestamp = 1, program_idx = 0\<rparr>,
     \<lparr>core_id = 1, ev_op = OpWrite, ev_addr = 4, ev_value = 7, timestamp = 0, program_idx = 0\<rparr>])"
  using check_serial_order_decides [OF sort_ok_stable, of "[\<lparr>core_id = 0, ev_op = OpRead, ev_addr = 4, ev_value = 7, timestamp = 1, program_idx = 0\<rparr>,
     \<lparr>core_id = 1, ev_op = OpWrite, ev_addr = 4, ev_value = 7, timestamp = 0, program_idx = 0\<rparr>]"]
  by (simp add: reads_latest_def write_before_def conj_disj_distribR ex_disj_distrib)

text \<open>
  C32: Message passing through a FIFO buffer needs no fence: a consumer that has loaded the flag as 1
  loads the published data.
\<close>

theorem message_passing_fifo:
  assumes "reachable n s" and "2 \<le> n" and "x \<noteq> f" and "sys_val s f \<noteq> 1"
    and "mach_step\<^sup>*\<^sup>* (litmus_machine rng [publish x f v, consume x f] s) m"
    and "finished m" and "map th_regs (m_threads m) = [[], [1, w]]"
  shows "w = v"
  by (rule published_seen [OF assms(5) _ _ assms(3,4,6,7)]) (use reachable_ok [OF assms(1)] assms(2) in simp_all)

theorem message_passing_fifo_witness:
  "\<exists>m w. mach_step\<^sup>*\<^sup>* (litmus_machine (\<lambda>_. 0) [publish 0x40 0x80 42, consume 0x40 0x80] two_cores) m
     \<and> map th_regs (m_threads m) = [[], [1, w]] \<and> w = 42"
proof -
  obtain m where m: "mach_step\<^sup>*\<^sup>* (litmus_machine (\<lambda>_. 0) [publish 0x40 0x80 42, consume 0x40 0x80] two_cores) m"
    "finished m" "map th_regs (m_threads m) = [[], [1, 42]]"
    using message_run by (elim exE conjE)
  have "(42 :: u32) = 42"
    by (rule message_passing_fifo [OF example_reachable(1) _ _ _ m]) (simp_all add: example_values)
  with m show ?thesis by (intro exI conjI)
qed

text \<open>
  C33: While a worker is inside a TicketLock its ticket is the one being served, and every waiting
  worker holds a later ticket that has been drawn: nobody waiting is ahead of the holder.
\<close>

theorem ticket_fifo:
  assumes "reachable (int n) s" and "n < 2 ^ 32" and "sys_val s nx = sys_val s sv" and "distinct [nx, sv, ctr]"
    and "(pool_step (ticket_worker nx sv ctr))\<^sup>*\<^sup>* (s, worker_pool Ticket_take K n) (s', ws)"
    and "i < n" and "j < n" and "worker_phase (ws ! i) = Inside x" and "worker_phase (ws ! j) = Trying (Ticket_wait y)"
  shows "x = sys_val s' sv \<and> 0 < unat (y - x) \<and> unat (y - x) < unat (sys_val s' nx - x)"
proof -
  have "counting_inv n (ticket_inv nx sv) ctr (sys_val s ctr + of_nat (n * K)) (s', ws)"
    by (rule ticket_pool_inv [OF assms(5) _ _ assms(3,4,2)]) (use reachable_ok [OF assms(1)] in simp_all)
  then have "ticket_inv nx sv (map worker_phase ws) (sys_val s')" "length ws = n" by (simp_all add: counting_inv_def)
  from ticket_order [OF this(1), of i j x y] this(2) assms(6-9) show ?thesis by simp
qed

theorem ticket_fifo_witness:
  "\<exists>s. (pool_step (ticket_worker 0x40 0x80 0xC0))\<^sup>*\<^sup>* (two_cores, worker_pool Ticket_take 1 2)
     (s, [W_lock 0 (Ticket_wait 1), W_read 0 0]) \<and> sys_val s 0x80 = 0 \<and> 1 < unat (sys_val s 0x40)"
proof -
  obtain s where s: "(pool_step (ticket_worker 0x40 0x80 0xC0))\<^sup>*\<^sup>* (two_cores, worker_pool Ticket_take 1 2)
     (s, [W_lock 0 (Ticket_wait 1), W_read 0 0])" using ticket_waiting by blast
  have "0 = sys_val s 0x80 \<and> 0 < unat (1 - 0 :: u32) \<and> unat (1 - 0 :: u32) < unat (sys_val s 0x40 - 0)"
    by (rule ticket_fifo [OF _ _ _ _ s, of 1 0 0 1]) (use example_reachable(1) in \<open>simp_all add: example_values\<close>)
  with s show ?thesis by auto
qed



text \<open>
  C35: On a new system of at least two cores, ping_pong of up to 2^30 rounds returns and causes two
  BusRdX per round, a write back for every write but the first, and nothing else; with more rounds
  its product 2 * i overflows an int.
\<close>

theorem ping_pong_traffic:
  assumes "MesiSystem_new n = Inr s" and "2 \<le> n"
  shows "if iters \<le> 2 ^ 30 then \<exists>s'. ping_pong a iters s = Inr s' \<and> sys_ok s'
      \<and> bus_rdx_count (b_perf (s_bus s')) = of_nat (2 * nat iters)
      \<and> bus_wb_count (b_perf (s_bus s')) = of_nat (2 * nat iters - 1)
      \<and> bus_rd_count (b_perf (s_bus s')) = 0 \<and> bus_upgr_count (b_perf (s_bus s')) = 0
    else ping_pong a iters s = Inl Signed_Overflow"
  using ping_pong_run [OF assms, of iters a] ping_pong_overflow [OF assms, of iters a]
  by (auto simp: contended_def sys_traffic_def bus_traffic_def traffic_of_def rdx_traffic_def)

theorem ping_pong_traffic_witness:
  "\<exists>s'. ping_pong 0x1000 100 two_cores = Inr s' \<and> bus_rdx_count (b_perf (s_bus s')) = 200"
  using ping_pong_traffic [OF two_cores_new, of 100 "0x1000"] by auto

text \<open>
  C36: The false-sharing cliff: two cores that write their own words cause 4 * iters - 1 bus
  transactions when the words share a line and two in all when they do not.
\<close>

theorem false_sharing_cliff:
  assumes "MesiSystem_new n = Inr s" and "2 \<le> n" and "0 < iters"
  shows "\<exists>s'. false_sharing a0 a1 iters s = Inr s'
    \<and> total_bus_txns (b_perf (s_bus s')) = (if line_of a1 = line_of a0 then of_nat (4 * nat iters - 1) else 2)"
proof (cases "line_of a1 = line_of a0")
  case True
  have "2 * nat iters + (2 * nat iters - 1) = 4 * nat iters - 1" using assms(3) by simp
  then have "of_nat (2 * nat iters) + of_nat (2 * nat iters - 1) = (of_nat (4 * nat iters - 1) :: u64)"
    by (metis of_nat_add)
  with false_sharing_same_line [OF assms(1,2) True, of iters] True show ?thesis
    by (auto simp: contended_def sys_traffic_def bus_traffic_def traffic_of_def rdx_traffic_def total_bus_txns_def
        simp del: of_nat_mult)
next
  case False
  with false_sharing_padded [OF assms(1,2) False, of iters] assms(3) show ?thesis
    by (auto simp: padded_def sys_traffic_def bus_traffic_def traffic_of_def rdx_traffic_def total_bus_txns_def)
qed

theorem false_sharing_cliff_witness:
  "(\<exists>s'. false_sharing 0x40 0x44 100 two_cores = Inr s' \<and> total_bus_txns (b_perf (s_bus s')) = 399)
   \<and> (\<exists>s'. false_sharing 0x40 0x80 100 two_cores = Inr s' \<and> total_bus_txns (b_perf (s_bus s')) = 2)"
  using false_sharing_cliff [OF two_cores_new, of 100 "0x40" "0x44"]
    false_sharing_cliff [OF two_cores_new, of 100 "0x40" "0x80"] by (simp add: example_lines)

text \<open>
  C37: producer_consumer returns, for a buffer of up to 2^29 words (so that 4 * i is an int) that does
  not contain the flag, exactly the words the producer wrote, in order.
\<close>

theorem producer_consumer_delivers:
  assumes "reachable n s" and "2 \<le> n" and "nat words \<le> 2 ^ 29"
    and "\<forall>k < nat words. flag_addr \<noteq> buf_base + 4 * of_nat k"
  shows "\<exists>s'. producer_consumer buf_base words flag_addr s
    = Inr (map (\<lambda>k. 0xC0DE0000 + of_nat k) [0..<nat words], s') \<and> sys_ok s'"
  using producer_consumer_run [of s words flag_addr buf_base] reachable_ok [OF assms(1)] assms(2-4)
  by (auto simp: produced_def)

theorem producer_consumer_delivers_witness:
  "\<exists>s'. producer_consumer 0x6000 2 0x6100 two_cores = Inr ([0xC0DE0000, 0xC0DE0001], s') \<and> sys_ok s'"
proof -
  have "0x6100 \<noteq> (0x6000 + 4 * of_nat k :: u32)" if "k < 2" for k
    using that by (auto simp: less_2_cases_iff)
  then show ?thesis
    using producer_consumer_delivers [OF example_reachable(1), of 2 "0x6100" "0x6000"] by (simp add: upt_rec)
qed

text \<open>
  C38: Which of two stores to one address survives a drain: on any reachable system, a core with a new
  buffer of depth at least two stores v and then w to the same address and drains the buffer; its
  own load then returns w in FIFO mode, but in RELAXED mode it returns the overwritten v whenever
  the first random draw is odd.
\<close>

theorem relaxed_drain_reorders:
  assumes "reachable n s" and "StoreBuffer_new (Some s) c depth mode rng = Inr sb" and "2 \<le> depth"
  shows "\<exists>sb' s' sb'' s''. for_each exec_sb [Sb_store a v, Sb_store a w, Sb_drain_all] (sb, s) = Inr (sb', s') \<and> sb_empty sb'
    \<and> StoreBuffer_load a sb' s' = Inr (if mode = RELAXED \<and> odd (unat (rng 0)) then v else w, sb'', s'')"
proof -
  let ?sb = "sb\<lparr>sb_buf := [\<lparr>e_addr = a, e_val = v\<rparr>, \<lparr>e_addr = a, e_val = w\<rparr>]\<rparr>"
  note new = StoreBuffer_newD [OF assms(2) conjunct1 [OF reachable_ok [OF assms(1)]]]
  have ok: "sb_ok (?sb, s)" using new(2) by (simp add: sb_ok_def)
  obtain sb' s' where d: "drain_all ?sb s = Inr (sb', s')" "sb_ok (sb', s')" "sb_buf sb' = []"
    "sys_val s' a = (if mode = RELAXED \<and> odd (unat (rng 0)) then v else w)"
    using drain_all_pair [OF ok] new(1) by auto
  have "for_each exec_sb [Sb_store a v, Sb_store a w, Sb_drain_all] (sb, s) = Inr (sb', s')"
    using new(1) assms(3) d(1) by (simp add: StoreBuffer_store_def int_of_size sb_size_def)
  with d StoreBuffer_load_ok [OF d(2), of a] show ?thesis by (auto simp: owner_view_def sb_empty_def)
qed

theorem relaxed_drain_reorders_witness:
  "\<exists>sb sb' s' sb'' s''. StoreBuffer_new (Some written) 1 4 RELAXED (\<lambda>_. 1) = Inr sb
    \<and> for_each exec_sb [Sb_store 0x40 1, Sb_store 0x40 2, Sb_drain_all] (sb, written) = Inr (sb', s')
    \<and> StoreBuffer_load 0x40 sb' s' = Inr (1, sb'', s'')"
proof -
  obtain sb where sb: "StoreBuffer_new (Some written) 1 4 RELAXED (\<lambda>_. 1) = Inr sb" by (simp add: StoreBuffer_new_def example_cores)
  from relaxed_drain_reorders [OF example_reachable(2) sb, of "0x40" 1 2] sb show ?thesis by (simp del: for_each.simps) blast
qed



text \<open>
  C40: The shape of a reachable system never changes: one controller per core, at least one core, one
  entry per core in every per-core counter vector, and the arbitration pointer is a core number.
\<close>

theorem state_well_formed:
  assumes "reachable n s"
  shows "int (length (b_controllers (s_bus s))) = n \<and> 0 < n \<and> perf_sized (nat n) (b_perf (s_bus s))
    \<and> b_arb_ptr (s_bus s) < nat n"
proof -
  have "coherent (s_bus s)" "n_cores s = n" using reachable_ok [OF assms] by (simp_all add: sys_ok_def)
  with coherentD(1) [OF this(1)] show ?thesis by (auto simp: bus_wf_def n_cores_def bus_n_cores_def)
qed

theorem state_well_formed_witness: "perf_sized 2 (b_perf (s_bus shared_line)) \<and> b_arb_ptr (s_bus shared_line) < 2"
  using state_well_formed [OF example_reachable(3)] by simp

end
